theory Spec2Isabelle
  imports Complex_Main "HOL-Library.Numeral_Type"
begin

section \<open>Dense matrices of fixed dimensions\<close>

text \<open>
  The templated solvers work on Eigen matrices whose dimensions are template parameters
  (\<^verbatim>\<open>Matrix<rows, cols>\<close>, with \<^verbatim>\<open>Vector<rows> = Matrix<rows, 1>\<close>).  A dimension
  is modelled by a finite index type, a matrix by the function from a row and a column index
  to its entry.  A \<^verbatim>\<open>double\<close> entry is a real number: rounding is not modelled.
\<close>

type_synonym ('r, 'c) Matrix = "'r \<Rightarrow> 'c \<Rightarrow> real"
type_synonym 'n Vector = "('n, unit) Matrix"
type_synonym 'n RowVector = "(unit, 'n) Matrix"

definition mZero :: "('r, 'c) Matrix" where
  "mZero = (\<lambda>i j. 0)"

definition mIdentity :: "('n, 'n) Matrix" where
  "mIdentity = (\<lambda>i j. if i = j then 1 else 0)"

definition madd :: "('r, 'c) Matrix \<Rightarrow> ('r, 'c) Matrix \<Rightarrow> ('r, 'c) Matrix" where
  "madd X Y = (\<lambda>i j. X i j + Y i j)"

definition msub :: "('r, 'c) Matrix \<Rightarrow> ('r, 'c) Matrix \<Rightarrow> ('r, 'c) Matrix" where
  "msub X Y = (\<lambda>i j. X i j - Y i j)"

definition mscale :: "real \<Rightarrow> ('r, 'c) Matrix \<Rightarrow> ('r, 'c) Matrix" where
  "mscale c X = (\<lambda>i j. c * X i j)"

definition mneg :: "('r, 'c) Matrix \<Rightarrow> ('r, 'c) Matrix" where
  "mneg X = (\<lambda>i j. - X i j)"

definition mmul :: "('r, 'k::finite) Matrix \<Rightarrow> ('k, 'c) Matrix \<Rightarrow> ('r, 'c) Matrix" where
  "mmul X Y = (\<lambda>i j. \<Sum>k\<in>UNIV. X i k * Y k j)"

definition mtranspose :: "('r, 'c) Matrix \<Rightarrow> ('c, 'r) Matrix" where
  "mtranspose X = (\<lambda>i j. X j i)"

definition symmetric :: "('n, 'n) Matrix \<Rightarrow> bool" where
  "symmetric X = (mtranspose X = X)"

section \<open>The linearisation and quadratisation helpers\<close>

text \<open>
  \<^verbatim>\<open>linearize_dynamics\<close>, the two overloads of \<^verbatim>\<open>quadratize_cost\<close>, Eigen's
  \<^verbatim>\<open>inverse()\<close> and \<^verbatim>\<open>math::is_equal\<close> (at the two vector types it is used at) are called
  by the solvers but defined elsewhere.  They are parameters of the model: every function
  below takes them in a record and no theorem assumes anything about them beyond what it
  states.
\<close>

type_synonym ('x, 'u) DynamicsFunc = "'x Vector \<Rightarrow> 'u Vector \<Rightarrow> 'x Vector"
type_synonym ('x, 'u) CostFunc = "'x Vector \<Rightarrow> 'u Vector \<Rightarrow> nat \<Rightarrow> real"
type_synonym 'x FinalCostFunc = "'x Vector \<Rightarrow> real"

type_synonym ('x, 'u) quadratic =
  "('x, 'x) Matrix \<times> ('u, 'u) Matrix \<times> ('x, 'u) Matrix \<times> 'x Vector \<times> 'u Vector"

record ('x, 'u) numerics =
  linearize_dynamics ::
    "('x, 'u) DynamicsFunc \<Rightarrow> 'x Vector \<Rightarrow> 'u Vector \<Rightarrow> ('x, 'x) Matrix \<times> ('x, 'u) Matrix"
  quadratize_cost ::
    "('x, 'u) CostFunc \<Rightarrow> nat \<Rightarrow> 'x Vector \<Rightarrow> 'u Vector \<Rightarrow> ('x, 'u) quadratic"
  quadratize_final_cost ::
    "'x FinalCostFunc \<Rightarrow> 'x Vector \<Rightarrow> ('x, 'x) Matrix \<times> 'x Vector"
  minverse :: "('u, 'u) Matrix \<Rightarrow> ('u, 'u) Matrix"
  is_equal_x :: "'x Vector \<Rightarrow> 'x Vector \<Rightarrow> bool"
  is_equal_u :: "'u Vector \<Rightarrow> 'u Vector \<Rightarrow> bool"

section \<open>Doubles with the special values the solvers rely on\<close>

text \<open>
  \<^verbatim>\<open>solve\<close> starts from \<^verbatim>\<open>old_cost = infinity\<close> and divides by a cost that may be
  zero, so a cost or a cost ratio is a real number or one of the IEEE special values.
  Arithmetic on finite values is exact; the sign of a zero divisor is taken to be positive
  (the quotient is only used under \<^verbatim>\<open>std::abs\<close>).
\<close>

datatype dbl = Fin real | PInf | MInf | NaN

fun dbl_sub :: "dbl \<Rightarrow> dbl \<Rightarrow> dbl" where
  "dbl_sub NaN _ = NaN"
| "dbl_sub _ NaN = NaN"
| "dbl_sub (Fin a) (Fin b) = Fin (a - b)"
| "dbl_sub (Fin a) PInf = MInf"
| "dbl_sub (Fin a) MInf = PInf"
| "dbl_sub PInf PInf = NaN"
| "dbl_sub PInf _ = PInf"
| "dbl_sub MInf MInf = NaN"
| "dbl_sub MInf _ = MInf"

fun dbl_div :: "dbl \<Rightarrow> dbl \<Rightarrow> dbl" where
  "dbl_div NaN _ = NaN"
| "dbl_div _ NaN = NaN"
| "dbl_div (Fin a) (Fin b) =
     (if b = 0 then (if a = 0 then NaN else if 0 < a then PInf else MInf) else Fin (a / b))"
| "dbl_div (Fin a) _ = Fin 0"
| "dbl_div PInf (Fin b) = (if 0 \<le> b then PInf else MInf)"
| "dbl_div MInf (Fin b) = (if 0 \<le> b then MInf else PInf)"
| "dbl_div _ _ = NaN"

fun dbl_abs :: "dbl \<Rightarrow> dbl" where
  "dbl_abs (Fin a) = Fin \<bar>a\<bar>"
| "dbl_abs PInf = PInf"
| "dbl_abs MInf = PInf"
| "dbl_abs NaN = NaN"

text \<open>The comparison \<^verbatim>\<open><\<close>: false as soon as one side is NaN.\<close>

fun dbl_less :: "dbl \<Rightarrow> dbl \<Rightarrow> bool" where
  "dbl_less NaN _ = False"
| "dbl_less _ NaN = False"
| "dbl_less (Fin a) (Fin b) = (a < b)"
| "dbl_less (Fin a) PInf = True"
| "dbl_less (Fin a) MInf = False"
| "dbl_less PInf _ = False"
| "dbl_less MInf MInf = False"
| "dbl_less MInf _ = True"

section \<open>Run-time checks\<close>

text \<open>
  Modelled from the spec: the checking macros \<^verbatim>\<open>IS_GREATER\<close>, \<^verbatim>\<open>IS_EQUAL\<close>, ... of
  \<^verbatim>\<open>utils/debug_utils.hh\<close>, which is not among the sources.  A check that does not hold
  throws (the tests rely on it through \<^verbatim>\<open>DOES_THROW\<close>), which ends the enclosing call; a
  check that holds has no effect.  \<^verbatim>\<open>IS_ALMOST_EQUAL(a, b, tol)\<close> accepts \<open>a\<close> within
  \<open>b \<plusminus> tol\<close>.
\<close>

datatype error =
    IS_GREATER_failed | IS_GREATER_EQUAL_failed | IS_EQUAL_failed | IS_ALMOST_EQUAL_failed
  | IS_TRUE_failed | IS_BETWEEN_failed | Undefined_behaviour

definition IS_GREATER :: "'a::ord \<Rightarrow> 'a \<Rightarrow> error + unit" where
  "IS_GREATER a b = (if b < a then Inr () else Inl IS_GREATER_failed)"

definition IS_GREATER_EQUAL :: "'a::ord \<Rightarrow> 'a \<Rightarrow> error + unit" where
  "IS_GREATER_EQUAL a b = (if b \<le> a then Inr () else Inl IS_GREATER_EQUAL_failed)"

definition IS_EQUAL :: "'a \<Rightarrow> 'a \<Rightarrow> error + unit" where
  "IS_EQUAL a b = (if a = b then Inr () else Inl IS_EQUAL_failed)"

definition IS_ALMOST_EQUAL :: "real \<Rightarrow> real \<Rightarrow> real \<Rightarrow> error + unit" where
  "IS_ALMOST_EQUAL a b tol = (if \<bar>a - b\<bar> \<le> tol then Inr () else Inl IS_ALMOST_EQUAL_failed)"

definition IS_TRUE :: "bool \<Rightarrow> error + unit" where
  "IS_TRUE b = (if b then Inr () else Inl IS_TRUE_failed)"

definition IS_BETWEEN_INCLUSIVE :: "'a::ord \<Rightarrow> 'a \<Rightarrow> 'a \<Rightarrow> error + unit" where
  "IS_BETWEEN_INCLUSIVE a lo hi = (if lo \<le> a \<and> a \<le> hi then Inr () else Inl IS_BETWEEN_failed)"

definition IS_BETWEEN_LOWER_INCLUSIVE :: "'a::ord \<Rightarrow> 'a \<Rightarrow> 'a \<Rightarrow> error + unit" where
  "IS_BETWEEN_LOWER_INCLUSIVE a lo hi =
     (if lo \<le> a \<and> a < hi then Inr () else Inl IS_BETWEEN_failed)"

text \<open>A sequence of checks: the first one that fails is the one that throws.\<close>

fun checks :: "(error + unit) list \<Rightarrow> error + unit" where
  "checks [] = Inr ()"
| "checks (c # cs) = (case c of Inl e \<Rightarrow> Inl e | Inr _ \<Rightarrow> checks cs)"

text \<open>
  A loop over a range whose body may throw: the body runs for each element in turn on the
  state the previous round left, and the first throw ends the loop.
\<close>

fun for_loop :: "'a list \<Rightarrow> ('a \<Rightarrow> 's \<Rightarrow> error + 's) \<Rightarrow> 's \<Rightarrow> error + 's" where
  "for_loop [] body s = Inr s"
| "for_loop (i # is) body s = (case body i s of Inl e \<Rightarrow> Inl e | Inr s' \<Rightarrow> for_loop is body s')"

section \<open>The backtracking line search\<close>

text \<open>
  Both solvers run the same loop.  \<^verbatim>\<open>new_cost\<close> starts as NaN, so the loop condition
  \<^verbatim>\<open>!(new_cost < old_cost || cost_diff_ratio < cost_convg_ratio)\<close> holds on entry and the
  body runs at least once ("NaN makes sure termination conditions won't be met"); from then
  on \<^verbatim>\<open>new_cost\<close> is the cost of the last forward pass.  \<open>fp alpha\<close> is that forward pass: it
  may throw, and otherwise gives the rollout and its cost, a double that need not be finite.
  There is no bound on the number of rounds, so the loop is a partial function: \<open>None\<close> is
  a search that never returns.  The result carries \<open>alpha\<close> as the loop leaves it, already
  multiplied by \<open>beta\<close>.  The step size is kept an exact real: the halvings of the double
  are exact as long as it stays in the normal range; far below \<^verbatim>\<open>start_alpha\<close> the double
  reaches 0, which the real only approaches.
\<close>

definition beta :: real where
  "beta = 0.5"

definition cost_diff_ratio_of :: "dbl \<Rightarrow> dbl \<Rightarrow> dbl" where
  "cost_diff_ratio_of old_cost new_cost = dbl_abs (dbl_div (dbl_sub old_cost new_cost) new_cost)"

definition accepted :: "dbl \<Rightarrow> dbl \<Rightarrow> dbl \<Rightarrow> real \<Rightarrow> bool" where
  "accepted new_cost old_cost cost_diff_ratio cost_convg_ratio =
     (dbl_less new_cost old_cost \<or> dbl_less cost_diff_ratio (Fin cost_convg_ratio))"

partial_function (option) line_search ::
  "(real \<Rightarrow> error + 'r \<times> dbl) \<Rightarrow> dbl \<Rightarrow> real \<Rightarrow> real \<Rightarrow> (error + 'r \<times> dbl \<times> dbl \<times> real) option"
where
  "line_search fp old_cost cost_convg_ratio alpha =
     (case fp alpha of
        Inl e \<Rightarrow> Some (Inl e)
      | Inr (rollout, new_cost) \<Rightarrow>
          let cost_diff_ratio = cost_diff_ratio_of old_cost new_cost;
              alpha' = alpha * beta
          in if accepted new_cost old_cost cost_diff_ratio cost_convg_ratio
             then Some (Inr (rollout, new_cost, cost_diff_ratio, alpha'))
             else line_search fp old_cost cost_convg_ratio alpha')"

text \<open>
  The forward passes below add up real costs, so the double that they hand to the search is
  a finite one: overflow and costs that are not numbers are outside the forward passes of
  the model, not outside its search.
\<close>

definition probe :: "(real \<Rightarrow> error + 'r \<times> real) \<Rightarrow> real \<Rightarrow> error + 'r \<times> dbl" where
  "probe fp alpha = (case fp alpha of Inl e \<Rightarrow> Inl e | Inr (rollout, c) \<Rightarrow> Inr (rollout, Fin c))"

section \<open>The single-chain solver\<close>

text \<open>
  The members of \<^verbatim>\<open>iLQRSolver<xdim, udim>\<close>; a member \<^verbatim>\<open>Ks_\<close> is written \<open>m_Ks\<close>.
  A time step is a natural number wherever the code has checked it to be one.
\<close>

record ('x, 'u) iLQRSolver =
  m_dynamics :: "('x, 'u) DynamicsFunc"
  m_final_cost :: "'x FinalCostFunc"
  m_cost :: "('x, 'u) CostFunc"
  m_Ks :: "('u, 'x) Matrix list"
  m_ks :: "'u Vector list"
  m_uhat :: "'u Vector list"
  m_xhat :: "'x Vector list"

definition compute_control_stepsize ::
  "('x::finite, 'u) iLQRSolver \<Rightarrow> 'x Vector \<Rightarrow> nat \<Rightarrow> real \<Rightarrow> 'u Vector" where
  "compute_control_stepsize s xt t alpha =
     (let Kt = m_Ks s ! t;
          kt = m_ks s ! t;
          zt = msub xt (m_xhat s ! t);
          vt = madd (mmul Kt zt) (mscale alpha kt)
      in madd vt (m_uhat s ! t))"

definition timesteps :: "('x, 'u) iLQRSolver \<Rightarrow> error + nat" where
  "timesteps s =
     (let T = length (m_uhat s)
      in case checks [IS_EQUAL T (length (m_ks s)), IS_EQUAL T (length (m_Ks s)),
                      IS_EQUAL (T + 1) (length (m_xhat s))] of
           Inl e \<Rightarrow> Inl e
         | Inr _ \<Rightarrow> Inr T)"

text \<open>
  One round of the loop of \<^verbatim>\<open>forward_pass\<close>.  The code resizes the two output vectors to
  \<open>T + 1\<close> and \<open>T\<close> and then writes every slot, \<open>states[0]\<close> first and \<open>controls[t]\<close>,
  \<open>states[t+1]\<close> in round \<open>t\<close>; the model appends the same values in the same order.
\<close>

definition forward_step ::
  "('x::finite, 'u) iLQRSolver \<Rightarrow> real \<Rightarrow> nat \<Rightarrow>
   'x Vector list \<times> 'u Vector list \<times> real \<Rightarrow> 'x Vector list \<times> 'u Vector list \<times> real" where
  "forward_step s alpha t acc =
     (case acc of (states, controls, cost_to_go) \<Rightarrow>
        let u = compute_control_stepsize s (states ! t) t alpha;
            c = m_cost s (states ! t) u t;
            xt1 = m_dynamics s (states ! t) u
        in (states @ [xt1], controls @ [u], cost_to_go + c))"

definition forward_pass ::
  "('x::finite, 'u) iLQRSolver \<Rightarrow> 'x Vector \<Rightarrow> real \<Rightarrow>
   error + ('x Vector list \<times> 'u Vector list) \<times> real" where
  "forward_pass s x_init alpha =
     (case timesteps s of
        Inl e \<Rightarrow> Inl e
      | Inr T \<Rightarrow>
         (case fold (forward_step s alpha) [0..<T] ([x_init], [], 0) of
            (states, controls, cost_to_go) \<Rightarrow>
              Inr ((states, controls), cost_to_go + m_final_cost s (states ! T))))"

definition bellman_backup ::
  "('x::finite, 'u::finite) numerics \<Rightarrow> ('x, 'u) iLQRSolver \<Rightarrow> nat \<Rightarrow> real \<Rightarrow>
   ('x, 'x) Matrix \<Rightarrow> 'x RowVector \<Rightarrow>
   ('x, 'x) Matrix \<times> 'x RowVector \<times> ('u, 'x) Matrix \<times> 'u Vector" where
  "bellman_backup N s t mu Vt1 Gt1 =
     (let x = m_xhat s ! t;
          u = m_uhat s ! t
      in case linearize_dynamics N (m_dynamics s) x u of (A, B) \<Rightarrow>
         case quadratize_cost N (m_cost s) t x u of (Q, R, P, g_x, g_u) \<Rightarrow>
      let LM = mscale mu mIdentity;
          inv_term = mscale (- 1)
            (minverse N (madd R (mmul (mmul (mtranspose B) (madd Vt1 LM)) B)));
          Kt = mmul inv_term
            (madd (mtranspose P) (mmul (mmul (mtranspose B) (madd Vt1 LM)) A));
          kt = mmul inv_term (madd g_u (mmul (mtranspose B) (mtranspose Gt1)));
          tmp = madd A (mmul B Kt);
          Vt = madd (madd (madd Q (mscale 2 (mmul P Kt)))
                 (mmul (mmul (mtranspose Kt) R) Kt))
                 (mmul (mmul (mtranspose tmp) Vt1) tmp);
          Gt = madd (madd (madd (madd (madd
                 (mmul (mtranspose kt) (mtranspose P))
                 (mmul (mmul (mtranspose kt) R) Kt))
                 (mtranspose g_x))
                 (mmul (mtranspose g_u) Kt))
                 (mmul (mmul (mmul (mtranspose kt) (mtranspose B)) Vt1) tmp))
                 (mmul Gt1 tmp)
      in (Vt, Gt, Kt, kt))"

text \<open>
  The loop \<^verbatim>\<open>for (int t = T-1; t >= 0; --t)\<close> of \<^verbatim>\<open>solve\<close>: the first argument is
  \<open>t + 1\<close>.  Each round writes \<open>Ks_[t]\<close> and \<open>ks_[t]\<close> and hands \<open>(Vt, Gt)\<close> on.
\<close>

fun backward_loop ::
  "('x::finite, 'u::finite) numerics \<Rightarrow> real \<Rightarrow> nat \<Rightarrow>
   ('x, 'x) Matrix \<times> 'x RowVector \<times> ('x, 'u) iLQRSolver \<Rightarrow>
   ('x, 'x) Matrix \<times> 'x RowVector \<times> ('x, 'u) iLQRSolver" where
  "backward_loop N mu 0 acc = acc"
| "backward_loop N mu (Suc t) acc =
     (case acc of (Vt1, Gt1, s) \<Rightarrow>
      case bellman_backup N s t mu Vt1 Gt1 of (Vt, Gt, Kt, kt) \<Rightarrow>
        backward_loop N mu t
          (Vt, Gt, s\<lparr>m_Ks := (m_Ks s)[t := Kt], m_ks := (m_ks s)[t := kt]\<rparr>))"

definition backward_pass ::
  "('x::finite, 'u::finite) numerics \<Rightarrow> nat \<Rightarrow> real \<Rightarrow> ('x, 'u) iLQRSolver \<Rightarrow>
   ('x, 'u) iLQRSolver" where
  "backward_pass N T mu s =
     (case quadratize_final_cost N (m_final_cost s) (m_xhat s ! T) of (QT, gT) \<Rightarrow>
      case backward_loop N mu T (QT, mtranspose gT, s) of (Vt, Gt, s') \<Rightarrow> s')"

text \<open>
  The loop \<^verbatim>\<open>for (iter = 0; iter < max_iters; ++iter)\<close>: the argument counts the rounds
  that remain.  A round runs the line search, commits the accepted rollout, stops when the
  cost ratio is below the threshold and otherwise runs the backward pass.
\<close>

fun solve_loop ::
  "('x::finite, 'u::finite) numerics \<Rightarrow> nat \<Rightarrow> 'x Vector \<Rightarrow> real \<Rightarrow> real \<Rightarrow> real \<Rightarrow>
   nat \<Rightarrow> ('x, 'u) iLQRSolver \<Rightarrow> dbl \<Rightarrow> (error + ('x, 'u) iLQRSolver) option" where
  "solve_loop N T x_init mu cost_convg_ratio start_alpha 0 s old_cost = Some (Inr s)"
| "solve_loop N T x_init mu cost_convg_ratio start_alpha (Suc n) s old_cost =
     (case line_search (probe (forward_pass s x_init)) old_cost cost_convg_ratio start_alpha of
        None \<Rightarrow> None
      | Some (Inl e) \<Rightarrow> Some (Inl e)
      | Some (Inr ((xhat_new, uhat_new), new_cost, cost_diff_ratio, alpha)) \<Rightarrow>
          let s1 = s\<lparr>m_xhat := xhat_new, m_uhat := uhat_new\<rparr>
          in if dbl_less cost_diff_ratio (Fin cost_convg_ratio) then Some (Inr s1)
             else solve_loop N T x_init mu cost_convg_ratio start_alpha n
                    (backward_pass N T mu s1) new_cost)"

text \<open>
  The start of \<^verbatim>\<open>solve\<close>: a cold start sizes and clears the four vectors, a warm start
  drops their first \<open>t_offset\<close> entries and checks what remains against \<open>T\<close>.  The
  single-chain solver does not check the sign of \<open>t_offset\<close>; erasing a negative range is
  undefined in C++.
\<close>

definition initialize ::
  "('x, 'u) iLQRSolver \<Rightarrow> nat \<Rightarrow> 'u Vector \<Rightarrow> bool \<Rightarrow> int \<Rightarrow> error + ('x, 'u) iLQRSolver" where
  "initialize s T u_nominal warm_start t_offset =
     (if \<not> warm_start then
        Inr (s\<lparr>m_Ks := replicate T mZero, m_ks := replicate T mZero,
               m_uhat := replicate T u_nominal, m_xhat := replicate (T + 1) mZero\<rparr>)
      else
        (case IS_GREATER (int (length (m_Ks s))) t_offset of
          Inl e \<Rightarrow> Inl e
        | Inr _ \<Rightarrow>
            if t_offset < 0 then Inl Undefined_behaviour
            else
              let s' = s\<lparr>m_Ks := drop (nat t_offset) (m_Ks s),
                         m_ks := drop (nat t_offset) (m_ks s),
                         m_uhat := drop (nat t_offset) (m_uhat s),
                         m_xhat := drop (nat t_offset) (m_xhat s)\<rparr>
              in (case checks [IS_EQUAL (length (m_Ks s')) T, IS_EQUAL (length (m_ks s')) T,
                               IS_EQUAL (length (m_uhat s')) T,
                               IS_EQUAL (length (m_xhat s')) (T + 1)] of
                    Inl e \<Rightarrow> Inl e
                  | Inr _ \<Rightarrow> Inr s')))"

definition solve ::
  "('x::finite, 'u::finite) numerics \<Rightarrow> ('x, 'u) iLQRSolver \<Rightarrow> int \<Rightarrow> 'x Vector \<Rightarrow>
   'u Vector \<Rightarrow> real \<Rightarrow> int \<Rightarrow> real \<Rightarrow> real \<Rightarrow> bool \<Rightarrow> int \<Rightarrow>
   (error + ('x, 'u) iLQRSolver) option" where
  "solve N s T x_init u_nominal mu max_iters cost_convg_ratio start_alpha warm_start t_offset =
     (case checks [IS_GREATER T 0, IS_GREATER_EQUAL mu 0, IS_GREATER max_iters 0,
                   IS_GREATER cost_convg_ratio 0, IS_GREATER start_alpha 0] of
        Inl e \<Rightarrow> Some (Inl e)
      | Inr _ \<Rightarrow>
         (case initialize s (nat T) u_nominal warm_start t_offset of
            Inl e \<Rightarrow> Some (Inl e)
          | Inr s0 \<Rightarrow>
              solve_loop N (nat T) x_init mu cost_convg_ratio start_alpha (nat max_iters)
                s0 PInf))"

section \<open>The hindsight solver\<close>

record ('x, 'u) HindsightBranch =
  dynamics :: "('x, 'u) DynamicsFunc"
  cost :: "('x, 'u) CostFunc"
  final_cost :: "'x FinalCostFunc"
  probability :: real
  Ks :: "('u, 'x) Matrix list"
  ks :: "'u Vector list"
  uhat :: "'u Vector list"
  xhat :: "'x Vector list"

record ('x, 'u) iLQRHindsightSolver =
  m_branches :: "('x, 'u) HindsightBranch list"
  m_K0 :: "('u, 'x) Matrix"
  m_k0 :: "'u Vector"
  m_xhat0 :: "'x Vector"
  m_uhat0 :: "'u Vector"

definition total_branch_probability :: "('x, 'u) HindsightBranch list \<Rightarrow> real" where
  "total_branch_probability bs = foldl (\<lambda>total_prob branch. total_prob + probability branch) 0 bs"

text \<open>
  The constructor.  It sets \<open>K0_\<close> and \<open>k0_\<close> to zero and leaves \<open>xhat0_\<close> and \<open>uhat0_\<close>
  uninitialised: the two last arguments stand for whatever they hold.
\<close>

definition make_iLQRHindsightSolver ::
  "('x, 'u) HindsightBranch list \<Rightarrow> 'x Vector \<Rightarrow> 'u Vector \<Rightarrow>
   error + ('x, 'u) iLQRHindsightSolver" where
  "make_iLQRHindsightSolver branches x_uninit u_uninit =
     (case checks [IS_GREATER (length branches) 0,
                   IS_ALMOST_EQUAL (total_branch_probability branches) 1 (1 / 1000)] of
        Inl e \<Rightarrow> Inl e
      | Inr _ \<Rightarrow>
          Inr \<lparr>m_branches = branches, m_K0 = mZero, m_k0 = mZero,
               m_xhat0 = x_uninit, m_uhat0 = u_uninit\<rparr>)"

definition set_branch_probability ::
  "('x, 'u) iLQRHindsightSolver \<Rightarrow> nat \<Rightarrow> real \<Rightarrow> error + ('x, 'u) iLQRHindsightSolver" where
  "set_branch_probability s branch_num p =
     (case checks [IS_BETWEEN_LOWER_INCLUSIVE branch_num 0 (length (m_branches s)),
                   IS_BETWEEN_INCLUSIVE p 0 1] of
        Inl e \<Rightarrow> Inl e
      | Inr _ \<Rightarrow>
          Inr (s\<lparr>m_branches := (m_branches s)[branch_num :=
                 (m_branches s ! branch_num)\<lparr>probability := p\<rparr>]\<rparr>))"

definition compute_first_control ::
  "('x::finite, 'u) iLQRHindsightSolver \<Rightarrow> 'x Vector \<Rightarrow> 'u Vector" where
  "compute_first_control s x0 =
     (let zt = msub x0 (m_xhat0 s);
          vt = madd (mmul (m_K0 s) zt) (m_k0 s)
      in madd vt (m_uhat0 s))"

text \<open>
  \<^verbatim>\<open>compute_control_stepsize\<close> of the hindsight solver checks the branch number and then
  computes on that branch; \<open>branch_control\<close> is the computation.
\<close>

definition branch_control ::
  "('x::finite, 'u) HindsightBranch \<Rightarrow> 'x Vector \<Rightarrow> nat \<Rightarrow> real \<Rightarrow> 'u Vector" where
  "branch_control branch xt t alpha =
     (let Kt = Ks branch ! t;
          kt = ks branch ! t;
          zt = msub xt (xhat branch ! t);
          vt = madd (mmul Kt zt) (mscale alpha kt)
      in madd vt (uhat branch ! t))"

definition hs_compute_control_stepsize ::
  "('x::finite, 'u) iLQRHindsightSolver \<Rightarrow> nat \<Rightarrow> 'x Vector \<Rightarrow> nat \<Rightarrow> real \<Rightarrow>
   error + 'u Vector" where
  "hs_compute_control_stepsize s branch_num xt t alpha =
     (case IS_BETWEEN_LOWER_INCLUSIVE branch_num 0 (length (m_branches s)) of
        Inl e \<Rightarrow> Inl e
      | Inr _ \<Rightarrow> Inr (branch_control (m_branches s ! branch_num) xt t alpha))"

definition hs_timesteps :: "('x, 'u) iLQRHindsightSolver \<Rightarrow> error + nat" where
  "hs_timesteps s =
     (case IS_GREATER (length (m_branches s)) 0 of
        Inl e \<Rightarrow> Inl e
      | Inr _ \<Rightarrow>
         (let T = length (uhat (m_branches s ! 0))
          in case checks [IS_EQUAL T (length (ks (m_branches s ! 0))),
                          IS_EQUAL T (length (Ks (m_branches s ! 0))),
                          IS_EQUAL (T + 1) (length (xhat (m_branches s ! 0)))] of
               Inl e \<Rightarrow> Inl e
             | Inr _ \<Rightarrow> Inr T))"

text \<open>
  One round of the loop of the hindsight \<^verbatim>\<open>forward_pass\<close>, on the branch it has selected.
  The branch number was checked on entry, so the check repeated inside
  \<^verbatim>\<open>compute_control_stepsize\<close> holds and only its computation is left.
\<close>

definition hs_forward_step ::
  "('x::finite, 'u) HindsightBranch \<Rightarrow> real \<Rightarrow> nat \<Rightarrow>
   'x Vector list \<times> 'u Vector list \<times> real \<Rightarrow> 'x Vector list \<times> 'u Vector list \<times> real" where
  "hs_forward_step branch alpha t acc =
     (case acc of (states, controls, cost_to_go) \<Rightarrow>
        let u = branch_control branch (states ! t) t alpha;
            c = cost branch (states ! t) u t;
            xt1 = dynamics branch (states ! t) u
        in (states @ [xt1], controls @ [u], cost_to_go + c))"

definition hs_forward_pass ::
  "('x::finite, 'u) iLQRHindsightSolver \<Rightarrow> nat \<Rightarrow> 'x Vector \<Rightarrow> real \<Rightarrow>
   error + ('x Vector list \<times> 'u Vector list) \<times> real" where
  "hs_forward_pass s branch_num x_init alpha =
     (case IS_BETWEEN_LOWER_INCLUSIVE branch_num 0 (length (m_branches s)) of
        Inl e \<Rightarrow> Inl e
      | Inr _ \<Rightarrow>
         (case hs_timesteps s of
            Inl e \<Rightarrow> Inl e
          | Inr T \<Rightarrow>
             (let branch = m_branches s ! branch_num
              in case fold (hs_forward_step branch alpha) [0..<T] ([x_init], [], 0) of
                   (states, controls, cost_to_go) \<Rightarrow>
                     Inr ((states, controls), cost_to_go + final_cost branch (states ! T)))))"

text \<open>
  \<^verbatim>\<open>bellman_backup\<close> of the hindsight solver: it writes the gains into the branch itself
  and returns \<open>(Vt, Gt)\<close>.
\<close>

definition hs_bellman_backup ::
  "('x::finite, 'u::finite) numerics \<Rightarrow> ('x, 'u) iLQRHindsightSolver \<Rightarrow> nat \<Rightarrow> nat \<Rightarrow> real \<Rightarrow>
   ('x, 'x) Matrix \<Rightarrow> 'x RowVector \<Rightarrow>
   ('x, 'x) Matrix \<times> 'x RowVector \<times> ('x, 'u) iLQRHindsightSolver" where
  "hs_bellman_backup N s branch_num t mu Vt1 Gt1 =
     (let branch = m_branches s ! branch_num;
          x = xhat branch ! t;
          u = uhat branch ! t
      in case linearize_dynamics N (dynamics branch) x u of (A, B) \<Rightarrow>
         case quadratize_cost N (cost branch) t x u of (Q, R, P, g_x, g_u) \<Rightarrow>
      let LM = mscale mu mIdentity;
          inv_term = mscale (- 1)
            (minverse N (madd R (mmul (mmul (mtranspose B) (madd Vt1 LM)) B)));
          Kt = mmul inv_term
            (madd (mtranspose P) (mmul (mmul (mtranspose B) (madd Vt1 LM)) A));
          kt = mmul inv_term (madd g_u (mmul (mtranspose B) (mtranspose Gt1)));
          branch' = branch\<lparr>Ks := (Ks branch)[t := Kt], ks := (ks branch)[t := kt]\<rparr>;
          tmp = madd A (mmul B Kt);
          Vt = madd (madd (madd Q (mscale 2 (mmul P Kt)))
                 (mmul (mmul (mtranspose Kt) R) Kt))
                 (mmul (mmul (mtranspose tmp) Vt1) tmp);
          Gt = madd (madd (madd (madd (madd
                 (mmul (mtranspose kt) (mtranspose P))
                 (mmul (mmul (mtranspose kt) R) Kt))
                 (mtranspose g_x))
                 (mmul (mtranspose g_u) Kt))
                 (mmul (mmul (mmul (mtranspose kt) (mtranspose B)) Vt1) tmp))
                 (mmul Gt1 tmp)
      in (Vt, Gt, s\<lparr>m_branches := (m_branches s)[branch_num := branch']\<rparr>))"

text \<open>
  A loop body of \<^verbatim>\<open>solve\<close> that binds \<^verbatim>\<open>HindsightBranch &branch = branches_[branch_num]\<close>
  and writes through the reference.
\<close>

definition update_branch ::
  "('x, 'u) iLQRHindsightSolver \<Rightarrow> nat \<Rightarrow>
   (('x, 'u) HindsightBranch \<Rightarrow> ('x, 'u) HindsightBranch) \<Rightarrow> ('x, 'u) iLQRHindsightSolver" where
  "update_branch s branch_num f =
     s\<lparr>m_branches := (m_branches s)[branch_num := f (m_branches s ! branch_num)]\<rparr>"

text \<open>The start of the hindsight \<^verbatim>\<open>solve\<close>, after the argument checks.\<close>

definition cold_start ::
  "('x, 'u) iLQRHindsightSolver \<Rightarrow> nat \<Rightarrow> 'u Vector \<Rightarrow> ('x, 'u) iLQRHindsightSolver" where
  "cold_start s T u_nominal =
     fold (\<lambda>branch_num s. update_branch s branch_num
            (\<lambda>branch. branch\<lparr>Ks := replicate T mZero, ks := replicate T mZero,
                              uhat := replicate T u_nominal,
                              xhat := replicate (T + 1) mZero\<rparr>))
       [0..<length (m_branches s)]
       (s\<lparr>m_xhat0 := mZero, m_uhat0 := u_nominal, m_K0 := mZero, m_k0 := mZero\<rparr>)"

definition warm_resize ::
  "nat \<Rightarrow> int \<Rightarrow> nat \<Rightarrow> ('x, 'u) iLQRHindsightSolver \<Rightarrow> error + ('x, 'u) iLQRHindsightSolver" where
  "warm_resize T t_offset branch_num s =
     (let branch = m_branches s ! branch_num;
          old_size = int (length (Ks branch))
      in case IS_GREATER old_size t_offset of
           Inl e \<Rightarrow> Inl e
         | Inr _ \<Rightarrow>
            (let branch' = branch\<lparr>Ks := drop (nat t_offset) (Ks branch),
                                   ks := drop (nat t_offset) (ks branch),
                                   uhat := drop (nat t_offset) (uhat branch),
                                   xhat := drop (nat t_offset) (xhat branch)\<rparr>
             in case checks [IS_EQUAL (length (Ks branch')) T, IS_EQUAL (length (ks branch')) T,
                             IS_EQUAL (length (uhat branch')) T,
                             IS_EQUAL (length (xhat branch')) (T + 1)] of
                  Inl e \<Rightarrow> Inl e
                | Inr _ \<Rightarrow>
                    Inr ((update_branch s branch_num (\<lambda>_. branch'))
                          \<lparr>m_K0 := madd (m_K0 s) (mscale (probability branch') (Ks branch' ! 0)),
                           m_k0 := madd (m_k0 s) (mscale (probability branch') (ks branch' ! 0))\<rparr>)))"

definition warm_copy ::
  "nat \<Rightarrow> ('x, 'u) iLQRHindsightSolver \<Rightarrow> ('x, 'u) iLQRHindsightSolver" where
  "warm_copy branch_num s =
     update_branch s branch_num
       (\<lambda>branch. branch\<lparr>Ks := (Ks branch)[0 := m_K0 s], ks := (ks branch)[0 := m_k0 s],
                         xhat := (xhat branch)[0 := m_xhat0 s],
                         uhat := (uhat branch)[0 := m_uhat0 s]\<rparr>)"

definition warm_start_init ::
  "('x, 'u) iLQRHindsightSolver \<Rightarrow> nat \<Rightarrow> 'x Vector \<Rightarrow> 'u Vector \<Rightarrow> int \<Rightarrow>
   error + ('x, 'u) iLQRHindsightSolver" where
  "warm_start_init s T x_init u_nominal t_offset =
     (let num_branches = length (m_branches s)
      in case for_loop [0..<num_branches] (warm_resize T t_offset)
                (s\<lparr>m_xhat0 := x_init, m_uhat0 := u_nominal, m_K0 := mZero, m_k0 := mZero\<rparr>) of
           Inl e \<Rightarrow> Inl e
         | Inr s' \<Rightarrow> Inr (fold warm_copy [0..<num_branches] s'))"

definition hs_initialize ::
  "('x, 'u) iLQRHindsightSolver \<Rightarrow> nat \<Rightarrow> 'x Vector \<Rightarrow> 'u Vector \<Rightarrow> bool \<Rightarrow> int \<Rightarrow>
   error + ('x, 'u) iLQRHindsightSolver" where
  "hs_initialize s T x_init u_nominal warm_start t_offset =
     (if \<not> warm_start then Inr (cold_start s T u_nominal)
      else warm_start_init s T x_init u_nominal t_offset)"

text \<open>
  The body of the line-search loop: the forward pass of every branch at the same \<open>alpha\<close>,
  the costs weighted by the branch probabilities.  The rollouts land in the scratch vectors,
  which the code overwrites before it next reads them, so the search keeps the cost only.
\<close>

definition expected_cost ::
  "('x::finite, 'u) iLQRHindsightSolver \<Rightarrow> 'x Vector \<Rightarrow> real \<Rightarrow> error + unit \<times> real" where
  "expected_cost s x_init alpha =
     (case for_loop [0..<length (m_branches s)]
             (\<lambda>branch_num new_cost.
                case hs_forward_pass s branch_num x_init alpha of
                  Inl e \<Rightarrow> Inl e
                | Inr (rollout, branch_new_cost) \<Rightarrow>
                    Inr (new_cost + probability (m_branches s ! branch_num) * branch_new_cost))
             0 of
        Inl e \<Rightarrow> Inl e
      | Inr new_cost \<Rightarrow> Inr ((), new_cost))"

text \<open>
  After the search: one more forward pass per branch at the accepted step size, whose
  rollout becomes the branch's nominal trajectory; \<open>x0s\<close> and \<open>u0s\<close> collect the first state
  and control of each.
\<close>

definition commit_branch ::
  "'x Vector \<Rightarrow> real \<Rightarrow> nat \<Rightarrow>
   ('x::finite, 'u) iLQRHindsightSolver \<times> 'x Vector list \<times> 'u Vector list \<Rightarrow>
   error + ('x, 'u) iLQRHindsightSolver \<times> 'x Vector list \<times> 'u Vector list" where
  "commit_branch x_init alpha branch_num acc =
     (case acc of (s, x0s, u0s) \<Rightarrow>
        (case hs_forward_pass s branch_num x_init alpha of
           Inl e \<Rightarrow> Inl e
         | Inr ((xhat_new, uhat_new), c) \<Rightarrow>
             Inr (update_branch s branch_num
                    (\<lambda>branch. branch\<lparr>xhat := xhat_new, uhat := uhat_new\<rparr>),
                  x0s[branch_num := xhat_new ! 0], u0s[branch_num := uhat_new ! 0])))"

text \<open>
  The per-branch sweep \<^verbatim>\<open>for (int t = T-1; t > 0; --t)\<close>: the third argument is \<open>t + 1\<close>,
  and the round \<open>t = 0\<close> is not run.  The code keeps \<open>Gt1\<close> as a column here and Eigen
  transposes it on the way in and out of \<^verbatim>\<open>bellman_backup\<close>; the model keeps the row.
\<close>

fun hs_backward_loop ::
  "('x::finite, 'u::finite) numerics \<Rightarrow> real \<Rightarrow> nat \<Rightarrow> nat \<Rightarrow>
   ('x, 'x) Matrix \<times> 'x RowVector \<times> ('x, 'u) iLQRHindsightSolver \<Rightarrow>
   ('x, 'x) Matrix \<times> 'x RowVector \<times> ('x, 'u) iLQRHindsightSolver" where
  "hs_backward_loop N mu branch_num 0 acc = acc"
| "hs_backward_loop N mu branch_num (Suc 0) acc = acc"
| "hs_backward_loop N mu branch_num (Suc (Suc t)) acc =
     (case acc of (Vt1, Gt1, s) \<Rightarrow>
        hs_backward_loop N mu branch_num (Suc t)
          (hs_bellman_backup N s branch_num (Suc t) mu Vt1 Gt1))"

definition backup_branch ::
  "('x::finite, 'u::finite) numerics \<Rightarrow> nat \<Rightarrow> real \<Rightarrow> nat \<Rightarrow>
   ('x, 'u) iLQRHindsightSolver \<times> ('x, 'x) Matrix list \<times> 'x RowVector list \<Rightarrow>
   ('x, 'u) iLQRHindsightSolver \<times> ('x, 'x) Matrix list \<times> 'x RowVector list" where
  "backup_branch N T mu branch_num acc =
     (case acc of (s, branch_V1, branch_G1) \<Rightarrow>
      let branch = m_branches s ! branch_num
      in case quadratize_final_cost N (final_cost branch) (last (xhat branch)) of (QT, gT) \<Rightarrow>
         case hs_backward_loop N mu branch_num T (QT, mtranspose gT, s) of (Vt1, Gt1, s') \<Rightarrow>
           (s', branch_V1[branch_num := Vt1], branch_G1[branch_num := Gt1]))"

text \<open>The probability-weighted sums of the merge at the first time step.\<close>

record ('x, 'u) merge_terms =
  weighted_inv_term :: "('u, 'u) Matrix"
  weighted_Kt_term :: "('u, 'x) Matrix"
  weighted_kt_term :: "'u Vector"
  wQ :: "('x, 'x) Matrix"
  wR :: "('u, 'u) Matrix"
  wP :: "('x, 'u) Matrix"
  wg_x :: "'x Vector"
  wg_u :: "'u Vector"

definition merge_zero :: "('x, 'u) merge_terms" where
  "merge_zero = \<lparr>weighted_inv_term = mZero, weighted_Kt_term = mZero, weighted_kt_term = mZero,
                 wQ = mZero, wR = mZero, wP = mZero, wg_x = mZero, wg_u = mZero\<rparr>"

definition merge_branch ::
  "('x::finite, 'u::finite) numerics \<Rightarrow> real \<Rightarrow> ('x, 'u) iLQRHindsightSolver \<Rightarrow>
   ('x, 'x) Matrix list \<Rightarrow> 'x RowVector list \<Rightarrow> nat \<Rightarrow>
   ('x, 'u) merge_terms \<Rightarrow> ('x, 'u) merge_terms" where
  "merge_branch N mu s branch_V1 branch_G1 branch_num w =
     (let branch = m_branches s ! branch_num;
          p = probability branch;
          LM = mscale mu mIdentity;
          x = m_xhat0 s;
          u = m_uhat0 s
      in case linearize_dynamics N (dynamics branch) x u of (A, B) \<Rightarrow>
         let Vt1 = branch_V1 ! branch_num;
             Gt1 = branch_G1 ! branch_num
         in case quadratize_cost N (cost branch) 0 x u of (Q, R, P, g_x, g_u) \<Rightarrow>
           \<lparr>weighted_inv_term = madd (weighted_inv_term w)
               (mscale p (mmul (mmul (mtranspose B) (madd Vt1 LM)) B)),
            weighted_Kt_term = madd (weighted_Kt_term w)
               (mscale p (mmul (mmul (mtranspose B) (madd Vt1 LM)) A)),
            weighted_kt_term = madd (weighted_kt_term w)
               (mscale p (mmul (mtranspose B) (mtranspose Gt1))),
            wQ = madd (wQ w) (mscale p Q),
            wR = madd (wR w) (mscale p R),
            wP = madd (wP w) (mscale p P),
            wg_x = madd (wg_x w) (mscale p g_x),
            wg_u = madd (wg_u w) (mscale p g_u)\<rparr>)"

definition merge_gains ::
  "('x::finite, 'u::finite) numerics \<Rightarrow> ('x, 'u) merge_terms \<Rightarrow> ('u, 'x) Matrix \<times> 'u Vector" where
  "merge_gains N w =
     (let inv_term = mscale (- 1) (minverse N (madd (wR w) (weighted_inv_term w)))
      in (mmul inv_term (madd (mtranspose (wP w)) (weighted_Kt_term w)),
          mmul inv_term (madd (wg_u w) (weighted_kt_term w))))"

text \<open>
  The last loop of a round: the shared gains go into the first slot of every branch, and
  the first state and control of every branch are checked against the shared ones.
\<close>

definition copy_first ::
  "('x, 'u) numerics \<Rightarrow> nat \<Rightarrow> ('x, 'u) iLQRHindsightSolver \<Rightarrow>
   error + ('x, 'u) iLQRHindsightSolver" where
  "copy_first N branch_num s =
     (let s' = update_branch s branch_num
                 (\<lambda>branch. branch\<lparr>Ks := (Ks branch)[0 := m_K0 s], ks := (ks branch)[0 := m_k0 s]\<rparr>);
          branch = m_branches s' ! branch_num
      in case checks [IS_TRUE (is_equal_x N (xhat branch ! 0) (m_xhat0 s)),
                      IS_TRUE (is_equal_u N (uhat branch ! 0) (m_uhat0 s))] of
           Inl e \<Rightarrow> Inl e
         | Inr _ \<Rightarrow> Inr s')"

definition hs_backward_pass ::
  "('x::finite, 'u::finite) numerics \<Rightarrow> nat \<Rightarrow> real \<Rightarrow> ('x, 'u) iLQRHindsightSolver \<Rightarrow>
   error + ('x, 'u) iLQRHindsightSolver" where
  "hs_backward_pass N T mu s =
     (let num_branches = length (m_branches s)
      in case fold (backup_branch N T mu) [0..<num_branches]
                (s, replicate num_branches mZero, replicate num_branches mZero) of
           (s1, branch_V1, branch_G1) \<Rightarrow>
      let w = fold (merge_branch N mu s1 branch_V1 branch_G1) [0..<num_branches] merge_zero
      in case merge_gains N w of (K0, k0) \<Rightarrow>
           for_loop [0..<num_branches] (copy_first N) (s1\<lparr>m_K0 := K0, m_k0 := k0\<rparr>))"

text \<open>
  The rounds of the hindsight \<^verbatim>\<open>solve\<close>; the argument counts those that remain.  The search
  leaves \<open>alpha\<close> one halving too far and the code undoes it before the commit.
\<close>

fun hs_solve_loop ::
  "('x::finite, 'u::finite) numerics \<Rightarrow> nat \<Rightarrow> 'x Vector \<Rightarrow> real \<Rightarrow> real \<Rightarrow> real \<Rightarrow>
   nat \<Rightarrow> ('x, 'u) iLQRHindsightSolver \<Rightarrow> dbl \<Rightarrow> (error + ('x, 'u) iLQRHindsightSolver) option" where
  "hs_solve_loop N T x_init mu cost_convg_ratio start_alpha 0 s old_cost = Some (Inr s)"
| "hs_solve_loop N T x_init mu cost_convg_ratio start_alpha (Suc n) s old_cost =
     (case line_search (probe (expected_cost s x_init)) old_cost cost_convg_ratio start_alpha of
        None \<Rightarrow> None
      | Some (Inl e) \<Rightarrow> Some (Inl e)
      | Some (Inr (rollout, new_cost, cost_diff_ratio, alpha')) \<Rightarrow>
          let alpha = (1 / beta) * alpha';
              num_branches = length (m_branches s)
          in (case for_loop [0..<num_branches] (commit_branch x_init alpha)
                     (s, replicate num_branches mZero, replicate num_branches mZero) of
                Inl e \<Rightarrow> Some (Inl e)
              | Inr (s1, x0s, u0s) \<Rightarrow>
                  let s2 = s1\<lparr>m_xhat0 := x0s ! 0, m_uhat0 := u0s ! 0\<rparr>
                  in if dbl_less cost_diff_ratio (Fin cost_convg_ratio) then Some (Inr s2)
                     else (case hs_backward_pass N T mu s2 of
                             Inl e \<Rightarrow> Some (Inl e)
                           | Inr s3 \<Rightarrow>
                               hs_solve_loop N T x_init mu cost_convg_ratio start_alpha n
                                 s3 new_cost)))"

definition hs_solve ::
  "('x::finite, 'u::finite) numerics \<Rightarrow> ('x, 'u) iLQRHindsightSolver \<Rightarrow> int \<Rightarrow> 'x Vector \<Rightarrow>
   'u Vector \<Rightarrow> real \<Rightarrow> int \<Rightarrow> real \<Rightarrow> real \<Rightarrow> bool \<Rightarrow> int \<Rightarrow>
   (error + ('x, 'u) iLQRHindsightSolver) option" where
  "hs_solve N s T x_init u_nominal mu max_iters cost_convg_ratio start_alpha warm_start t_offset =
     (case checks [IS_GREATER T 1, IS_GREATER_EQUAL mu 0, IS_GREATER max_iters 0,
                   IS_GREATER cost_convg_ratio 0, IS_GREATER start_alpha 0,
                   IS_GREATER_EQUAL t_offset 0,
                   IS_ALMOST_EQUAL (total_branch_probability (m_branches s)) 1 (1 / 1000)] of
        Inl e \<Rightarrow> Some (Inl e)
      | Inr _ \<Rightarrow>
         (case hs_initialize s (nat T) x_init u_nominal warm_start t_offset of
            Inl e \<Rightarrow> Some (Inl e)
          | Inr s0 \<Rightarrow>
              hs_solve_loop N (nat T) x_init mu cost_convg_ratio start_alpha (nat max_iters)
                s0 PInf))"

section \<open>Example problems\<close>

text \<open>
  Linear dynamics \<open>x' = A x + B u\<close> with one control, and for them the helpers as the exact
  derivatives of the cost \<open>x\<^sup>T Q x / 2 + u\<^sup>T R u / 2 + x\<^sup>T P u\<close> and of the final cost
  \<open>x\<^sup>T QT x / 2\<close>; the inverse of a 1 \<times> 1 matrix is the reciprocal of its entry, and
  \<^verbatim>\<open>is_equal\<close> is equality.
\<close>

definition lq_dynamics ::
  "('x::finite, 'x) Matrix \<Rightarrow> ('x, 'u::finite) Matrix \<Rightarrow> ('x, 'u) DynamicsFunc" where
  "lq_dynamics A B x u = madd (mmul A x) (mmul B u)"

definition reciprocal :: "(unit, unit) Matrix \<Rightarrow> (unit, unit) Matrix" where
  "reciprocal X = (\<lambda>i j. 1 / X () ())"

definition lq_numerics ::
  "('x::finite, 'x) Matrix \<Rightarrow> ('x, unit) Matrix \<Rightarrow> ('x, 'x) Matrix \<Rightarrow> (unit, unit) Matrix \<Rightarrow>
   ('x, unit) Matrix \<Rightarrow> ('x, 'x) Matrix \<Rightarrow> ('x, unit) numerics" where
  "lq_numerics A B Q R P QT =
     \<lparr>linearize_dynamics = (\<lambda>f x u. (A, B)),
      quadratize_cost = (\<lambda>c t x u.
         (Q, R, P, madd (mmul Q x) (mmul P u), madd (mmul R u) (mmul (mtranspose P) x))),
      quadratize_final_cost = (\<lambda>c x. (QT, mmul QT x)),
      minverse = reciprocal,
      is_equal_x = (=), is_equal_u = (=)\<rparr>"

text \<open>
  Two states, one control, and a cost \<open>(x\<^sub>0 + u)\<^sup>2 / 2\<close> that couples the first state with
  the control: \<open>x' = (x\<^sub>0, x\<^sub>1 + u)\<close>, final cost \<open>(x\<^sub>0\<^sup>2 + x\<^sub>1\<^sup>2) / 2\<close>.
\<close>

definition cross_B :: "(2, unit) Matrix" where
  "cross_B = (\<lambda>i j. if i = 1 then 1 else 0)"

definition cross_Q :: "(2, 2) Matrix" where
  "cross_Q = (\<lambda>i j. if i = 0 \<and> j = 0 then 1 else 0)"

definition cross_P :: "(2, unit) Matrix" where
  "cross_P = (\<lambda>i j. if i = 0 then 1 else 0)"

definition cross_R :: "(unit, unit) Matrix" where
  "cross_R = (\<lambda>i j. 1)"

definition cross_numerics :: "(2, unit) numerics" where
  "cross_numerics = lq_numerics mIdentity cross_B cross_Q cross_R cross_P mIdentity"

definition cross_cost :: "(2, unit) CostFunc" where
  "cross_cost x u t = (x 0 () + u () ()) * (x 0 () + u () ()) / 2"

definition cross_final_cost :: "2 FinalCostFunc" where
  "cross_final_cost x = (x 0 () * x 0 () + x 1 () * x 1 ()) / 2"

definition cross_solver :: "(2, unit) iLQRSolver" where
  "cross_solver =
     \<lparr>m_dynamics = lq_dynamics mIdentity cross_B, m_final_cost = cross_final_cost,
      m_cost = cross_cost,
      m_Ks = [mZero, mZero], m_ks = [mZero, mZero], m_uhat = [mZero, mZero],
      m_xhat = [mZero, mZero, mZero]\<rparr>"

definition cross_hindsight :: "(2, unit) iLQRHindsightSolver" where
  "cross_hindsight =
     \<lparr>m_branches = [\<lparr>dynamics = lq_dynamics mIdentity cross_B, cost = cross_cost,
                      final_cost = cross_final_cost, probability = 1,
                      Ks = [mZero, mZero], ks = [mZero, mZero], uhat = [mZero, mZero],
                      xhat = [mZero, mZero, mZero]\<rparr>],
      m_K0 = mZero, m_k0 = mZero, m_xhat0 = mZero, m_uhat0 = mZero\<rparr>"

section \<open>Auxiliary notions for the statements\<close>

text \<open>
  A probe of the line search at \<open>alpha\<close> ends the search when its forward pass throws or its
  cost is accepted; \<open>outcome\<close> is what the search then returns.
\<close>

definition stops :: "(real \<Rightarrow> error + 'r \<times> dbl) \<Rightarrow> dbl \<Rightarrow> real \<Rightarrow> real \<Rightarrow> bool" where
  "stops fp old_cost cost_convg_ratio alpha =
     (case fp alpha of
        Inl e \<Rightarrow> True
      | Inr (rollout, new_cost) \<Rightarrow>
          accepted new_cost old_cost (cost_diff_ratio_of old_cost new_cost) cost_convg_ratio)"

definition outcome ::
  "(real \<Rightarrow> error + 'r \<times> dbl) \<Rightarrow> dbl \<Rightarrow> real \<Rightarrow> error + 'r \<times> dbl \<times> dbl \<times> real" where
  "outcome fp old_cost alpha =
     (case fp alpha of
        Inl e \<Rightarrow> Inl e
      | Inr (rollout, new_cost) \<Rightarrow>
          Inr (rollout, new_cost, cost_diff_ratio_of old_cost new_cost, alpha * beta))"

text \<open>The four vectors of the single-chain solver have the sizes that go with horizon \<open>T\<close>.\<close>

definition sized :: "nat \<Rightarrow> ('x, 'u) iLQRSolver \<Rightarrow> bool" where
  "sized T s \<longleftrightarrow> length (m_Ks s) = T \<and> length (m_ks s) = T \<and> length (m_uhat s) = T \<and>
     length (m_xhat s) = T + 1"

text \<open>The matrix \<^verbatim>\<open>R + B.transpose()*(Vt1+LM)*B\<close> that \<^verbatim>\<open>bellman_backup\<close> inverts.\<close>

definition control_hessian ::
  "('x::finite, 'u::finite) numerics \<Rightarrow> ('x, 'u) iLQRSolver \<Rightarrow> nat \<Rightarrow> real \<Rightarrow> ('x, 'x) Matrix \<Rightarrow> ('u, 'u) Matrix" where
  "control_hessian N s t mu Vt1 =
     (case linearize_dynamics N (m_dynamics s) (m_xhat s ! t) (m_uhat s ! t) of (A, B) \<Rightarrow>
      case quadratize_cost N (m_cost s) t (m_xhat s ! t) (m_uhat s ! t) of (Q, R, P, g_x, g_u) \<Rightarrow>
        madd R (mmul (mmul (mtranspose B) (madd Vt1 (mscale mu mIdentity))) B))"

text \<open>
  One state and one control: \<open>x' = x + u\<close>, cost \<open>(q x\<^sup>2 + r u\<^sup>2) / 2\<close>, final cost
  \<open>qT x\<^sup>2 / 2\<close>.  The last four arguments of \<open>scalar_solver\<close> are its four vectors.
\<close>

definition scalar :: "real \<Rightarrow> (unit, unit) Matrix" where
  "scalar c = (\<lambda>i j. c)"

definition scalar_numerics :: "real \<Rightarrow> real \<Rightarrow> real \<Rightarrow> (unit, unit) numerics" where
  "scalar_numerics q r qT = lq_numerics (scalar 1) (scalar 1) (scalar q) (scalar r) mZero (scalar qT)"

definition scalar_cost :: "real \<Rightarrow> real \<Rightarrow> (unit, unit) CostFunc" where
  "scalar_cost q r x u t = (q * (x () () * x () ()) + r * (u () () * u () ())) / 2"

definition scalar_final_cost :: "real \<Rightarrow> unit FinalCostFunc" where
  "scalar_final_cost qT x = qT * (x () () * x () ()) / 2"

definition scalar_solver ::
  "real \<Rightarrow> real \<Rightarrow> real \<Rightarrow> (unit, unit) Matrix list \<Rightarrow> (unit, unit) Matrix list \<Rightarrow> (unit, unit) Matrix list \<Rightarrow> (unit, unit) Matrix list \<Rightarrow> (unit, unit) iLQRSolver" where
  "scalar_solver q r qT Kl kl ul xl =
     \<lparr>m_dynamics = lq_dynamics (scalar 1) (scalar 1), m_final_cost = scalar_final_cost qT,
      m_cost = scalar_cost q r, m_Ks = Kl, m_ks = kl, m_uhat = ul, m_xhat = xl\<rparr>"

definition scalar_branch ::
  "real \<Rightarrow> real \<Rightarrow> real \<Rightarrow> real \<Rightarrow> (unit, unit) Matrix list \<Rightarrow> (unit, unit) Matrix list \<Rightarrow>
   (unit, unit) Matrix list \<Rightarrow> (unit, unit) Matrix list \<Rightarrow> (unit, unit) HindsightBranch" where
  "scalar_branch q r qT p Kl kl ul xl =
     \<lparr>dynamics = lq_dynamics (scalar 1) (scalar 1), cost = scalar_cost q r,
      final_cost = scalar_final_cost qT, probability = p,
      Ks = Kl, ks = kl, uhat = ul, xhat = xl\<rparr>"

text \<open>A hindsight solver on scalar branches, as the constructor leaves it.\<close>

definition scalar_hindsight ::
  "(unit, unit) HindsightBranch list \<Rightarrow> (unit, unit) iLQRHindsightSolver" where
  "scalar_hindsight branches =
     \<lparr>m_branches = branches, m_K0 = mZero, m_k0 = mZero, m_xhat0 = mZero, m_uhat0 = mZero\<rparr>"

text \<open>The entrywise sum of a list of matrices.\<close>

definition msum :: "('r, 'c) Matrix list \<Rightarrow> ('r, 'c) Matrix" where
  "msum Ms = (\<lambda>i j. \<Sum>M\<leftarrow>Ms. M i j)"

text \<open>
  What the warm start does to one branch: the first \<open>n\<close> entries of its four vectors go,
  and later the four shared values are written into the first slots.
\<close>

definition drop_first :: "nat \<Rightarrow> ('x, 'u) HindsightBranch \<Rightarrow> ('x, 'u) HindsightBranch" where
  "drop_first n branch =
     branch\<lparr>Ks := drop n (Ks branch), ks := drop n (ks branch),
            uhat := drop n (uhat branch), xhat := drop n (xhat branch)\<rparr>"

definition set_first ::
  "('u, 'x) Matrix \<Rightarrow> 'u Vector \<Rightarrow> 'x Vector \<Rightarrow> 'u Vector \<Rightarrow>
   ('x, 'u) HindsightBranch \<Rightarrow> ('x, 'u) HindsightBranch" where
  "set_first K0 k0 x0 u0 branch =
     branch\<lparr>Ks := (Ks branch)[0 := K0], ks := (ks branch)[0 := k0],
            xhat := (xhat branch)[0 := x0], uhat := (uhat branch)[0 := u0]\<rparr>"

text \<open>The four vectors of a branch have the sizes that go with horizon \<open>T\<close>.\<close>

definition branch_sized :: "nat \<Rightarrow> ('x, 'u) HindsightBranch \<Rightarrow> bool" where
  "branch_sized T branch \<longleftrightarrow>
     length (Ks branch) = T \<and> length (ks branch) = T \<and> length (uhat branch) = T \<and>
     length (xhat branch) = T + 1"

text \<open>
  Two scalar branches with probabilities \<open>1/4\<close> and \<open>3/4\<close> that hold a solution for
  horizon 3, to be warm-started at horizon 2 with offset 1.
\<close>

definition warm_example :: "(unit, unit) iLQRHindsightSolver" where
  "warm_example = scalar_hindsight
     [scalar_branch 1 1 1 (1 / 4) [scalar 9, scalar 1, scalar 2] [scalar 9, scalar 3, scalar 4]
        [scalar 9, scalar 0, scalar 0] [scalar 9, scalar 0, scalar 0, scalar 0],
      scalar_branch 1 1 1 (3 / 4) [scalar 9, scalar 5, scalar 6] [scalar 9, scalar 7, scalar 8]
        [scalar 9, scalar 0, scalar 0] [scalar 9, scalar 0, scalar 0, scalar 0]]"

text \<open>Every branch of a hindsight solver has the sizes of horizon \<open>T\<close>, and there is one.\<close>

definition hs_sized :: "nat \<Rightarrow> ('x, 'u) iLQRHindsightSolver \<Rightarrow> bool" where
  "hs_sized T s \<longleftrightarrow> m_branches s \<noteq> [] \<and> list_all (branch_sized T) (m_branches s)"

text \<open>
  What the forward pass of the hindsight solver computes on a branch once its checks have
  passed, and the branch with that rollout as its nominal trajectory.
\<close>

definition branch_rollout ::
  "('x::finite, 'u) HindsightBranch \<Rightarrow> nat \<Rightarrow> 'x Vector \<Rightarrow> real \<Rightarrow>
   ('x Vector list \<times> 'u Vector list) \<times> real" where
  "branch_rollout branch T x_init alpha =
     (case fold (hs_forward_step branch alpha) [0..<T] ([x_init], [], 0) of
        (states, controls, cost_to_go) \<Rightarrow>
          ((states, controls), cost_to_go + final_cost branch (states ! T)))"

definition commit_rollout ::
  "nat \<Rightarrow> 'x Vector \<Rightarrow> real \<Rightarrow> ('x::finite, 'u) HindsightBranch \<Rightarrow> ('x, 'u) HindsightBranch" where
  "commit_rollout T x_init alpha branch =
     branch\<lparr>xhat := fst (fst (branch_rollout branch T x_init alpha)),
            uhat := snd (fst (branch_rollout branch T x_init alpha))\<rparr>"

text \<open>
  \<open>gains_frame br br'\<close>: the branch \<open>br'\<close> is \<open>br\<close> up to the gains in the slots
  \<open>t \<ge> 1\<close>.  \<open>same_shared s s'\<close>: the shared values and the number of branches agree.
\<close>

definition gains_frame :: "('x, 'u) HindsightBranch \<Rightarrow> ('x, 'u) HindsightBranch \<Rightarrow> bool" where
  "gains_frame br br' \<longleftrightarrow>
     dynamics br' = dynamics br \<and> cost br' = cost br \<and> final_cost br' = final_cost br \<and>
     probability br' = probability br \<and> xhat br' = xhat br \<and> uhat br' = uhat br \<and>
     length (Ks br') = length (Ks br) \<and> length (ks br') = length (ks br) \<and>
     Ks br' ! 0 = Ks br ! 0 \<and> ks br' ! 0 = ks br ! 0"

definition same_shared :: "('x, 'u) iLQRHindsightSolver \<Rightarrow> ('x, 'u) iLQRHindsightSolver \<Rightarrow> bool" where
  "same_shared s s' \<longleftrightarrow>
     m_K0 s' = m_K0 s \<and> m_k0 s' = m_k0 s \<and> m_xhat0 s' = m_xhat0 s \<and> m_uhat0 s' = m_uhat0 s \<and>
     length (m_branches s') = length (m_branches s)"

text \<open>
  The pair \<open>(V\<^sub>1, g\<^sub>1)\<close> at which the sweep of one branch ends: the final cost quadratised
  at the last state of the branch, then the sweep.
\<close>

definition boundary_pair ::
  "('x::finite, 'u::finite) numerics \<Rightarrow> nat \<Rightarrow> real \<Rightarrow> ('x, 'u) iLQRHindsightSolver \<Rightarrow> nat \<Rightarrow>
   ('x, 'x) Matrix \<times> 'x RowVector" where
  "boundary_pair N T mu s branch_num =
     (let branch = m_branches s ! branch_num
      in case quadratize_final_cost N (final_cost branch) (last (xhat branch)) of (QT, gT) \<Rightarrow>
         case hs_backward_loop N mu branch_num T (QT, mtranspose gT, s) of (V1, G1, s') \<Rightarrow>
           (V1, G1))"

text \<open>
  The two steps of the last loop of a round on one branch: the shared gains go into its
  first slot, and its first state and control are compared with the shared ones.
\<close>

definition put_gains ::
  "('u, 'x) Matrix \<Rightarrow> 'u Vector \<Rightarrow> ('x, 'u) HindsightBranch \<Rightarrow> ('x, 'u) HindsightBranch" where
  "put_gains K0 k0 branch = branch\<lparr>Ks := (Ks branch)[0 := K0], ks := (ks branch)[0 := k0]\<rparr>"

definition first_agrees ::
  "('x, 'u) numerics \<Rightarrow> 'x Vector \<Rightarrow> 'u Vector \<Rightarrow> ('x, 'u) HindsightBranch \<Rightarrow> bool" where
  "first_agrees N x0 u0 branch \<longleftrightarrow>
     is_equal_x N (xhat branch ! 0) x0 \<and> is_equal_u N (uhat branch ! 0) u0"

text \<open>The first slot of every branch holds the four shared values.\<close>

definition first_slot_shared :: "('x, 'u) iLQRHindsightSolver \<Rightarrow> bool" where
  "first_slot_shared s \<longleftrightarrow>
     (\<forall>branch\<in>set (m_branches s).
        Ks branch ! 0 = m_K0 s \<and> ks branch ! 0 = m_k0 s \<and>
        xhat branch ! 0 = m_xhat0 s \<and> uhat branch ! 0 = m_uhat0 s)"

text \<open>The probability-weighted cost that the line search sees at \<open>alpha\<close>.\<close>

definition expected_rollout_cost ::
  "('x::finite, 'u) HindsightBranch list \<Rightarrow> nat \<Rightarrow> 'x Vector \<Rightarrow> real \<Rightarrow> real" where
  "expected_rollout_cost branches T x_init alpha =
     foldl (\<lambda>new_cost branch. new_cost + probability branch * snd (branch_rollout branch T x_init alpha))
       0 branches"

text \<open>The solver after the commit of a round at step size \<open>alpha\<close>.\<close>

definition committed ::
  "nat \<Rightarrow> 'x Vector \<Rightarrow> real \<Rightarrow> ('x::finite, 'u) iLQRHindsightSolver \<Rightarrow>
   ('x, 'u) iLQRHindsightSolver" where
  "committed T x_init alpha s =
     s\<lparr>m_branches := map (commit_rollout T x_init alpha) (m_branches s),
       m_xhat0 := xhat (commit_rollout T x_init alpha (m_branches s ! 0)) ! 0,
       m_uhat0 := uhat (commit_rollout T x_init alpha (m_branches s ! 0)) ! 0\<rparr>"

text \<open>What the cold start does to one branch.\<close>

definition cold_branch :: "nat \<Rightarrow> 'u Vector \<Rightarrow> ('x, 'u) HindsightBranch \<Rightarrow> ('x, 'u) HindsightBranch" where
  "cold_branch T u_nominal branch =
     branch\<lparr>Ks := replicate T mZero, ks := replicate T mZero, uhat := replicate T u_nominal,
            xhat := replicate (T + 1) mZero\<rparr>"

text \<open>
  The shared gains at the first time step as the specification writes them, from the
  boundary pairs \<open>(V1 b, g1 b)\<close> of the branches: with every branch linearised and quadratised
  at the shared \<open>(xhat0_, uhat0_)\<close>,
  \<open>Hbar = \<Sum>\<^sub>b p\<^sub>b (R\<^sub>b + B\<^sub>b\<^sup>T (V1 b + mu I) B\<^sub>b)\<close>,
  \<open>Mbar = \<Sum>\<^sub>b p\<^sub>b (P\<^sub>b\<^sup>T + B\<^sub>b\<^sup>T (V1 b + mu I) A\<^sub>b)\<close>,
  \<open>mbar = \<Sum>\<^sub>b p\<^sub>b B\<^sub>b\<^sup>T (g1 b)\<^sup>T + \<Sum>\<^sub>b p\<^sub>b g_u\<^sub>b\<close>, and
  \<open>K0 = - Hbar\<^sup>-\<^sup>1 Mbar\<close>, \<open>k0 = - Hbar\<^sup>-\<^sup>1 mbar\<close>.
\<close>

definition merged_first_gains ::
  "('x::finite, 'u::finite) numerics \<Rightarrow> real \<Rightarrow> ('x, 'u) iLQRHindsightSolver \<Rightarrow>
   (nat \<Rightarrow> ('x, 'x) Matrix) \<Rightarrow> (nat \<Rightarrow> 'x RowVector) \<Rightarrow> ('u, 'x) Matrix \<times> 'u Vector" where
  "merged_first_gains N mu s V1 g1 =
     (let bnums = [0..<length (m_branches s)];
          lin = (\<lambda>b. linearize_dynamics N (dynamics (m_branches s ! b)) (m_xhat0 s) (m_uhat0 s));
          quad = (\<lambda>b. quadratize_cost N (cost (m_branches s ! b)) 0 (m_xhat0 s) (m_uhat0 s));
          p = (\<lambda>b. probability (m_branches s ! b));
          Hbar = msum (map (\<lambda>b. case lin b of (A, B) \<Rightarrow> case quad b of (Q, R, P, g_x, g_u) \<Rightarrow>
                   mscale (p b) (madd R
                     (mmul (mmul (mtranspose B) (madd (V1 b) (mscale mu mIdentity))) B))) bnums);
          Mbar = msum (map (\<lambda>b. case lin b of (A, B) \<Rightarrow> case quad b of (Q, R, P, g_x, g_u) \<Rightarrow>
                   mscale (p b) (madd (mtranspose P)
                     (mmul (mmul (mtranspose B) (madd (V1 b) (mscale mu mIdentity))) A))) bnums);
          mbar = madd
                   (msum (map (\<lambda>b. case lin b of (A, B) \<Rightarrow>
                      mscale (p b) (mmul (mtranspose B) (mtranspose (g1 b)))) bnums))
                   (msum (map (\<lambda>b. case quad b of (Q, R, P, g_x, g_u) \<Rightarrow> mscale (p b) g_u) bnums))
      in (mneg (mmul (minverse N Hbar) Mbar), mneg (mmul (minverse N Hbar) mbar)))"

text \<open>What one branch adds to the sums of the merge.\<close>

definition merge_term ::
  "('x::finite, 'u::finite) numerics \<Rightarrow> real \<Rightarrow> ('x, 'u) iLQRHindsightSolver \<Rightarrow>
   ('x, 'x) Matrix list \<Rightarrow> 'x RowVector list \<Rightarrow> nat \<Rightarrow> ('x, 'u) merge_terms" where
  "merge_term N mu s V1s G1s b = merge_branch N mu s V1s G1s b merge_zero"

text \<open>
  Two scalar branches of horizon 2 at rest, with state costs \<open>x\<^sup>2 / 2\<close> and \<open>x\<^sup>2\<close> and
  probabilities \<open>1/4\<close> and \<open>3/4\<close>; the helpers read the state Hessian off the cost
  function of the branch they are given.
\<close>

definition merge_example :: "(unit, unit) iLQRHindsightSolver" where
  "merge_example = scalar_hindsight
     [scalar_branch 1 1 1 (1 / 4) [mZero, mZero] [mZero, mZero] [mZero, mZero] [mZero, mZero, mZero],
      scalar_branch 2 1 1 (3 / 4) [mZero, mZero] [mZero, mZero] [mZero, mZero] [mZero, mZero, mZero]]"

definition merge_numerics :: "(unit, unit) numerics" where
  "merge_numerics =
     \<lparr>linearize_dynamics = (\<lambda>f x u. (scalar 1, scalar 1)),
      quadratize_cost = (\<lambda>c t x u.
         (scalar (c (scalar 1) mZero t * 2), scalar 1, mZero, 
          scalar (c (scalar 1) mZero t * 2 * x () ()), u)),
      quadratize_final_cost = (\<lambda>c x. (scalar 1, x)),
      minverse = reciprocal,
      is_equal_x = (=), is_equal_u = (=)\<rparr>"

text \<open>
  The single-chain solver on the problem of one branch, holding the four vectors of the
  branch, and the one that a hindsight solver with a single branch stands for.
\<close>

definition single_of :: "('x, 'u) HindsightBranch \<Rightarrow> ('x, 'u) iLQRSolver" where
  "single_of branch =
     \<lparr>m_dynamics = dynamics branch, m_final_cost = final_cost branch, m_cost = cost branch,
      m_Ks = Ks branch, m_ks = ks branch, m_uhat = uhat branch, m_xhat = xhat branch\<rparr>"

definition as_single :: "('x, 'u) iLQRHindsightSolver \<Rightarrow> ('x, 'u) iLQRSolver" where
  "as_single s = single_of (m_branches s ! 0)"

text \<open>The cost of the forward pass of the single-chain solver as a function of the step size.\<close>

definition pass_cost :: "('x::finite, 'u) iLQRSolver \<Rightarrow> 'x Vector \<Rightarrow> real \<Rightarrow> real" where
  "pass_cost s x_init alpha =
     (case forward_pass s x_init alpha of Inl e \<Rightarrow> 0 | Inr (rollout, c) \<Rightarrow> c)"

text \<open>The expected cost that the search of the hindsight solver sees, as a function of the step size.\<close>

definition hs_pass_cost :: "('x::finite, 'u) iLQRHindsightSolver \<Rightarrow> 'x Vector \<Rightarrow> real \<Rightarrow> real" where
  "hs_pass_cost s x_init alpha =
     (case expected_cost s x_init alpha of Inl e \<Rightarrow> 0 | Inr (rollout, c) \<Rightarrow> c)"

section \<open>The LQR tree\<close>

text \<open>
  The matrices that the backup of the tree computes are matrices of doubles, and
  \<^verbatim>\<open>inverse()\<close> of a singular matrix holds \<^verbatim>\<open>inf\<close> or \<^verbatim>\<open>NaN\<close>.  A computed matrix is
  \<open>Some M\<close> when all its entries are finite, which are then taken as reals, and \<open>None\<close>
  when some entry is not finite.  An entry that is not finite is never lost: a sum with a
  term that is not finite is not finite, and so is a product with a factor that is not
  finite, \<^verbatim>\<open>inf * 0\<close> being \<^verbatim>\<open>NaN\<close>; and an entry of a dense product has a term for every
  entry of its row of the left factor and of its column of the right factor.  So \<^verbatim>\<open>*\<close>,
  \<^verbatim>\<open>+\<close>, \<^verbatim>\<open>*=\<close> and \<^verbatim>\<open>transpose()\<close> give \<open>None\<close> as soon as an operand is \<open>None\<close>.
\<close>

type_synonym ('r, 'c) DMatrix = "('r, 'c) Matrix option"

definition dmul :: "('r, 'k::finite) DMatrix \<Rightarrow> ('k, 'c) DMatrix \<Rightarrow> ('r, 'c) DMatrix" where
  "dmul X Y =
     (case X of None \<Rightarrow> None
      | Some X' \<Rightarrow> (case Y of None \<Rightarrow> None | Some Y' \<Rightarrow> Some (mmul X' Y')))"

definition dadd :: "('r, 'c) DMatrix \<Rightarrow> ('r, 'c) DMatrix \<Rightarrow> ('r, 'c) DMatrix" where
  "dadd X Y =
     (case X of None \<Rightarrow> None
      | Some X' \<Rightarrow> (case Y of None \<Rightarrow> None | Some Y' \<Rightarrow> Some (madd X' Y')))"

definition dscale :: "real \<Rightarrow> ('r, 'c) DMatrix \<Rightarrow> ('r, 'c) DMatrix" where
  "dscale c X = (case X of None \<Rightarrow> None | Some X' \<Rightarrow> Some (mscale c X'))"

definition dtranspose :: "('r, 'c) DMatrix \<Rightarrow> ('c, 'r) DMatrix" where
  "dtranspose X = (case X of None \<Rightarrow> None | Some X' \<Rightarrow> Some (mtranspose X'))"

text \<open>
  The members of \<^verbatim>\<open>PlanNode\<close> that the backup reads and writes: \<^verbatim>\<open>dynamics_.A\<close>,
  \<^verbatim>\<open>dynamics_.B\<close>, \<^verbatim>\<open>cost_.Q\<close>, \<^verbatim>\<open>cost_.R\<close>, \<^verbatim>\<open>K_\<close>, \<^verbatim>\<open>V_\<close> and \<^verbatim>\<open>probability_\<close>.  The
  first four and the probability are what the caller gave, finite; \<^verbatim>\<open>K_\<close> and \<^verbatim>\<open>V_\<close> are
  computed.
\<close>

record ('x, 'u) PlanNode =
  dynamics_A :: "('x, 'x) Matrix"
  dynamics_B :: "('x, 'u) Matrix"
  cost_Q :: "('x, 'x) Matrix"
  cost_R :: "('u, 'u) Matrix"
  m_K :: "('u, 'x) DMatrix"
  m_V :: "('x, 'x) DMatrix"
  m_probability :: real

text \<open>
  Modelled from the spec: the container \<^verbatim>\<open>data::Tree<PlanNode>\<close>, which is not among the
  sources, as an arena.  A node is its index in the list and the root is index 0; a node
  holds the index of its parent (none for the root), the indices of its children in the
  order they were added, and its depth.  Every node owns its plan node, and
  \<^verbatim>\<open>leaf_nodes\<close> lists the nodes without children by index.
\<close>

record ('x, 'u) TreeNode =
  item :: "('x, 'u) PlanNode"
  parent :: "nat option"
  children :: "nat list"
  depth :: nat

type_synonym ('x, 'u) Tree = "('x, 'u) TreeNode list"

definition Tree :: "('x, 'u) PlanNode \<Rightarrow> ('x, 'u) Tree" where
  "Tree plan_node = [\<lparr>item = plan_node, parent = None, children = [], depth = 0\<rparr>]"

definition add_child ::
  "('x, 'u) Tree \<Rightarrow> nat \<Rightarrow> ('x, 'u) PlanNode \<Rightarrow> ('x, 'u) Tree \<times> nat" where
  "add_child t p plan_node =
     (t[p := (t ! p)\<lparr>children := children (t ! p) @ [length t]\<rparr>] @
        [\<lparr>item = plan_node, parent = Some p, children = [], depth = depth (t ! p) + 1\<rparr>],
      length t)"

definition leaf_nodes :: "('x, 'u) Tree \<Rightarrow> nat list" where
  "leaf_nodes t = filter (\<lambda>i. children (t ! i) = []) [0..<length t]"

text \<open>
  \<^verbatim>\<open>LQRTree\<close>: the state of the object is its tree; \<^verbatim>\<open>ZERO_VALUE_MATRIX_\<close> is \<open>mZero\<close> and
  the dimensions are those of the matrix types.  \<^verbatim>\<open>add_nodes\<close> throws unless the
  probabilities of the new children sum to 1 within \<open>EPS\<close>.
\<close>

definition EPS :: real where
  "EPS = 1 / 100000"

definition add_root :: "('x, 'u) PlanNode \<Rightarrow> ('x, 'u) Tree" where
  "add_root plan_node = Tree plan_node"

definition add_nodes ::
  "('x, 'u) Tree \<Rightarrow> ('x, 'u) PlanNode list \<Rightarrow> nat \<Rightarrow> error + ('x, 'u) Tree \<times> nat list" where
  "add_nodes t plan_nodes p =
     (let probability_sum = foldl (\<lambda>a node. a + m_probability node) 0 plan_nodes
      in case IS_ALMOST_EQUAL probability_sum 1 EPS of
           Inl e \<Rightarrow> Inl e
         | Inr _ \<Rightarrow>
             Inr (fold (\<lambda>plan_node (t, cs).
                          case add_child t p plan_node of (t', c) \<Rightarrow> (t', cs @ [c]))
                    plan_nodes (t, [])))"

text \<open>
  \<^verbatim>\<open>compute_control_policy\<close> and \<^verbatim>\<open>compute_value_matrix\<close>.  The first argument stands for
  Eigen's \<^verbatim>\<open>inverse()\<close>, whose result is finite or not, as the routine finds.
  \<^verbatim>\<open>check_sizes\<close> compares the shapes of the matrices of the node
  with the dimensions of the tree; the matrix types settle them here.
\<close>

definition compute_control_policy ::
  "(('u, 'u) DMatrix \<Rightarrow> ('u, 'u) DMatrix) \<Rightarrow> ('x::finite, 'u::finite) PlanNode \<Rightarrow>
   ('x, 'x) DMatrix \<Rightarrow> ('x, 'u) PlanNode" where
  "compute_control_policy invf node Vt1 =
     (let A = Some (dynamics_A node);
          B = Some (dynamics_B node);
          R = Some (cost_R node);
          inv_cntrl_term = invf (dadd R (dmul (dmul (dtranspose B) Vt1) B));
          node1 = node\<lparr>m_K := dmul inv_cntrl_term (dmul (dmul (dtranspose B) Vt1) A)\<rparr>
      in node1\<lparr>m_K := dscale (- 1) (m_K node1)\<rparr>)"

definition compute_value_matrix ::
  "('x::finite, 'u::finite) PlanNode \<Rightarrow> ('x, 'x) DMatrix \<Rightarrow> ('x, 'x) DMatrix" where
  "compute_value_matrix node Vt1 =
     (let A = Some (dynamics_A node);
          B = Some (dynamics_B node);
          Q = Some (cost_Q node);
          R = Some (cost_R node);
          K = m_K node;
          tmp = dadd A (dmul B K)
      in dadd (dadd Q (dmul (dmul (dtranspose K) R) K)) (dmul (dmul (dtranspose tmp) Vt1) tmp))"

text \<open>The two statements that a node gets from both loops: its policy, then its value.\<close>

definition backup_node ::
  "(('u, 'u) DMatrix \<Rightarrow> ('u, 'u) DMatrix) \<Rightarrow> ('x::finite, 'u::finite) PlanNode \<Rightarrow>
   ('x, 'x) DMatrix \<Rightarrow> ('x, 'u) PlanNode" where
  "backup_node invf node Vt1 =
     (let node1 = compute_control_policy invf node Vt1
      in node1\<lparr>m_V := compute_value_matrix node1 Vt1\<rparr>)"

definition control_and_value_for_leaves ::
  "(('u, 'u) DMatrix \<Rightarrow> ('u, 'u) DMatrix) \<Rightarrow> ('x::finite, 'u::finite) Tree \<Rightarrow>
   error + ('x, 'u) Tree" where
  "control_and_value_for_leaves invf t =
     (let leaves = leaf_nodes t;
          FIRST_DEPTH = (if length leaves > 0 then int (depth (t ! hd leaves)) else - 1)
      in for_loop leaves
           (\<lambda>leaf t. case IS_EQUAL (int (depth (t ! leaf))) FIRST_DEPTH of
                        Inl e \<Rightarrow> Inl e
                      | Inr _ \<Rightarrow>
                          Inr (t[leaf := (t ! leaf)\<lparr>item := backup_node invf (item (t ! leaf)) (Some mZero)\<rparr>]))
           t)"

text \<open>
  \<^verbatim>\<open>backup_to_parents\<close>.  The first loop files every child under its parent:
  \<^verbatim>\<open>parent_map[key]\<close> makes an empty list for a key that is new.  The second loop visits the
  keys of the hash map in an order that C++ leaves open, here \<open>hash_order\<close> applied to the keys
  in the order of their first insertion.  A key that is no node (the parent of the root)
  would be dereferenced all the same.
\<close>

definition file_child ::
  "('x, 'u) Tree \<Rightarrow> int \<Rightarrow> nat \<Rightarrow> (nat option \<Rightarrow> nat list option) \<Rightarrow>
   error + (nat option \<Rightarrow> nat list option)" where
  "file_child t FIRST_DEPTH child parent_map =
     (case IS_EQUAL (int (depth (t ! child))) FIRST_DEPTH of
        Inl e \<Rightarrow> Inl e
      | Inr _ \<Rightarrow>
          let key = parent (t ! child);
              bucket = (case parent_map key of None \<Rightarrow> [] | Some cs \<Rightarrow> cs)
          in Inr (parent_map(key \<mapsto> bucket @ [child])))"

definition backup_parent ::
  "(('u, 'u) DMatrix \<Rightarrow> ('u, 'u) DMatrix) \<Rightarrow> (nat option \<Rightarrow> nat list option) \<Rightarrow> nat option \<Rightarrow>
   ('x::finite, 'u::finite) Tree \<times> nat list \<Rightarrow> error + ('x, 'u) Tree \<times> nat list" where
  "backup_parent invf parent_map key acc =
     (case acc of (t, parents) \<Rightarrow>
        let cs = (case parent_map key of None \<Rightarrow> [] | Some cs \<Rightarrow> cs);
            Vtilde = fold (\<lambda>child V. dadd V (dscale (m_probability (item (t ! child)))
                                                   (m_V (item (t ! child))))) cs (Some mZero)
        in case key of
             None \<Rightarrow> Inl Undefined_behaviour
           | Some p \<Rightarrow>
               Inr (t[p := (t ! p)\<lparr>item := backup_node invf (item (t ! p)) Vtilde\<rparr>],
                    parents @ [p]))"

definition backup_to_parents ::
  "(('u, 'u) DMatrix \<Rightarrow> ('u, 'u) DMatrix) \<Rightarrow> (nat option list \<Rightarrow> nat option list) \<Rightarrow>
   ('x::finite, 'u::finite) Tree \<Rightarrow> nat list \<Rightarrow> error + ('x, 'u) Tree \<times> nat list" where
  "backup_to_parents invf hash_order t all_children =
     (let FIRST_DEPTH = (if length all_children > 0 then int (depth (t ! hd all_children)) else - 1)
      in case for_loop all_children (file_child t FIRST_DEPTH) Map.empty of
           Inl e \<Rightarrow> Inl e
         | Inr parent_map \<Rightarrow>
             for_loop (hash_order (remdups (map (\<lambda>child. parent (t ! child)) all_children)))
               (backup_parent invf parent_map) (t, []))"

text \<open>
  The loop of \<^verbatim>\<open>bellman_tree_backup\<close>, which has no bound of its own, and the function.
\<close>

partial_function (option) climb ::
  "(('u, 'u) DMatrix \<Rightarrow> ('u, 'u) DMatrix) \<Rightarrow> (nat option list \<Rightarrow> nat option list) \<Rightarrow>
   ('x::finite, 'u::finite) Tree \<Rightarrow> nat list \<Rightarrow> (error + ('x, 'u) Tree) option" where
  "climb invf hash_order t all_children =
     (if length all_children = 1 \<and> depth (t ! hd all_children) = 0 then Some (Inr t)
      else case backup_to_parents invf hash_order t all_children of
             Inl e \<Rightarrow> Some (Inl e)
           | Inr (t', parents) \<Rightarrow> climb invf hash_order t' parents)"

definition bellman_tree_backup ::
  "(('u, 'u) DMatrix \<Rightarrow> ('u, 'u) DMatrix) \<Rightarrow> (nat option list \<Rightarrow> nat option list) \<Rightarrow>
   ('x::finite, 'u::finite) Tree \<Rightarrow> (error + ('x, 'u) Tree) option" where
  "bellman_tree_backup invf hash_order t =
     (case control_and_value_for_leaves invf t of
        Inl e \<Rightarrow> Some (Inl e)
      | Inr t1 \<Rightarrow> climb invf hash_order t1 (leaf_nodes t1))"

section \<open>Auxiliary notions for the tree\<close>

text \<open>
  The shape of a tree that \<^verbatim>\<open>add_root\<close> and \<^verbatim>\<open>add_nodes\<close> build: the root is node 0 at
  depth 0, every other node has an earlier node as its parent, is one level deeper and is
  listed once among the children of that parent, and the children of a node name it as
  their parent.
\<close>

definition wf_tree :: "('x, 'u) Tree \<Rightarrow> bool" where
  "wf_tree t \<longleftrightarrow>
     t \<noteq> [] \<and> parent (t ! 0) = None \<and> depth (t ! 0) = 0 \<and>
     (\<forall>i<length t. 0 < i \<longrightarrow>
        (case parent (t ! i) of
           None \<Rightarrow> False
         | Some p \<Rightarrow> p < i \<and> depth (t ! i) = depth (t ! p) + 1 \<and> i \<in> set (children (t ! p)))) \<and>
     (\<forall>p<length t. distinct (children (t ! p)) \<and>
        (\<forall>c\<in>set (children (t ! p)). c < length t \<and> parent (t ! c) = Some p))"

text \<open>The leaves are all at the same depth.\<close>

definition leaves_level :: "('x, 'u) Tree \<Rightarrow> bool" where
  "leaves_level t \<longleftrightarrow>
     (\<forall>i\<in>set (leaf_nodes t). \<forall>j\<in>set (leaf_nodes t). depth (t ! i) = depth (t ! j))"

text \<open>
  \<open>same_problem t t'\<close>: the two trees have the same nodes with the same parents, children,
  depths, dynamics, costs and probabilities; they may differ in \<^verbatim>\<open>K_\<close> and \<^verbatim>\<open>V_\<close> only.
\<close>

definition same_data :: "('x, 'u) PlanNode \<Rightarrow> ('x, 'u) PlanNode \<Rightarrow> bool" where
  "same_data n n' \<longleftrightarrow>
     dynamics_A n' = dynamics_A n \<and> dynamics_B n' = dynamics_B n \<and> cost_Q n' = cost_Q n \<and>
     cost_R n' = cost_R n \<and> m_probability n' = m_probability n"

definition same_problem :: "('x, 'u) Tree \<Rightarrow> ('x, 'u) Tree \<Rightarrow> bool" where
  "same_problem t t' \<longleftrightarrow>
     length t' = length t \<and>
     (\<forall>i<length t. parent (t' ! i) = parent (t ! i) \<and> children (t' ! i) = children (t ! i) \<and>
        depth (t' ! i) = depth (t ! i) \<and> same_data (item (t ! i)) (item (t' ! i)))"

text \<open>
  What the specification says a node holds after the backup, with the condition under which
  it is so.  A leaf whose \<open>R\<close> has a finite inverse has \<open>K = 0\<close> and \<open>V = Q\<close>.  An internal
  node has the gain and the value matrix computed from \<open>Vtilde\<close>, the probability-weighted
  sum of the value matrices of its children, when these are finite and \<open>R + B\<^sup>T Vtilde B\<close>
  has a finite inverse.  In every other case \<open>K\<close> and \<open>V\<close> are not finite.
\<close>

definition aggregate :: "('x, 'u) Tree \<Rightarrow> nat \<Rightarrow> ('x, 'x) DMatrix" where
  "aggregate t i =
     (if list_all (\<lambda>child. m_V (item (t ! child)) \<noteq> None) (children (t ! i))
      then Some (msum (map (\<lambda>child. mscale (m_probability (item (t ! child)))
                                       (the (m_V (item (t ! child)))))
                        (children (t ! i))))
      else None)"

definition leaf_result ::
  "(('u, 'u) DMatrix \<Rightarrow> ('u, 'u) DMatrix) \<Rightarrow> ('x, 'u) PlanNode \<Rightarrow> bool" where
  "leaf_result invf node \<longleftrightarrow>
     (case invf (Some (cost_R node)) of
        None \<Rightarrow> m_K node = None \<and> m_V node = None
      | Some I \<Rightarrow> m_K node = Some mZero \<and> m_V node = Some (cost_Q node))"

definition internal_result ::
  "(('u, 'u) DMatrix \<Rightarrow> ('u, 'u) DMatrix) \<Rightarrow> ('x::finite, 'u::finite) PlanNode \<Rightarrow>
   ('x, 'x) DMatrix \<Rightarrow> bool" where
  "internal_result invf node Vtilde \<longleftrightarrow>
     (let A = dynamics_A node; B = dynamics_B node; Q = cost_Q node; R = cost_R node
      in case Vtilde of
           None \<Rightarrow> m_K node = None \<and> m_V node = None
         | Some W \<Rightarrow>
             (case invf (Some (madd R (mmul (mmul (mtranspose B) W) B))) of
                None \<Rightarrow> m_K node = None \<and> m_V node = None
              | Some I \<Rightarrow>
                  let K = mneg (mmul I (mmul (mmul (mtranspose B) W) A))
                  in m_K node = Some K \<and>
                     m_V node = Some (madd (madd Q (mmul (mmul (mtranspose K) R) K))
                                  (mmul (mmul (mtranspose (madd A (mmul B K))) W)
                                     (madd A (mmul B K))))))"

definition solved ::
  "(('u, 'u) DMatrix \<Rightarrow> ('u, 'u) DMatrix) \<Rightarrow> ('x::finite, 'u::finite) Tree \<Rightarrow> nat \<Rightarrow> bool" where
  "solved invf t i \<longleftrightarrow>
     (if children (t ! i) = [] then leaf_result invf (item (t ! i))
      else internal_result invf (item (t ! i)) (aggregate t i))"

text \<open>
  The hash map after the first loop of \<^verbatim>\<open>backup_to_parents\<close>: a key holds the children
  filed under it, in their order.
\<close>

definition buckets :: "('x, 'u) Tree \<Rightarrow> nat list \<Rightarrow> nat option \<Rightarrow> nat list option" where
  "buckets t cs key =
     (let bucket = filter (\<lambda>child. parent (t ! child) = key) cs
      in if bucket = [] then None else Some bucket)"

text \<open>
  The state of the climb when the nodes of depth \<open>j\<close> are the current children: they are
  all there, once each, and every node at depth \<open>j\<close> or below has its result.
\<close>

definition climbed ::
  "(('u, 'u) DMatrix \<Rightarrow> ('u, 'u) DMatrix) \<Rightarrow> ('x::finite, 'u::finite) Tree \<Rightarrow> nat \<Rightarrow>
   ('x, 'u) Tree \<Rightarrow> nat list \<Rightarrow> bool" where
  "climbed invf t j t' cs \<longleftrightarrow>
     same_problem t t' \<and> distinct cs \<and> set cs = {i. i < length t \<and> depth (t ! i) = j} \<and>
     (\<forall>i<length t. j \<le> depth (t ! i) \<longrightarrow> solved invf t' i)"

text \<open>
  The inverse of a 1 \<times> 1 matrix of doubles is the reciprocal of its entry, which is \<^verbatim>\<open>inf\<close>
  for the entry 0 and not finite for an entry that is not finite.
\<close>

definition scalar_inverse :: "(unit, unit) DMatrix \<Rightarrow> (unit, unit) DMatrix" where
  "scalar_inverse X =
     (case X of
        None \<Rightarrow> None
      | Some X' \<Rightarrow> if X' () () = 0 then None else Some (scalar (1 / X' () ())))"

text \<open>
  The tree of the scenario with one root and two leaves of probabilities 0.4 and 0.6, all
  three with \<open>A = B = Q = 1\<close> in one dimension; \<open>two_leaves r\<close> has \<open>R = 1\<close> at the root
  and at the second leaf and \<open>R = r\<close> at the first leaf.
\<close>

definition scalar_plan_node :: "real \<Rightarrow> real \<Rightarrow> (unit, unit) PlanNode" where
  "scalar_plan_node r p =
     \<lparr>dynamics_A = scalar 1, dynamics_B = scalar 1, cost_Q = scalar 1, cost_R = scalar r,
      m_K = Some mZero, m_V = Some mZero, m_probability = p\<rparr>"

definition two_leaves :: "real \<Rightarrow> (unit, unit) Tree" where
  "two_leaves r =
     [\<lparr>item = scalar_plan_node 1 1, parent = None, children = [1, 2], depth = 0\<rparr>,
      \<lparr>item = scalar_plan_node r (2 / 5), parent = Some 0, children = [], depth = 1\<rparr>,
      \<lparr>item = scalar_plan_node 1 (3 / 5), parent = Some 0, children = [], depth = 1\<rparr>]"

section \<open>Matrix algebra\<close>

lemma mscale_minus_one: "mscale (- 1) X = mneg X"
  by (simp add: mscale_def mneg_def)

lemma mmul_mscale_left: "mmul (mscale c X) Y = mscale c (mmul X Y)"
  by (simp add: mmul_def mscale_def sum_distrib_left mult.assoc)

lemma mmul_mneg_left: "mmul (mneg X) Y = mneg (mmul X Y)"
  by (simp add: mmul_def mneg_def sum_negf)

lemma symmetric_iff: "symmetric X \<longleftrightarrow> (\<forall>i j. X i j = X j i)"
  by (auto simp: symmetric_def mtranspose_def fun_eq_iff)

lemma symmetric_congruence: "symmetric R \<Longrightarrow> symmetric (mmul (mmul (mtranspose K) R) K)"
  unfolding symmetric_iff mmul_def mtranspose_def
  apply (simp add: sum_distrib_right)
  apply (intro allI)
  apply (subst sum.swap)
  apply (rule sum.cong [OF refl])
  apply (rule sum.cong [OF refl])
  apply (simp add: mult_ac)
  done

lemma value_symmetric_iff:
  assumes "symmetric Q" "symmetric R" "symmetric Vt1"
  shows "symmetric (madd (madd (madd Q (mscale 2 (mmul P Kt))) (mmul (mmul (mtranspose Kt) R) Kt))
                 (mmul (mmul (mtranspose M) Vt1) M)) \<longleftrightarrow> symmetric (mmul P Kt)"
proof -
  have a: "symmetric (mmul (mmul (mtranspose Kt) R) Kt)"
    using assms(2) by (rule symmetric_congruence)
  have b: "symmetric (mmul (mmul (mtranspose M) Vt1) M)"
    using assms(3) by (rule symmetric_congruence)
  show ?thesis
    using a b assms(1) unfolding symmetric_iff madd_def mscale_def
    by (auto; metis (no_types) add.commute)
qed

text \<open>The two indices of the type \<open>2\<close>.\<close>

lemma UNIV_2: "(UNIV :: 2 set) = {0, 1}"
proof -
  have "card {0, 1 :: 2} = card (UNIV :: 2 set)" by simp
  then show ?thesis
    using card_subset_eq [of "UNIV :: 2 set" "{0, 1}"] by simp
qed

lemma sum_2: "(\<Sum>k\<in>(UNIV :: 2 set). f k) = f 0 + f 1"
  by (simp add: UNIV_2)

lemmas matrix_defs =
  mmul_def madd_def msub_def mscale_def mneg_def mtranspose_def mIdentity_def mZero_def

lemmas cross_defs =
  cross_numerics_def lq_numerics_def lq_dynamics_def reciprocal_def cross_solver_def
  cross_hindsight_def cross_B_def cross_Q_def cross_P_def cross_R_def

section \<open>The backup step\<close>

text \<open>
  Claim C1.  At every time step and for every \<open>mu\<close> (non-negative or not), the backup of either
  solver computes the gains from the inflated matrix \<open>Vtilde = Vt1 + mu I\<close>:
  \<open>Kt = - H\<^sup>-\<^sup>1 (P\<^sup>T + B\<^sup>T Vtilde A)\<close> and \<open>kt = - H\<^sup>-\<^sup>1 (g_u + B\<^sup>T Gt1\<^sup>T)\<close> with
  \<open>H = R + B\<^sup>T Vtilde B\<close>, whereas the value model it hands on,
  \<open>Vt = Q + 2 (P Kt) + Kt\<^sup>T R Kt + M\<^sup>T Vt1 M\<close> with \<open>M = A + B Kt\<close>, and \<open>Gt\<close> are formed from
  \<open>Vt1\<close> itself.  The hindsight backup stores the two gains in slot \<open>t\<close> of its branch.
\<close>

theorem bellman_backup_formulas:
  "bellman_backup N s t mu Vt1 Gt1 =
     (case linearize_dynamics N (m_dynamics s) (m_xhat s ! t) (m_uhat s ! t) of (A, B) \<Rightarrow>
      case quadratize_cost N (m_cost s) t (m_xhat s ! t) (m_uhat s ! t) of
        (Q, R, P, g_x, g_u) \<Rightarrow>
      let Vtilde = madd Vt1 (mscale mu mIdentity);
          H = madd R (mmul (mmul (mtranspose B) Vtilde) B);
          Kt = mneg (mmul (minverse N H)
                 (madd (mtranspose P) (mmul (mmul (mtranspose B) Vtilde) A)));
          kt = mneg (mmul (minverse N H) (madd g_u (mmul (mtranspose B) (mtranspose Gt1))));
          M = madd A (mmul B Kt);
          Vt = madd (madd (madd Q (mscale 2 (mmul P Kt))) (mmul (mmul (mtranspose Kt) R) Kt))
                 (mmul (mmul (mtranspose M) Vt1) M);
          Gt = madd (madd (madd (madd (madd
                 (mmul (mtranspose kt) (mtranspose P))
                 (mmul (mmul (mtranspose kt) R) Kt))
                 (mtranspose g_x))
                 (mmul (mtranspose g_u) Kt))
                 (mmul (mmul (mmul (mtranspose kt) (mtranspose B)) Vt1) M))
                 (mmul Gt1 M)
      in (Vt, Gt, Kt, kt))
   \<and>
   hs_bellman_backup N hs branch_num t mu Vt1 Gt1 =
     (let branch = m_branches hs ! branch_num
      in case linearize_dynamics N (dynamics branch) (xhat branch ! t) (uhat branch ! t) of
           (A, B) \<Rightarrow>
         case quadratize_cost N (cost branch) t (xhat branch ! t) (uhat branch ! t) of
           (Q, R, P, g_x, g_u) \<Rightarrow>
      let Vtilde = madd Vt1 (mscale mu mIdentity);
          H = madd R (mmul (mmul (mtranspose B) Vtilde) B);
          Kt = mneg (mmul (minverse N H)
                 (madd (mtranspose P) (mmul (mmul (mtranspose B) Vtilde) A)));
          kt = mneg (mmul (minverse N H) (madd g_u (mmul (mtranspose B) (mtranspose Gt1))));
          M = madd A (mmul B Kt);
          Vt = madd (madd (madd Q (mscale 2 (mmul P Kt))) (mmul (mmul (mtranspose Kt) R) Kt))
                 (mmul (mmul (mtranspose M) Vt1) M);
          Gt = madd (madd (madd (madd (madd
                 (mmul (mtranspose kt) (mtranspose P))
                 (mmul (mmul (mtranspose kt) R) Kt))
                 (mtranspose g_x))
                 (mmul (mtranspose g_u) Kt))
                 (mmul (mmul (mmul (mtranspose kt) (mtranspose B)) Vt1) M))
                 (mmul Gt1 M)
      in (Vt, Gt,
          update_branch hs branch_num (\<lambda>br. br\<lparr>Ks := (Ks br)[t := Kt], ks := (ks br)[t := kt]\<rparr>)))"
  by (simp add: bellman_backup_def hs_bellman_backup_def update_branch_def Let_def
      mscale_minus_one mmul_mneg_left split: prod.splits)

text \<open>
  Claim C4, the counterexample.  On the coupled problem, with the symmetric \<open>Vt1 = I\<close> and
  \<open>mu = 0\<close>, the backup at \<open>t = 1\<close> returns \<open>Vt\<close> with \<open>Vt 0 1 = - 1\<close> and \<open>Vt 1 0 = 0\<close>.
\<close>

lemma cross_Vt_entries:
  "fst (bellman_backup cross_numerics cross_solver 1 0 mIdentity mZero) 0 1 = - 1"
  "fst (bellman_backup cross_numerics cross_solver 1 0 mIdentity mZero) 1 0 = 0"
  by (simp_all add: bellman_backup_def cross_defs matrix_defs Let_def sum_2)

theorem backup_value_not_symmetric:
  "\<not> symmetric (fst (bellman_backup cross_numerics cross_solver 1 0 mIdentity mZero))"
proof
  assume "symmetric (fst (bellman_backup cross_numerics cross_solver 1 0 mIdentity mZero))"
  then have "fst (bellman_backup cross_numerics cross_solver 1 0 mIdentity mZero) 1 0
    = fst (bellman_backup cross_numerics cross_solver 1 0 mIdentity mZero) 0 1"
    unfolding symmetric_iff by blast
  then show False unfolding cross_Vt_entries by simp
qed

text \<open>
  Claim C4, as amended.  Neither backup symmetrises its result.  When the cost Hessians
  \<open>Q\<close> and \<open>R\<close> and the incoming \<open>Vt1\<close> are symmetric, the \<open>Vt\<close> it returns is symmetric
  exactly when the product \<open>P Kt\<close> of the cross term with the new gain is.
\<close>

theorem backup_value_symmetric_iff:
  assumes "quadratize_cost N (m_cost s) t (m_xhat s ! t) (m_uhat s ! t) = (Q, R, P, g_x, g_u)"
    and "symmetric Q" and "symmetric R"
    and "quadratize_cost N (cost (m_branches hs ! b)) t
           (xhat (m_branches hs ! b) ! t) (uhat (m_branches hs ! b) ! t) = (Q', R', P', g_x', g_u')"
    and "symmetric Q'" and "symmetric R'"
    and "symmetric Vt1"
    and "bellman_backup N s t mu Vt1 Gt1 = (Vt, Gt, Kt, kt)"
    and "hs_bellman_backup N hs b t mu Vt1 Gt1 = (Vt', Gt', hs')"
    and "b < length (m_branches hs)" and "t < length (Ks (m_branches hs ! b))"
  shows "(symmetric Vt \<longleftrightarrow> symmetric (mmul P Kt)) \<and>
         (symmetric Vt' \<longleftrightarrow> symmetric (mmul P' (Ks (m_branches hs' ! b) ! t)))"
proof
  show "symmetric Vt \<longleftrightarrow> symmetric (mmul P Kt)"
    using assms(1,8) value_symmetric_iff [OF assms(2,3,7)]
    by (auto simp: bellman_backup_def Let_def split: prod.splits)
  show "symmetric Vt' \<longleftrightarrow> symmetric (mmul P' (Ks (m_branches hs' ! b) ! t))"
    using assms(4,9,10,11) value_symmetric_iff [OF assms(5,6,7)]
    by (auto simp: hs_bellman_backup_def Let_def split: prod.splits)
qed

theorem backup_value_symmetric_iff_witness:
  "(symmetric (fst (bellman_backup cross_numerics cross_solver 1 0 mIdentity mZero)) \<longleftrightarrow>
    symmetric (mmul cross_P
      (fst (snd (snd (bellman_backup cross_numerics cross_solver 1 0 mIdentity mZero)))))) \<and>
   (symmetric (fst (hs_bellman_backup cross_numerics cross_hindsight 0 1 0 mIdentity mZero)) \<longleftrightarrow>
    symmetric (mmul cross_P
      (Ks (m_branches (snd (snd (hs_bellman_backup cross_numerics cross_hindsight 0 1 0
             mIdentity mZero))) ! 0) ! 1)))"
proof -
  obtain Vt Gt Kt kt where
    r: "bellman_backup cross_numerics cross_solver 1 0 mIdentity mZero = (Vt, Gt, Kt, kt)"
    by (metis prod_cases4)
  obtain Vt' Gt' hs' where
    r': "hs_bellman_backup cross_numerics cross_hindsight 0 1 0 mIdentity mZero = (Vt', Gt', hs')"
    by (metis prod_cases3)
  obtain g_x g_u where
    q: "quadratize_cost cross_numerics (m_cost cross_solver) 1 (m_xhat cross_solver ! 1)
          (m_uhat cross_solver ! 1) = (cross_Q, cross_R, cross_P, g_x, g_u)"
    by (simp add: cross_numerics_def lq_numerics_def)
  obtain g_x' g_u' where
    q': "quadratize_cost cross_numerics (cost (m_branches cross_hindsight ! 0)) 1
           (xhat (m_branches cross_hindsight ! 0) ! 1) (uhat (m_branches cross_hindsight ! 0) ! 1)
         = (cross_Q, cross_R, cross_P, g_x', g_u')"
    by (simp add: cross_numerics_def lq_numerics_def)
  have sQ: "symmetric cross_Q" by (simp add: symmetric_iff cross_Q_def)
  have sR: "symmetric cross_R" by (simp add: symmetric_iff cross_R_def)
  have sI: "symmetric (mIdentity :: (2, 2) Matrix)" by (auto simp: symmetric_iff mIdentity_def)
  have b: "0 < length (m_branches cross_hindsight)" by (simp add: cross_hindsight_def)
  have t: "1 < length (Ks (m_branches cross_hindsight ! 0))" by (simp add: cross_hindsight_def)
  from backup_value_symmetric_iff [OF q sQ sR q' sQ sR sI r r' b t]
  show ?thesis unfolding r r' by simp
qed

lemmas check_defs = IS_GREATER_def IS_GREATER_EQUAL_def IS_EQUAL_def IS_ALMOST_EQUAL_def IS_TRUE_def
  IS_BETWEEN_INCLUSIVE_def IS_BETWEEN_LOWER_INCLUSIVE_def

section \<open>The line search\<close>

lemma cost_diff_ratio_of_PInf [simp]: "cost_diff_ratio_of PInf (Fin c) = PInf"
  by (simp add: cost_diff_ratio_of_def)

lemma line_search_stops:
  "stops fp old ccr alpha \<Longrightarrow> line_search fp old ccr alpha = Some (outcome fp old alpha)"
  by (subst line_search.simps) (auto simp: stops_def outcome_def Let_def split: sum.splits prod.splits)

lemma line_search_continues:
  "\<not> stops fp old ccr alpha \<Longrightarrow> line_search fp old ccr alpha = line_search fp old ccr (alpha * beta)"
  by (subst line_search.simps) (auto simp: stops_def Let_def split: sum.splits prod.splits)

lemma probe_Inr: "fp alpha = Inr (r, c) \<Longrightarrow> probe fp alpha = Inr (r, Fin c)"
  by (simp add: probe_def)

lemma line_search_first:
  "fp alpha = Inr (r, Fin c) \<Longrightarrow>
   line_search fp PInf ccr alpha = Some (Inr (r, Fin c, PInf, alpha * beta))"
  using line_search_stops [of fp PInf ccr alpha] by (simp add: stops_def outcome_def accepted_def)

lemma line_search_returns:
  "stops fp old ccr (alpha * beta ^ n) \<Longrightarrow> (\<And>m. m < n \<Longrightarrow> \<not> stops fp old ccr (alpha * beta ^ m)) \<Longrightarrow>
   line_search fp old ccr alpha = Some (outcome fp old (alpha * beta ^ n))"
proof (induction n arbitrary: alpha)
  case 0
  then show ?case using line_search_stops by simp
next
  case (Suc n)
  have "\<not> stops fp old ccr (alpha * beta ^ 0)" using Suc.prems(2) by blast
  then have c: "line_search fp old ccr alpha = line_search fp old ccr (alpha * beta)"
    using line_search_continues by simp
  have "stops fp old ccr (alpha * beta * beta ^ n)" using Suc.prems(1) by (simp add: mult.assoc)
  moreover have "\<not> stops fp old ccr (alpha * beta * beta ^ m)" if "m < n" for m
    using Suc.prems(2) [of "Suc m"] that by (simp add: mult.assoc)
  ultimately have "line_search fp old ccr (alpha * beta) = Some (outcome fp old (alpha * beta * beta ^ n))"
    by (rule Suc.IH)
  then show ?case using c by (simp add: mult.assoc)
qed

lemma line_search_result:
  assumes "line_search fp old ccr alpha = Some r"
  shows "\<exists>n. stops fp old ccr (alpha * beta ^ n)"
proof (rule line_search.raw_induct
    [where P = "\<lambda>fp old ccr alpha r. \<exists>n. stops fp old ccr (alpha * beta ^ n)", OF _ assms])
  fix ls :: "(real \<Rightarrow> error + 'a \<times> dbl) \<Rightarrow> dbl \<Rightarrow> real \<Rightarrow> real
      \<Rightarrow> (error + 'a \<times> dbl \<times> dbl \<times> real) option"
  fix fp old ccr alpha r
  assume IH: "\<And>fp old ccr alpha r. ls fp old ccr alpha = Some r \<Longrightarrow>
                \<exists>n. stops fp old ccr (alpha * beta ^ n)"
  assume step: "(case fp alpha of
        Inl e \<Rightarrow> Some (Inl e)
      | Inr (rollout, new_cost) \<Rightarrow>
          let cost_diff_ratio = cost_diff_ratio_of old new_cost;
              alpha' = alpha * beta
          in if accepted new_cost old cost_diff_ratio ccr
             then Some (Inr (rollout, new_cost, cost_diff_ratio, alpha'))
             else ls fp old ccr alpha') = Some r"
  show "\<exists>n. stops fp old ccr (alpha * beta ^ n)"
  proof (cases "stops fp old ccr alpha")
    case True
    then have "stops fp old ccr (alpha * beta ^ 0)" by simp
    then show ?thesis by blast
  next
    case False
    then have "ls fp old ccr (alpha * beta) = Some r"
      using step by (auto simp: stops_def Let_def split: sum.splits prod.splits)
    from IH [OF this] obtain n where "stops fp old ccr (alpha * beta * beta ^ n)" by blast
    then have "stops fp old ccr (alpha * beta ^ Suc n)" by (simp add: mult.assoc)
    then show ?thesis by blast
  qed
qed

lemma line_search_char:
  "line_search fp old ccr alpha =
     (if \<exists>n. stops fp old ccr (alpha * beta ^ n)
      then Some (outcome fp old (alpha * beta ^ (LEAST n. stops fp old ccr (alpha * beta ^ n))))
      else None)"
proof (cases "\<exists>n. stops fp old ccr (alpha * beta ^ n)")
  case True
  then obtain n where n: "stops fp old ccr (alpha * beta ^ n)" by blast
  let ?k = "LEAST n. stops fp old ccr (alpha * beta ^ n)"
  have "stops fp old ccr (alpha * beta ^ ?k)" using n by (rule LeastI)
  moreover have "\<not> stops fp old ccr (alpha * beta ^ m)" if "m < ?k" for m
    using that not_less_Least by blast
  ultimately have "line_search fp old ccr alpha = Some (outcome fp old (alpha * beta ^ ?k))"
    by (rule line_search_returns)
  then show ?thesis using True by simp
next
  case False
  then have "line_search fp old ccr alpha = None"
    using line_search_result [of fp old ccr alpha] by (cases "line_search fp old ccr alpha") auto
  then show ?thesis using False by simp
qed

lemma line_search_payload:
  assumes "line_search fp old ccr alpha = Some r" and "\<And>a. \<exists>p c. fp a = Inr (p, c) \<and> Q p"
  shows "\<exists>p nc ratio a'. r = Inr (p, nc, ratio, a') \<and> Q p"
proof -
  from assms(1) obtain a where "r = outcome fp old a"
    unfolding line_search_char by (auto split: if_splits)
  moreover from assms(2) obtain p c where "fp a = Inr (p, c)" "Q p" by blast
  ultimately show ?thesis by (auto simp: outcome_def)
qed

lemma line_search_never:
  assumes "\<And>a. \<not> stops fp old ccr a"
  shows "line_search fp old ccr alpha = None"
  unfolding line_search_char using assms by simp

lemma checks_Inr_iff: "checks cs = Inr u \<longleftrightarrow> (\<forall>c\<in>set cs. c = Inr ())"
  by (induction cs) (auto split: sum.splits)

lemma timesteps_sized: "sized T s \<Longrightarrow> timesteps s = Inr T"
  by (simp add: sized_def timesteps_def check_defs)

lemma fold_forward_step_shape:
  "fold (forward_step s a) ts (xs0, us0, c0) = (xs, us, c) \<Longrightarrow>
   length xs = length xs0 + length ts \<and> length us = length us0 + length ts \<and>
   take (length xs0) xs = xs0 \<and> take (length us0) us = us0"
proof (induction ts arbitrary: xs0 us0 c0)
  case Nil
  then show ?case by simp
next
  case (Cons t ts)
  obtain x' u' c' where
    step: "forward_step s a t (xs0, us0, c0) = (xs0 @ [x'], us0 @ [u'], c')"
    by (simp add: forward_step_def Let_def)
  have rest: "fold (forward_step s a) ts (xs0 @ [x'], us0 @ [u'], c') = (xs, us, c)"
    using Cons.prems by (simp add: step)
  from Cons.IH [OF rest] have
    l: "length xs = length xs0 + length (t # ts)" "length us = length us0 + length (t # ts)"
    and tk: "take (Suc (length xs0)) xs = xs0 @ [x']" "take (Suc (length us0)) us = us0 @ [u']"
    by simp_all
  have "take (length xs0) (take (Suc (length xs0)) xs) = xs0" unfolding tk by simp
  moreover have "take (length us0) (take (Suc (length us0)) us) = us0" unfolding tk by simp
  ultimately show ?case using l by (simp add: min_def)
qed

lemma forward_pass_sized:
  assumes "sized T s"
  shows "\<exists>xs us c. forward_pass s x a = Inr ((xs, us), c) \<and> length xs = T + 1 \<and> length us = T
           \<and> xs ! 0 = x"
proof -
  obtain xs us c where f: "fold (forward_step s a) [0..<T] ([x], [], 0) = (xs, us, c)"
    by (metis prod_cases3)
  from fold_forward_step_shape [OF f] have
    "length xs = T + 1" "length us = T" "take 1 xs = [x]" by simp_all
  moreover from this have "xs ! 0 = x" by (cases xs) simp_all
  ultimately show ?thesis
    using f by (simp add: forward_pass_def timesteps_sized [OF assms])
qed

lemma backward_loop_frame:
  "backward_loop N mu n (V, G, s) = (V', G', s') \<Longrightarrow>
   length (m_Ks s') = length (m_Ks s) \<and> length (m_ks s') = length (m_ks s) \<and>
   m_xhat s' = m_xhat s \<and> m_uhat s' = m_uhat s \<and>
   m_dynamics s' = m_dynamics s \<and> m_cost s' = m_cost s \<and> m_final_cost s' = m_final_cost s"
proof (induction n arbitrary: V G s)
  case 0
  then show ?case by simp
next
  case (Suc n)
  obtain Vt Gt Kt kt where b: "bellman_backup N s n mu V G = (Vt, Gt, Kt, kt)"
    by (metis prod_cases4)
  from Suc.prems have "backward_loop N mu n
      (Vt, Gt, s\<lparr>m_Ks := (m_Ks s)[n := Kt], m_ks := (m_ks s)[n := kt]\<rparr>) = (V', G', s')"
    by (simp add: b)
  from Suc.IH [OF this] show ?case by simp
qed

lemma backward_pass_frame:
  "length (m_Ks (backward_pass N T mu s)) = length (m_Ks s)"
  "length (m_ks (backward_pass N T mu s)) = length (m_ks s)"
  "m_xhat (backward_pass N T mu s) = m_xhat s"
  "m_uhat (backward_pass N T mu s) = m_uhat s"
  "m_dynamics (backward_pass N T mu s) = m_dynamics s"
  "m_cost (backward_pass N T mu s) = m_cost s"
  "m_final_cost (backward_pass N T mu s) = m_final_cost s"
proof -
  obtain QT gT where q: "quadratize_final_cost N (m_final_cost s) (m_xhat s ! T) = (QT, gT)"
    by (metis surj_pair)
  obtain V' G' s' where l: "backward_loop N mu T (QT, mtranspose gT, s) = (V', G', s')"
    by (metis prod_cases3)
  from backward_loop_frame [OF l] show
    "length (m_Ks (backward_pass N T mu s)) = length (m_Ks s)"
    "length (m_ks (backward_pass N T mu s)) = length (m_ks s)"
    "m_xhat (backward_pass N T mu s) = m_xhat s"
    "m_uhat (backward_pass N T mu s) = m_uhat s"
    "m_dynamics (backward_pass N T mu s) = m_dynamics s"
    "m_cost (backward_pass N T mu s) = m_cost s"
    "m_final_cost (backward_pass N T mu s) = m_final_cost s"
    by (simp_all add: backward_pass_def q l)
qed

lemma backward_pass_sized: "sized T (backward_pass N T' mu s) = sized T s"
  by (simp add: sized_def backward_pass_frame)

lemma line_search_forward_pass:
  assumes "sized T s" and "line_search (probe (forward_pass s x)) old ccr alpha = Some r"
  shows "\<exists>xs us nc ratio a. r = Inr ((xs, us), nc, ratio, a) \<and> length xs = T + 1 \<and>
           length us = T \<and> xs ! 0 = x"
proof -
  have "\<exists>p c. probe (forward_pass s x) a = Inr (p, c) \<and>
          (length (fst p) = T + 1 \<and> length (snd p) = T \<and> fst p ! 0 = x)" for a
    using forward_pass_sized [OF assms(1), of x a] by (auto simp: probe_def)
  from line_search_payload [OF assms(2), of "\<lambda>p. length (fst p) = T + 1 \<and> length (snd p) = T \<and> fst p ! 0 = x", OF this]
  show ?thesis by auto
qed

lemma solve_loop_sized:
  "sized T s \<Longrightarrow> solve_loop N T' x mu ccr a n s old = Some r \<Longrightarrow>
   \<exists>s'. r = Inr s' \<and> sized T s'"
proof (induction n arbitrary: s old)
  case 0
  then show ?case by auto
next
  case (Suc n)
  from Suc.prems(2) obtain q where ls: "line_search (probe (forward_pass s x)) old ccr a = Some q"
    by (cases "line_search (probe (forward_pass s x)) old ccr a") auto
  from line_search_forward_pass [OF Suc.prems(1) ls] obtain xs us nc ratio a' where
    q: "q = Inr ((xs, us), nc, ratio, a')" and len: "length xs = T + 1" "length us = T"
    by blast
  let ?s1 = "s\<lparr>m_xhat := xs, m_uhat := us\<rparr>"
  have s1: "sized T ?s1" using Suc.prems(1) len by (simp add: sized_def)
  show ?case
  proof (cases "dbl_less ratio (Fin ccr)")
    case True
    then show ?thesis using Suc.prems(2) s1 by (auto simp: ls q)
  next
    case False
    then have "solve_loop N T' x mu ccr a n (backward_pass N T' mu ?s1) nc = Some r"
      using Suc.prems(2) by (simp add: ls q)
    moreover have "sized T (backward_pass N T' mu ?s1)" using s1 backward_pass_sized by blast
    ultimately show ?thesis using Suc.IH by blast
  qed
qed

lemmas scalar_defs = scalar_def scalar_numerics_def scalar_cost_def scalar_final_cost_def scalar_solver_def
  lq_numerics_def lq_dynamics_def reciprocal_def

lemma solve_loop_one:
  "forward_pass s x a = Inr ((xs, us), c) \<Longrightarrow>
   solve_loop N T x mu ccr a (Suc 0) s PInf =
     Some (Inr (backward_pass N T mu (s\<lparr>m_xhat := xs, m_uhat := us\<rparr>)))"
  by (simp add: line_search_first probe_Inr)

lemma solve_loop_first:
  "forward_pass s x a = Inr ((xs, us), c) \<Longrightarrow>
   solve_loop N T x mu ccr a (Suc n) s PInf =
     solve_loop N T x mu ccr a n (backward_pass N T mu (s\<lparr>m_xhat := xs, m_uhat := us\<rparr>)) (Fin c)"
  by (simp add: line_search_first probe_Inr)

lemma initialize_sized: "initialize s T u w t_off = Inr s0 \<Longrightarrow> sized T s0"
  by (auto simp: initialize_def sized_def checks_Inr_iff check_defs Let_def split: if_splits sum.splits)

text \<open>
  Claim C5, as amended.  The backup has no invertibility check and no way to fail: it
  multiplies by whatever the inverse routine returns.  Once the argument checks of the
  single-chain \<^verbatim>\<open>solve\<close> and the size checks of its start have passed, a call that returns
  returns a solver state, never an error.
\<close>

theorem solve_errors_only_at_entry:
  assumes "checks [IS_GREATER T 0, IS_GREATER_EQUAL mu 0, IS_GREATER max_iters 0,
                   IS_GREATER ccr 0, IS_GREATER a 0] = Inr ()"
    and "initialize s (nat T) u w t_off = Inr s0"
    and "solve N s T x u mu max_iters ccr a w t_off = Some r"
  shows "\<exists>s'. r = Inr s'"
proof -
  from assms have "solve_loop N (nat T) x mu ccr a (nat max_iters) s0 PInf = Some r"
    by (simp add: solve_def)
  from solve_loop_sized [OF initialize_sized [OF assms(2)] this] show ?thesis by blast
qed

lemma scalar_forward_pass:
  "forward_pass (scalar_solver q r qT [mZero] [mZero] [mZero] [mZero, mZero]) (scalar x) 1 = 
     Inr (([scalar x, scalar x], [mZero]), (q * (x * x)) / 2 + qT * (x * x) / 2)"
  by (simp add: forward_pass_def timesteps_def check_defs forward_step_def compute_control_stepsize_def
      scalar_defs matrix_defs Let_def fun_eq_iff)

text \<open>
  A cost \<open>x\<^sup>2 / 2\<close> with no control term and no final cost, \<open>mu = 0\<close>, horizon 1, one
  round, from \<open>x = 1\<close>: the round commits the rollout \<open>[1, 1]\<close> and runs the backward pass
  on it.
\<close>

lemma no_control_cost_solve:
  "solve (scalar_numerics 1 0 0) (scalar_solver 1 0 0 [] [] [] []) 1 (scalar 1) mZero 0 1
     (1 / 10) 1 False 0 =
   Some (Inr (backward_pass (scalar_numerics 1 0 0) 1 0
     (scalar_solver 1 0 0 [mZero] [mZero] [mZero] [scalar 1, scalar 1])))"
proof -
  have i: "initialize (scalar_solver 1 0 0 [] [] [] []) (Suc 0) mZero False 0 =
      Inr (scalar_solver 1 0 0 [mZero] [mZero] [mZero] [mZero, mZero])"
    by (simp add: initialize_def scalar_solver_def)
  have c: "scalar_solver 1 0 0 [mZero] [mZero] [mZero] [mZero, mZero]
      \<lparr>m_xhat := [scalar 1, scalar 1], m_uhat := [mZero]\<rparr>
     = scalar_solver 1 0 0 [mZero] [mZero] [mZero] [scalar 1, scalar 1]"
    by (simp add: scalar_solver_def)
  have "solve (scalar_numerics 1 0 0) (scalar_solver 1 0 0 [] [] [] []) 1 (scalar 1) mZero 0 1
      (1 / 10) 1 False 0 =
      solve_loop (scalar_numerics 1 0 0) (Suc 0) (scalar 1) 0 (1 / 10) 1 (Suc 0)
        (scalar_solver 1 0 0 [mZero] [mZero] [mZero] [mZero, mZero]) PInf"
    by (simp add: solve_def check_defs i del: solve_loop.simps)
  also have "\<dots> = Some (Inr (backward_pass (scalar_numerics 1 0 0) (Suc 0) 0
        (scalar_solver 1 0 0 [mZero] [mZero] [mZero] [mZero, mZero]
           \<lparr>m_xhat := [scalar 1, scalar 1], m_uhat := [mZero]\<rparr>)))"
    by (rule solve_loop_one [OF scalar_forward_pass])
  finally show ?thesis by (simp add: c)
qed

lemma no_control_cost_hessian:
  "control_hessian (scalar_numerics 1 0 0)
     (scalar_solver 1 0 0 [mZero] [mZero] [mZero] [scalar 1, scalar 1]) 0 0
     (fst (quadratize_final_cost (scalar_numerics 1 0 0) (scalar_final_cost 0) (scalar 1))) = mZero"
  by (simp add: control_hessian_def scalar_defs matrix_defs fun_eq_iff)

text \<open>
  Claim C5, the counterexample.  On that problem the matrix that the backup inverts at
  \<open>t = 0\<close> is zero, and \<^verbatim>\<open>solve\<close> returns the state the backward pass leaves: no error.
\<close>

theorem singular_hessian_goes_unnoticed:
  "control_hessian (scalar_numerics 1 0 0)
     (scalar_solver 1 0 0 [mZero] [mZero] [mZero] [scalar 1, scalar 1]) 0 0
     (fst (quadratize_final_cost (scalar_numerics 1 0 0) (scalar_final_cost 0) (scalar 1))) = mZero
   \<and> solve (scalar_numerics 1 0 0) (scalar_solver 1 0 0 [] [] [] []) 1 (scalar 1) mZero 0 1
       (1 / 10) 1 False 0 =
     Some (Inr (backward_pass (scalar_numerics 1 0 0) 1 0
       (scalar_solver 1 0 0 [mZero] [mZero] [mZero] [scalar 1, scalar 1])))"
  using no_control_cost_hessian no_control_cost_solve by (rule conjI)

theorem solve_errors_only_at_entry_witness:
  "\<exists>s'. solve (scalar_numerics 1 0 0) (scalar_solver 1 0 0 [] [] [] []) 1 (scalar 1) mZero 0 1
          (1 / 10) 1 False 0 = Some (Inr s')"
proof -
  have i: "initialize (scalar_solver 1 0 0 [] [] [] []) (nat 1) mZero False 0 =
      Inr (scalar_solver 1 0 0 [mZero] [mZero] [mZero] [mZero, mZero])"
    by (simp add: initialize_def scalar_solver_def)
  have c: "checks [IS_GREATER (1 :: int) 0, IS_GREATER_EQUAL (0 :: real) 0, IS_GREATER (1 :: int) 0,
                   IS_GREATER (1 / 10 :: real) 0, IS_GREATER (1 :: real) 0] = Inr ()"
    by (simp add: check_defs)
  obtain r where r: "solve (scalar_numerics 1 0 0) (scalar_solver 1 0 0 [] [] [] []) 1 (scalar 1) mZero
      0 1 (1 / 10) 1 False 0 = Some r"
    using no_control_cost_solve by blast
  from solve_errors_only_at_entry [OF c i r] r show ?thesis by auto
qed

lemma regulator_second_pass:
  "\<exists>p. forward_pass (backward_pass (scalar_numerics 1 1 1) (Suc 0) 0
      (scalar_solver 1 1 1 [mZero] [mZero] [mZero] [scalar 0, scalar 0])) (scalar 0) a = Inr (p, 0)"
  by (simp add: forward_pass_def timesteps_def check_defs forward_step_def compute_control_stepsize_def
      backward_pass_def bellman_backup_def
      scalar_defs matrix_defs Let_def fun_eq_iff)

lemma regulator_never_stops:
  "\<not> stops (probe (forward_pass (backward_pass (scalar_numerics 1 1 1) (Suc 0) 0
      (scalar_solver 1 1 1 [mZero] [mZero] [mZero] [scalar 0, scalar 0])) (scalar 0))) (Fin 0) ccr a"
proof -
  from regulator_second_pass [of a] obtain p where "forward_pass (backward_pass (scalar_numerics 1 1 1) (Suc 0) 0
      (scalar_solver 1 1 1 [mZero] [mZero] [mZero] [scalar 0, scalar 0])) (scalar 0) a = Inr (p, 0)" by blast
  then show ?thesis by (simp add: stops_def probe_def accepted_def cost_diff_ratio_of_def)
qed

text \<open>
  Claim C8, the counterexample.  The regulator \<open>x' = x + u\<close> with cost \<open>(x\<^sup>2 + u\<^sup>2) / 2\<close>
  and final cost \<open>x\<^sup>2 / 2\<close>, started at rest (\<open>x = 0\<close>, nominal control 0), horizon 1,
  at most two rounds.  Every forward pass costs exactly 0.  The first round accepts it
  against the infinite old cost; in the second, \<open>0 < 0\<close> is false and the ratio is
  \<open>0 / 0\<close>, a NaN, at every step size: \<^verbatim>\<open>solve\<close> does not return.
\<close>

theorem regulator_at_rest_never_returns:
  "solve (scalar_numerics 1 1 1) (scalar_solver 1 1 1 [] [] [] []) 1 (scalar 0) mZero 0 2 (1/10) 1 False 0 = None"
proof -
  have i: "initialize (scalar_solver 1 1 1 [] [] [] []) (Suc 0) mZero False 0 =
      Inr (scalar_solver 1 1 1 [mZero] [mZero] [mZero] [mZero, mZero])"
    by (simp add: initialize_def scalar_solver_def)
  have c: "scalar_solver 1 1 1 [mZero] [mZero] [mZero] [mZero, mZero]
      \<lparr>m_xhat := [scalar 0, scalar 0], m_uhat := [mZero]\<rparr>
     = scalar_solver 1 1 1 [mZero] [mZero] [mZero] [scalar 0, scalar 0]" by (simp add: scalar_solver_def)
  have f: "forward_pass (scalar_solver 1 1 1 [mZero] [mZero] [mZero] [mZero, mZero]) (scalar 0) 1 =
     Inr (([scalar 0, scalar 0], [mZero]), 0)"
    using scalar_forward_pass [of 1 1 1 0] by simp
  have "solve (scalar_numerics 1 1 1) (scalar_solver 1 1 1 [] [] [] []) 1 (scalar 0) mZero 0 2 (1/10) 1 False 0 =
      solve_loop (scalar_numerics 1 1 1) (Suc 0) (scalar 0) 0 (1/10) 1 (Suc (Suc 0))
        (scalar_solver 1 1 1 [mZero] [mZero] [mZero] [mZero, mZero]) PInf"
    by (simp add: solve_def check_defs i numeral_2_eq_2 del: solve_loop.simps)
  also have "\<dots> = solve_loop (scalar_numerics 1 1 1) (Suc 0) (scalar 0) 0 (1/10) 1 (Suc 0)
        (backward_pass (scalar_numerics 1 1 1) (Suc 0) 0
           (scalar_solver 1 1 1 [mZero] [mZero] [mZero] [scalar 0, scalar 0])) (Fin 0)"
    unfolding solve_loop_first [OF f] c ..
  also have "\<dots> = None"
    by (simp add: line_search_never [OF regulator_never_stops])
  finally show ?thesis .
qed


section \<open>Argument checks\<close>

text \<open>The checks that the two \<^verbatim>\<open>solve\<close> functions and the constructor do make.\<close>

lemma solve_rejects_bad_arguments:
  "T \<le> 0 \<or> mu < 0 \<or> max_iters \<le> 0 \<or> ccr \<le> 0 \<or> a \<le> 0 \<Longrightarrow>
   \<exists>e. solve N s T x u mu max_iters ccr a w t_off = Some (Inl e)"
  by (auto simp: solve_def check_defs)

lemma hs_solve_rejects_bad_arguments:
  "T \<le> 1 \<or> mu < 0 \<or> max_iters \<le> 0 \<or> ccr \<le> 0 \<or> a \<le> 0 \<or> t_off < 0 \<or>
   \<bar>total_branch_probability (m_branches s) - 1\<bar> > 1 / 1000 \<Longrightarrow>
   \<exists>e. hs_solve N s T x u mu max_iters ccr a w t_off = Some (Inl e)"
  by (auto simp: hs_solve_def check_defs)

lemma constructor_rejects_bad_branches:
  "branches = [] \<or> \<bar>total_branch_probability branches - 1\<bar> > 1 / 1000 \<Longrightarrow>
   \<exists>e. make_iLQRHindsightSolver branches x0 u0 = Inl e"
  by (auto simp: make_iLQRHindsightSolver_def check_defs)

text \<open>
  Claim C9, at the input where the code falls short of it.  Two branches with probabilities
  \<open>3/2\<close> and \<open>-1/2\<close> sum to 1: the constructor accepts them and the checks at the start
  of \<^verbatim>\<open>solve\<close> pass, although neither probability lies in \<open>[0, 1]\<close>.  The range check
  exists only in \<^verbatim>\<open>set_branch_probability\<close>, which rejects the same \<open>3/2\<close>.
\<close>

theorem constructor_accepts_probability_outside_unit_interval:
  "make_iLQRHindsightSolver
     [scalar_branch 1 1 1 (3 / 2) [] [] [] [], scalar_branch 1 1 1 (- 1 / 2) [] [] [] []]
     mZero mZero =
     Inr (scalar_hindsight
       [scalar_branch 1 1 1 (3 / 2) [] [] [] [], scalar_branch 1 1 1 (- 1 / 2) [] [] [] []])
   \<and> checks [IS_GREATER (2 :: int) 1, IS_GREATER_EQUAL (0 :: real) 0, IS_GREATER (1 :: int) 0,
             IS_GREATER (1 / 10 :: real) 0, IS_GREATER (1 :: real) 0, IS_GREATER_EQUAL (0 :: int) 0,
             IS_ALMOST_EQUAL (total_branch_probability (m_branches (scalar_hindsight
               [scalar_branch 1 1 1 (3 / 2) [] [] [] [], scalar_branch 1 1 1 (- 1 / 2) [] [] [] []])))
               1 (1 / 1000)] = Inr ()
   \<and> set_branch_probability
       (scalar_hindsight
         [scalar_branch 1 1 1 (3 / 2) [] [] [] [], scalar_branch 1 1 1 (- 1 / 2) [] [] [] []])
       0 (3 / 2) =
     Inl IS_BETWEEN_failed"
  by (simp add: make_iLQRHindsightSolver_def set_branch_probability_def check_defs
      total_branch_probability_def scalar_branch_def scalar_hindsight_def)

section \<open>Counted loops\<close>

lemma for_loop_from:
  assumes step: "\<And>k s s'. k < n \<Longrightarrow> P k s \<Longrightarrow> body k s = Inr s' \<Longrightarrow> P (Suc k) s'"
  shows "P i s \<Longrightarrow> i \<le> n \<Longrightarrow> for_loop [i..<n] body s = Inr s' \<Longrightarrow> P n s'"
proof (induction "n - i" arbitrary: i s)
  case 0
  then show ?case by simp
next
  case (Suc d)
  then have lt: "i < n" by simp
  then have u: "[i..<n] = i # [Suc i..<n]" by (rule upt_conv_Cons)
  from Suc.prems(3) obtain s1 where b: "body i s = Inr s1"
    and r: "for_loop [Suc i..<n] body s1 = Inr s'"
    unfolding u by (auto split: sum.splits)
  have "P (Suc i) s1" using step [OF lt Suc.prems(1) b] .
  moreover have "d = n - Suc i" using Suc.hyps(2) by simp
  ultimately show ?case using Suc.hyps(1) [of "Suc i" s1] r lt by simp
qed

lemma for_loop_upt:
  assumes "\<And>k s s'. k < n \<Longrightarrow> P k s \<Longrightarrow> body k s = Inr s' \<Longrightarrow> P (Suc k) s'"
    and "P 0 s" and "for_loop [0..<n] body s = Inr s'"
  shows "P n s'"
  using for_loop_from [of n P body 0 s s'] assms by simp

lemma for_loop_total_from:
  assumes step: "\<And>k s. k < n \<Longrightarrow> P k s \<Longrightarrow> \<exists>s'. body k s = Inr s' \<and> P (Suc k) s'"
  shows "P i s \<Longrightarrow> i \<le> n \<Longrightarrow> \<exists>s'. for_loop [i..<n] body s = Inr s' \<and> P n s'"
proof (induction "n - i" arbitrary: i s)
  case 0
  then show ?case by simp
next
  case (Suc d)
  then have lt: "i < n" by simp
  then have u: "[i..<n] = i # [Suc i..<n]" by (rule upt_conv_Cons)
  from step [OF lt Suc.prems(1)] obtain s1 where b: "body i s = Inr s1" and p: "P (Suc i) s1"
    by blast
  have "d = n - Suc i" using Suc.hyps(2) by simp
  from Suc.hyps(1) [OF this p] lt obtain s' where "for_loop [Suc i..<n] body s1 = Inr s'" "P n s'"
    by auto
  then show ?case unfolding u by (simp add: b)
qed

lemma for_loop_total:
  assumes "\<And>k s. k < n \<Longrightarrow> P k s \<Longrightarrow> \<exists>s'. body k s = Inr s' \<and> P (Suc k) s'"
    and "P 0 s"
  shows "\<exists>s'. for_loop [0..<n] body s = Inr s' \<and> P n s'"
  using for_loop_total_from [of n P body 0 s] assms by simp

lemma fold_upt_from:
  assumes step: "\<And>k s. k < n \<Longrightarrow> P k s \<Longrightarrow> P (Suc k) (body k s)"
  shows "P i s \<Longrightarrow> i \<le> n \<Longrightarrow> P n (fold body [i..<n] s)"
proof (induction "n - i" arbitrary: i s)
  case 0
  then show ?case by simp
next
  case (Suc d)
  then have lt: "i < n" by simp
  then have u: "[i..<n] = i # [Suc i..<n]" by (rule upt_conv_Cons)
  have "d = n - Suc i" using Suc.hyps(2) by simp
  from Suc.hyps(1) [OF this step [OF lt Suc.prems(1)]] lt show ?case unfolding u by simp
qed

lemma fold_upt:
  assumes "\<And>k s. k < n \<Longrightarrow> P k s \<Longrightarrow> P (Suc k) (body k s)" and "P 0 s"
  shows "P n (fold body [0..<n] s)"
  using fold_upt_from [of n P body 0 s] assms by simp

section \<open>The warm start of the hindsight solver\<close>

lemma msum_snoc: "msum (Ms @ [M]) = madd (msum Ms) M"
  by (simp add: msum_def madd_def)

lemma msum_Nil: "msum [] = mZero"
  by (simp add: msum_def mZero_def)

lemma update_branch_simps:
  "m_branches (update_branch s b f) = (m_branches s)[b := f (m_branches s ! b)]"
  "m_K0 (update_branch s b f) = m_K0 s" "m_k0 (update_branch s b f) = m_k0 s"
  "m_xhat0 (update_branch s b f) = m_xhat0 s" "m_uhat0 (update_branch s b f) = m_uhat0 s"
  by (simp_all add: update_branch_def)

lemma warm_resize_loop:
  fixes s0 :: "('x, 'u) iLQRHindsightSolver"
  assumes loop: "for_loop [0..<length (m_branches s0)] (warm_resize T t_off) s0 = Inr s1"
    and zero: "m_K0 s0 = mZero" "m_k0 s0 = mZero"
  shows "m_branches s1 = map (drop_first (nat t_off)) (m_branches s0) \<and>
         (\<forall>b\<in>set (m_branches s1). branch_sized T b) \<and>
         m_K0 s1 = msum (map (\<lambda>b. mscale (probability b) (drop (nat t_off) (Ks b) ! 0))
                      (m_branches s0)) \<and>
         m_k0 s1 = msum (map (\<lambda>b. mscale (probability b) (drop (nat t_off) (ks b) ! 0))
                      (m_branches s0)) \<and>
         m_xhat0 s1 = m_xhat0 s0 \<and> m_uhat0 s1 = m_uhat0 s0"
proof -
  let ?bs = "m_branches s0"
  let ?n = "nat t_off"
  define P where "P k s \<longleftrightarrow>
      length (m_branches s) = length ?bs \<and>
      (\<forall>j<k. m_branches s ! j = drop_first ?n (?bs ! j) \<and>
          branch_sized T (m_branches s ! j)) \<and>
      (\<forall>j. k \<le> j \<longrightarrow> j < length ?bs \<longrightarrow> m_branches s ! j = ?bs ! j) \<and>
      m_K0 s = msum (map (\<lambda>b. mscale (probability b) (drop ?n (Ks b) ! 0)) (take k ?bs)) \<and>
      m_k0 s = msum (map (\<lambda>b. mscale (probability b) (drop ?n (ks b) ! 0)) (take k ?bs)) \<and>
      m_xhat0 s = m_xhat0 s0 \<and> m_uhat0 s = m_uhat0 s0"
    for k and s :: "('x, 'u) iLQRHindsightSolver"
  have step: "P (Suc k) s'" if k: "k < length ?bs" and p: "P k s" and b: "warm_resize T t_off k s = Inr s'"
    for k s s'
  proof -
    have bk: "m_branches s ! k = ?bs ! k" using p k unfolding P_def by simp
    have len: "k < length (m_branches s)" using p k unfolding P_def by simp
    from b have s': "s' = (update_branch s k (\<lambda>_. drop_first ?n (?bs ! k)))
          \<lparr>m_K0 := madd (m_K0 s) (mscale (probability (?bs ! k)) (drop ?n (Ks (?bs ! k)) ! 0)),
           m_k0 := madd (m_k0 s) (mscale (probability (?bs ! k)) (drop ?n (ks (?bs ! k)) ! 0))\<rparr>"
      and sz: "branch_sized T (drop_first ?n (?bs ! k))"
      unfolding warm_resize_def Let_def bk
      by (auto simp: drop_first_def branch_sized_def check_defs split: sum.splits if_splits)
    show ?thesis
      unfolding P_def
    proof (intro conjI allI impI)
      show "length (m_branches s') = length ?bs" using p by (simp add: s' update_branch_simps P_def)
    next
      fix j assume j: "j < Suc k"
      have eq: "m_branches s' ! j = (if j = k then drop_first ?n (?bs ! k) else m_branches s ! j)"
        using len by (simp add: s' update_branch_simps)
      show "m_branches s' ! j = drop_first ?n (?bs ! j)"
        using p j unfolding eq P_def by (cases "j = k") auto
      show "branch_sized T (m_branches s' ! j)"
      proof (cases "j = k")
        case True
        then show ?thesis unfolding eq using sz by simp
      next
        case False
        then have "j < k" using j by simp
        then have "branch_sized T (m_branches s ! j)" using p unfolding P_def by blast
        then show ?thesis unfolding eq using False by simp
      qed
    next
      fix j assume "Suc k \<le> j" "j < length ?bs"
      then show "m_branches s' ! j = ?bs ! j" using p by (simp add: s' update_branch_simps P_def)
    next
      show "m_K0 s' = msum (map (\<lambda>b. mscale (probability b) (drop ?n (Ks b) ! 0)) (take (Suc k) ?bs))"
        using p k by (simp add: s' P_def take_Suc_conv_app_nth msum_snoc)
      show "m_k0 s' = msum (map (\<lambda>b. mscale (probability b) (drop ?n (ks b) ! 0)) (take (Suc k) ?bs))"
        using p k by (simp add: s' P_def take_Suc_conv_app_nth msum_snoc)
      show "m_xhat0 s' = m_xhat0 s0" "m_uhat0 s' = m_uhat0 s0"
        using p by (simp_all add: s' update_branch_simps P_def)
    qed
  qed
  have "P 0 s0" unfolding P_def by (simp add: zero msum_Nil)
  from for_loop_upt [of "length ?bs" P, OF step this loop] have fin: "P (length ?bs) s1" by simp
  then have "m_branches s1 = map (drop_first ?n) ?bs"
    unfolding P_def by (intro nth_equalityI) simp_all
  moreover have "\<forall>b\<in>set (m_branches s1). branch_sized T b"
    using fin unfolding P_def by (auto simp: in_set_conv_nth)
  ultimately show ?thesis using fin unfolding P_def by simp
qed

lemma warm_copy_loop:
  fixes s1 :: "('x, 'u) iLQRHindsightSolver"
  shows "fold warm_copy [0..<length (m_branches s1)] s1 =
     s1\<lparr>m_branches := map (set_first (m_K0 s1) (m_k0 s1) (m_xhat0 s1) (m_uhat0 s1)) (m_branches s1)\<rparr>"
proof -
  let ?bs = "m_branches s1"
  let ?f = "set_first (m_K0 s1) (m_k0 s1) (m_xhat0 s1) (m_uhat0 s1)"
  define P where "P k s \<longleftrightarrow>
      length (m_branches s) = length ?bs \<and>
      (\<forall>j<k. m_branches s ! j = ?f (?bs ! j)) \<and>
      (\<forall>j. k \<le> j \<longrightarrow> j < length ?bs \<longrightarrow> m_branches s ! j = ?bs ! j) \<and>
      iLQRHindsightSolver.more s = iLQRHindsightSolver.more s1 \<and>
      m_K0 s = m_K0 s1 \<and> m_k0 s = m_k0 s1 \<and> m_xhat0 s = m_xhat0 s1 \<and> m_uhat0 s = m_uhat0 s1"
    for k and s :: "('x, 'u) iLQRHindsightSolver"
  have step: "P (Suc k) (warm_copy k s)" if k: "k < length ?bs" and p: "P k s" for k s
  proof -
    have len: "k < length (m_branches s)" using p k unfolding P_def by simp
    have eq: "m_branches (warm_copy k s) ! j = (if j = k then ?f (?bs ! k) else m_branches s ! j)" for j
      using len p k by (simp add: warm_copy_def update_branch_simps set_first_def P_def)
    show ?thesis
      unfolding P_def eq using p
      by (auto simp: P_def warm_copy_def update_branch_def less_Suc_eq)
  qed
  have "P 0 s1" unfolding P_def by simp
  from fold_upt [of "length ?bs" P warm_copy, OF step this]
  have fin: "P (length ?bs) (fold warm_copy [0..<length ?bs] s1)" by simp
  then have "m_branches (fold warm_copy [0..<length ?bs] s1) = map ?f ?bs"
    unfolding P_def by (intro nth_equalityI) simp_all
  then show ?thesis using fin unfolding P_def by (intro iLQRHindsightSolver.equality) simp_all
qed

text \<open>
  Claim C10.  When the warm start of the hindsight \<^verbatim>\<open>solve\<close> succeeds, every branch has lost
  the first \<open>t_offset\<close> entries of its four vectors and what remains has the sizes of
  horizon \<open>T\<close>; the shared gains are the probability-weighted sums of the branches'
  retained first gains, the shared state and control are \<open>x_init\<close> and \<open>u_nominal\<close>; and
  the first slot of every branch holds these four shared values.  The rounds of \<^verbatim>\<open>solve\<close>
  start from that state.
\<close>

theorem warm_start_shares_first_slot:
  assumes "warm_start_init s T x_init u_nominal t_offset = Inr s'"
  shows "m_xhat0 s' = x_init \<and> m_uhat0 s' = u_nominal \<and>
         m_K0 s' = msum (map (\<lambda>b. mscale (probability b) (drop (nat t_offset) (Ks b) ! 0))
                      (m_branches s)) \<and>
         m_k0 s' = msum (map (\<lambda>b. mscale (probability b) (drop (nat t_offset) (ks b) ! 0))
                      (m_branches s)) \<and>
         m_branches s' =
           map (\<lambda>b. set_first (m_K0 s') (m_k0 s') x_init u_nominal (drop_first (nat t_offset) b))
             (m_branches s) \<and>
         list_all (\<lambda>b. branch_sized T (drop_first (nat t_offset) b)) (m_branches s) \<and>
         hs_solve N s T' x_init u_nominal mu max_iters ccr a True t_offset =
           (case checks [IS_GREATER T' 1, IS_GREATER_EQUAL mu 0, IS_GREATER max_iters 0,
                   IS_GREATER ccr 0, IS_GREATER a 0, IS_GREATER_EQUAL t_offset 0,
                   IS_ALMOST_EQUAL (total_branch_probability (m_branches s)) 1 (1 / 1000)] of
              Inl e \<Rightarrow> Some (Inl e)
            | Inr _ \<Rightarrow> (case warm_start_init s (nat T') x_init u_nominal t_offset of
                Inl e \<Rightarrow> Some (Inl e)
              | Inr s0 \<Rightarrow> hs_solve_loop N (nat T') x_init mu ccr a (nat max_iters) s0 PInf))"
proof -
  let ?s0 = "s\<lparr>m_xhat0 := x_init, m_uhat0 := u_nominal, m_K0 := mZero, m_k0 := mZero\<rparr>"
  from assms obtain s1 where
    loop: "for_loop [0..<length (m_branches ?s0)] (warm_resize T t_offset) ?s0 = Inr s1"
    and s': "s' = fold warm_copy [0..<length (m_branches s)] s1"
    by (auto simp: warm_start_init_def Let_def split: sum.splits)
  from warm_resize_loop [OF loop] have r:
    "m_branches s1 = map (drop_first (nat t_offset)) (m_branches s)"
    "\<forall>b\<in>set (m_branches s1). branch_sized T b"
    "m_K0 s1 = msum (map (\<lambda>b. mscale (probability b) (drop (nat t_offset) (Ks b) ! 0)) (m_branches s))"
    "m_k0 s1 = msum (map (\<lambda>b. mscale (probability b) (drop (nat t_offset) (ks b) ! 0)) (m_branches s))"
    "m_xhat0 s1 = x_init" "m_uhat0 s1 = u_nominal"
    by simp_all
  have "length (m_branches s) = length (m_branches s1)" using r(1) by simp
  then have s'': "s' = s1\<lparr>m_branches := map (set_first (m_K0 s1) (m_k0 s1) (m_xhat0 s1) (m_uhat0 s1)) (m_branches s1)\<rparr>"
    using warm_copy_loop [of s1] s' by simp
  have "list_all (\<lambda>b. branch_sized T (drop_first (nat t_offset) b)) (m_branches s)"
    using r(2) unfolding r(1) by (simp add: list_all_iff)
  moreover have "hs_solve N s T' x_init u_nominal mu max_iters ccr a True t_offset =
           (case checks [IS_GREATER T' 1, IS_GREATER_EQUAL mu 0, IS_GREATER max_iters 0,
                   IS_GREATER ccr 0, IS_GREATER a 0, IS_GREATER_EQUAL t_offset 0,
                   IS_ALMOST_EQUAL (total_branch_probability (m_branches s)) 1 (1 / 1000)] of
              Inl e \<Rightarrow> Some (Inl e)
            | Inr _ \<Rightarrow> (case warm_start_init s (nat T') x_init u_nominal t_offset of
                Inl e \<Rightarrow> Some (Inl e)
              | Inr s0 \<Rightarrow> hs_solve_loop N (nat T') x_init mu ccr a (nat max_iters) s0 PInf))"
    unfolding hs_solve_def hs_initialize_def by simp
  ultimately show ?thesis
    using r by (simp add: s'' comp_def)
qed

theorem warm_start_shares_first_slot_witness:
  "\<exists>s'. warm_start_init warm_example 2 (scalar 10) (scalar 11) 1 = Inr s' \<and>
        m_xhat0 s' = scalar 10 \<and> m_uhat0 s' = scalar 11 \<and>
        m_K0 s' = scalar 4 \<and> m_k0 s' = scalar 6 \<and>
        map Ks (m_branches s') = [[scalar 4, scalar 2], [scalar 4, scalar 6]] \<and>
        map ks (m_branches s') = [[scalar 6, scalar 4], [scalar 6, scalar 8]] \<and>
        map xhat (m_branches s') = [[scalar 10, scalar 0, scalar 0], [scalar 10, scalar 0, scalar 0]] \<and>
        map uhat (m_branches s') = [[scalar 11, scalar 0], [scalar 11, scalar 0]]"
proof -
  obtain s' where s': "warm_start_init warm_example 2 (scalar 10) (scalar 11) 1 = Inr s'"
    by (simp add: warm_start_init_def warm_resize_def warm_example_def scalar_hindsight_def
        scalar_branch_def update_branch_def check_defs Let_def numeral_2_eq_2)
  have K: "msum (map (\<lambda>b. mscale (probability b) (drop (nat 1) (Ks b) ! 0)) (m_branches warm_example))
      = scalar 4"
    by (simp add: warm_example_def scalar_hindsight_def scalar_branch_def msum_def mscale_def
        scalar_def fun_eq_iff)
  have k: "msum (map (\<lambda>b. mscale (probability b) (drop (nat 1) (ks b) ! 0)) (m_branches warm_example))
      = scalar 6"
    by (simp add: warm_example_def scalar_hindsight_def scalar_branch_def msum_def mscale_def
        scalar_def fun_eq_iff)
  from warm_start_shares_first_slot [OF s']
  have "m_xhat0 s' = scalar 10" "m_uhat0 s' = scalar 11" "m_K0 s' = scalar 4" "m_k0 s' = scalar 6"
    "m_branches s' =
       map (\<lambda>b. set_first (m_K0 s') (m_k0 s') (scalar 10) (scalar 11) (drop_first (nat 1) b))
         (m_branches warm_example)"
    unfolding K k by blast+
  then show ?thesis
    using s' by (simp add: warm_example_def scalar_hindsight_def scalar_branch_def set_first_def
        drop_first_def)
qed

section \<open>Forward passes of the hindsight solver\<close>

lemma hs_timesteps_sized: "hs_sized T s \<Longrightarrow> hs_timesteps s = Inr T"
  by (cases "m_branches s")
    (simp_all add: hs_sized_def branch_sized_def hs_timesteps_def check_defs)

lemma hs_forward_pass_sized:
  "hs_sized T s \<Longrightarrow> b < length (m_branches s) \<Longrightarrow>
   hs_forward_pass s b x a = Inr (branch_rollout (m_branches s ! b) T x a)"
  by (simp add: hs_forward_pass_def hs_timesteps_sized branch_rollout_def check_defs Let_def
      split: prod.splits)

lemma fold_hs_forward_step_shape:
  "fold (hs_forward_step br a) ts (xs0, us0, c0) = (xs, us, c) \<Longrightarrow>
   length xs = length xs0 + length ts \<and> length us = length us0 + length ts \<and>
   take (length xs0) xs = xs0 \<and> take (length us0) us = us0"
proof (induction ts arbitrary: xs0 us0 c0)
  case Nil
  then show ?case by simp
next
  case (Cons t ts)
  obtain x' u' c' where
    step: "hs_forward_step br a t (xs0, us0, c0) = (xs0 @ [x'], us0 @ [u'], c')"
    by (simp add: hs_forward_step_def Let_def)
  have rest: "fold (hs_forward_step br a) ts (xs0 @ [x'], us0 @ [u'], c') = (xs, us, c)"
    using Cons.prems by (simp add: step)
  from Cons.IH [OF rest] have
    l: "length xs = length xs0 + length (t # ts)" "length us = length us0 + length (t # ts)"
    and tk: "take (Suc (length xs0)) xs = xs0 @ [x']" "take (Suc (length us0)) us = us0 @ [u']"
    by simp_all
  have "take (length xs0) (take (Suc (length xs0)) xs) = xs0" unfolding tk by simp
  moreover have "take (length us0) (take (Suc (length us0)) us) = us0" unfolding tk by simp
  ultimately show ?case using l by (simp add: min_def)
qed

lemma branch_rollout_shape:
  assumes "branch_rollout br T x a = ((xs, us), c)"
  shows "length xs = T + 1" "length us = T" "xs ! 0 = x"
    "0 < T \<Longrightarrow> us ! 0 = branch_control br x 0 a"
proof -
  obtain c' where f: "fold (hs_forward_step br a) [0..<T] ([x], [], 0) = (xs, us, c')"
    using assms by (auto simp: branch_rollout_def split: prod.splits)
  from fold_hs_forward_step_shape [OF f] have l: "length xs = T + 1" "length us = T"
    and tk: "take (length [x]) xs = [x]" by simp_all
  from l show "length xs = T + 1" "length us = T" .
  from tk show "xs ! 0 = x" by (cases xs) simp_all
  assume "0 < T"
  then have u: "[0..<T] = 0 # [Suc 0..<T]" by (rule upt_conv_Cons)
  have "hs_forward_step br a 0 ([x], [], 0) =
      ([x, dynamics br x (branch_control br x 0 a)], [branch_control br x 0 a],
        cost br x (branch_control br x 0 a) 0)"
    by (simp add: hs_forward_step_def Let_def)
  with f have "fold (hs_forward_step br a) [Suc 0..<T]
      ([x, dynamics br x (branch_control br x 0 a)], [branch_control br x 0 a],
        cost br x (branch_control br x 0 a) 0) = (xs, us, c')"
    unfolding u by simp
  from fold_hs_forward_step_shape [OF this] have "take 1 us = [branch_control br x 0 a]" by simp
  then show "us ! 0 = branch_control br x 0 a" by (cases us) simp_all
qed

lemma commit_rollout_simps:
  "Ks (commit_rollout T x a br) = Ks br" "ks (commit_rollout T x a br) = ks br"
  "dynamics (commit_rollout T x a br) = dynamics br" "cost (commit_rollout T x a br) = cost br"
  "final_cost (commit_rollout T x a br) = final_cost br"
  "probability (commit_rollout T x a br) = probability br"
  "xhat (commit_rollout T x a br) ! 0 = x"
  "0 < T \<Longrightarrow> uhat (commit_rollout T x a br) ! 0 = branch_control br x 0 a"
  "length (xhat (commit_rollout T x a br)) = T + 1"
  "length (uhat (commit_rollout T x a br)) = T"
  using branch_rollout_shape [of br T x a "fst (fst (branch_rollout br T x a))"
      "snd (fst (branch_rollout br T x a))" "snd (branch_rollout br T x a)"]
  by (simp_all add: commit_rollout_def)

lemma commit_rollout_sized: "branch_sized T br \<Longrightarrow> branch_sized T (commit_rollout T x a br)"
  by (simp add: branch_sized_def commit_rollout_simps)

lemma list_all_update: "list_all P xs \<Longrightarrow> P y \<Longrightarrow> list_all P (xs[k := y])"
  by (metis insertE list_all_iff set_update_subset_insert subsetD)

lemma hs_sized_update_branch:
  "hs_sized T s \<Longrightarrow> branch_sized T (f (m_branches s ! k)) \<Longrightarrow> hs_sized T (update_branch s k f)"
  by (simp add: hs_sized_def update_branch_simps list_all_update)

lemma commit_loop:
  fixes s :: "('x::finite, 'u) iLQRHindsightSolver"
  assumes sz: "hs_sized T s"
    and lens: "length x0s = length (m_branches s)" "length u0s = length (m_branches s)"
  shows "for_loop [0..<length (m_branches s)] (commit_branch x a) (s, x0s, u0s) =
     Inr (s\<lparr>m_branches := map (commit_rollout T x a) (m_branches s)\<rparr>,
          map (\<lambda>b. xhat (commit_rollout T x a b) ! 0) (m_branches s),
          map (\<lambda>b. uhat (commit_rollout T x a b) ! 0) (m_branches s))"
proof -
  let ?bs = "m_branches s"
  let ?n = "length ?bs"
  let ?c = "commit_rollout T x a"
  define P where "P k acc \<longleftrightarrow> (case acc of (s', x0s', u0s') \<Rightarrow>
      hs_sized T s' \<and> length (m_branches s') = ?n \<and>
      (\<forall>j<k. m_branches s' ! j = ?c (?bs ! j)) \<and>
      (\<forall>j. k \<le> j \<longrightarrow> j < ?n \<longrightarrow> m_branches s' ! j = ?bs ! j) \<and>
      iLQRHindsightSolver.more s' = iLQRHindsightSolver.more s \<and>
      m_K0 s' = m_K0 s \<and> m_k0 s' = m_k0 s \<and> m_xhat0 s' = m_xhat0 s \<and> m_uhat0 s' = m_uhat0 s \<and>
      length x0s' = ?n \<and> length u0s' = ?n \<and>
      (\<forall>j<k. x0s' ! j = xhat (?c (?bs ! j)) ! 0 \<and> u0s' ! j = uhat (?c (?bs ! j)) ! 0))"
    for k and acc :: "('x, 'u) iLQRHindsightSolver \<times> 'x Vector list \<times> 'u Vector list"
  have step: "\<exists>acc'. commit_branch x a k acc = Inr acc' \<and> P (Suc k) acc'"
    if k: "k < ?n" and p: "P k acc" for k acc
  proof -
    obtain s' x0s' u0s' where acc: "acc = (s', x0s', u0s')" by (metis prod_cases3)
    have sz': "hs_sized T s'" and len: "k < length (m_branches s')"
      and bk: "m_branches s' ! k = ?bs ! k"
      using p k unfolding P_def acc by simp_all
    have bsz: "branch_sized T (?bs ! k)"
      using sz k by (simp add: hs_sized_def list_all_length)
    let ?s'' = "update_branch s' k (\<lambda>_. ?c (?bs ! k))"
    have r: "commit_branch x a k acc =
        Inr (?s'', x0s'[k := xhat (?c (?bs ! k)) ! 0], u0s'[k := uhat (?c (?bs ! k)) ! 0])"
      unfolding acc commit_branch_def
      by (simp add: hs_forward_pass_sized [OF sz' len] bk update_branch_def commit_rollout_def
          split: prod.splits)
    have eq: "m_branches ?s'' ! j = (if j = k then ?c (?bs ! k) else m_branches s' ! j)" for j
      using len by (simp add: update_branch_simps)
    have "hs_sized T ?s''"
      using sz' commit_rollout_sized [OF bsz] by (rule hs_sized_update_branch)
    then have "P (Suc k) (?s'', x0s'[k := xhat (?c (?bs ! k)) ! 0], u0s'[k := uhat (?c (?bs ! k)) ! 0])"
      using p k unfolding P_def acc eq
      by (auto simp: update_branch_def less_Suc_eq nth_list_update)
    then show ?thesis using r by blast
  qed
  have "P 0 (s, x0s, u0s)" unfolding P_def using sz lens by simp
  from for_loop_total [of ?n P "commit_branch x a", OF step this]
  obtain s' x0s' u0s' where
    l: "for_loop [0..<?n] (commit_branch x a) (s, x0s, u0s) = Inr (s', x0s', u0s')"
    and fin: "P ?n (s', x0s', u0s')"
    by (metis prod_cases3)
  have "m_branches s' = map ?c ?bs"
    using fin unfolding P_def by (intro nth_equalityI) simp_all
  then have "s' = s\<lparr>m_branches := map ?c ?bs\<rparr>"
    using fin unfolding P_def by (intro iLQRHindsightSolver.equality) simp_all
  moreover have "x0s' = map (\<lambda>b. xhat (?c b) ! 0) ?bs"
    using fin unfolding P_def by (intro nth_equalityI) simp_all
  moreover have "u0s' = map (\<lambda>b. uhat (?c b) ! 0) ?bs"
    using fin unfolding P_def by (intro nth_equalityI) simp_all
  ultimately show ?thesis using l by simp
qed

section \<open>The per-branch sweeps\<close>

lemma gains_frame_refl [simp]: "gains_frame br br"
  by (simp add: gains_frame_def)

lemma gains_frame_trans: "gains_frame a b \<Longrightarrow> gains_frame b c \<Longrightarrow> gains_frame a c"
  by (simp add: gains_frame_def)

lemma same_shared_refl [simp]: "same_shared s s"
  by (simp add: same_shared_def)

lemma same_shared_trans: "same_shared a b \<Longrightarrow> same_shared b c \<Longrightarrow> same_shared a c"
  by (simp add: same_shared_def)

lemma hs_bellman_backup_frame:
  assumes "hs_bellman_backup N s b (Suc t) mu V G = (V', G', s')" and "b < length (m_branches s)"
  shows "same_shared s s' \<and> gains_frame (m_branches s ! b) (m_branches s' ! b) \<and>
         (\<forall>j. j \<noteq> b \<longrightarrow> m_branches s' ! j = m_branches s ! j)"
  using assms
  by (auto simp: hs_bellman_backup_def Let_def same_shared_def gains_frame_def split: prod.splits)

lemma hs_backward_loop_frame:
  "hs_backward_loop N mu b n (V, G, s) = (V', G', s') \<Longrightarrow> b < length (m_branches s) \<Longrightarrow>
   same_shared s s' \<and> gains_frame (m_branches s ! b) (m_branches s' ! b) \<and>
   (\<forall>j. j \<noteq> b \<longrightarrow> m_branches s' ! j = m_branches s ! j)"
proof (induction n arbitrary: V G s)
  case 0
  then show ?case by simp
next
  case (Suc n)
  show ?case
  proof (cases n)
    case 0
    then show ?thesis using Suc.prems by simp
  next
    case (Suc t)
    obtain V1 G1 s1 where bb: "hs_bellman_backup N s b (Suc t) mu V G = (V1, G1, s1)"
      by (metis prod_cases3)
    from hs_bellman_backup_frame [OF bb Suc.prems(2)] have
      f1: "same_shared s s1" "gains_frame (m_branches s ! b) (m_branches s1 ! b)"
        "\<forall>j. j \<noteq> b \<longrightarrow> m_branches s1 ! j = m_branches s ! j"
      by simp_all
    have len: "b < length (m_branches s1)" using f1(1) Suc.prems(2) by (simp add: same_shared_def)
    have "hs_backward_loop N mu b n (V1, G1, s1) = (V', G', s')"
      using Suc.prems(1) unfolding Suc by (simp add: bb)
    from Suc.IH [OF this len] f1 show ?thesis
      using same_shared_trans gains_frame_trans by (metis (no_types, lifting))
  qed
qed

lemma hs_bellman_backup_local:
  assumes "b < length (m_branches s)" "b' < length (m_branches s')"
    and "m_branches s ! b = m_branches s' ! b'"
    and "hs_bellman_backup N s b t mu V G = (V1, G1, s1)"
    and "hs_bellman_backup N s' b' t mu V G = (V1', G1', s1')"
  shows "V1' = V1 \<and> G1' = G1 \<and> m_branches s1 ! b = m_branches s1' ! b'"
  using assms
  by (auto simp: hs_bellman_backup_def Let_def split: prod.splits)

lemma hs_backward_loop_local:
  "b < length (m_branches s) \<Longrightarrow> b' < length (m_branches s') \<Longrightarrow>
   m_branches s ! b = m_branches s' ! b' \<Longrightarrow>
   hs_backward_loop N mu b n (V, G, s) = (V1, G1, s1) \<Longrightarrow>
   hs_backward_loop N mu b' n (V, G, s') = (V1', G1', s1') \<Longrightarrow>
   V1' = V1 \<and> G1' = G1 \<and> m_branches s1 ! b = m_branches s1' ! b'"
proof (induction n arbitrary: V G s s')
  case 0
  then show ?case by simp
next
  case (Suc n)
  show ?case
  proof (cases n)
    case 0
    then show ?thesis using Suc.prems by simp
  next
    case (Suc t)
    obtain Va Ga sa where a: "hs_bellman_backup N s b (Suc t) mu V G = (Va, Ga, sa)"
      by (metis prod_cases3)
    obtain Vb Gb sb where b: "hs_bellman_backup N s' b' (Suc t) mu V G = (Vb, Gb, sb)"
      by (metis prod_cases3)
    from hs_bellman_backup_local [OF Suc.prems(1,2,3) a b]
    have eq: "Vb = Va" "Gb = Ga" "m_branches sa ! b = m_branches sb ! b'" by simp_all
    have la: "b < length (m_branches sa)"
      using hs_bellman_backup_frame [OF a Suc.prems(1)] Suc.prems(1) by (simp add: same_shared_def)
    have lb: "b' < length (m_branches sb)"
      using hs_bellman_backup_frame [OF b Suc.prems(2)] Suc.prems(2) by (simp add: same_shared_def)
    have ra: "hs_backward_loop N mu b n (Va, Ga, sa) = (V1, G1, s1)"
      using Suc.prems(4) unfolding Suc by (simp add: a)
    have rb: "hs_backward_loop N mu b' n (Va, Ga, sb) = (V1', G1', s1')"
      using Suc.prems(5) unfolding Suc by (simp add: b eq)
    from Suc.IH [OF la lb eq(3) ra rb] show ?thesis .
  qed
qed

lemma backup_loop:
  fixes s :: "('x::finite, 'u::finite) iLQRHindsightSolver"
  assumes f: "fold (backup_branch N T mu) [0..<length (m_branches s)] (s, V1s, G1s) = (s1, V1s', G1s')"
    and lens: "length V1s = length (m_branches s)" "length G1s = length (m_branches s)"
  shows "same_shared s s1 \<and>
         (\<forall>j<length (m_branches s). gains_frame (m_branches s ! j) (m_branches s1 ! j)) \<and>
         V1s' = map (\<lambda>b. fst (boundary_pair N T mu s b)) [0..<length (m_branches s)] \<and>
         G1s' = map (\<lambda>b. snd (boundary_pair N T mu s b)) [0..<length (m_branches s)]"
proof -
  let ?bs = "m_branches s"
  let ?n = "length ?bs"
  define P where "P k acc \<longleftrightarrow> (case acc of (sk, Vk, Gk) \<Rightarrow>
      same_shared s sk \<and>
      (\<forall>j<k. gains_frame (?bs ! j) (m_branches sk ! j)) \<and>
      (\<forall>j. k \<le> j \<longrightarrow> j < ?n \<longrightarrow> m_branches sk ! j = ?bs ! j) \<and>
      length Vk = ?n \<and> length Gk = ?n \<and>
      (\<forall>j<k. Vk ! j = fst (boundary_pair N T mu s j) \<and> Gk ! j = snd (boundary_pair N T mu s j)))"
    for k and acc :: "('x, 'u) iLQRHindsightSolver \<times> ('x, 'x) Matrix list \<times> 'x RowVector list"
  have step: "P (Suc k) (backup_branch N T mu k acc)" if k: "k < ?n" and p: "P k acc" for k acc
  proof -
    obtain sk Vk Gk where acc: "acc = (sk, Vk, Gk)" by (metis prod_cases3)
    have sh: "same_shared s sk" and bk: "m_branches sk ! k = ?bs ! k"
      and old: "\<forall>j<k. gains_frame (?bs ! j) (m_branches sk ! j)"
        "\<forall>j. k \<le> j \<longrightarrow> j < ?n \<longrightarrow> m_branches sk ! j = ?bs ! j"
        "length Vk = ?n" "length Gk = ?n"
        "\<forall>j<k. Vk ! j = fst (boundary_pair N T mu s j) \<and> Gk ! j = snd (boundary_pair N T mu s j)"
      using p k unfolding P_def acc by simp_all
    have lk: "k < length (m_branches sk)" using sh k by (simp add: same_shared_def)
    obtain QT gT where q: "quadratize_final_cost N (final_cost (?bs ! k)) (last (xhat (?bs ! k))) = (QT, gT)"
      by (metis surj_pair)
    obtain V1 G1 s' where l: "hs_backward_loop N mu k T (QT, mtranspose gT, sk) = (V1, G1, s')"
      by (metis prod_cases3)
    obtain V1o G1o so where lo: "hs_backward_loop N mu k T (QT, mtranspose gT, s) = (V1o, G1o, so)"
      by (metis prod_cases3)
    from hs_backward_loop_local [OF k lk bk [symmetric] lo l] have eq: "V1 = V1o" "G1 = G1o" by simp_all
    have bp: "boundary_pair N T mu s k = (V1, G1)"
      by (simp add: boundary_pair_def q lo eq)
    have r: "backup_branch N T mu k acc = (s', Vk[k := V1], Gk[k := G1])"
      by (simp add: backup_branch_def acc bk q l)
    from hs_backward_loop_frame [OF l lk] have
      fr: "same_shared sk s'" "gains_frame (m_branches sk ! k) (m_branches s' ! k)"
        "\<forall>j. j \<noteq> k \<longrightarrow> m_branches s' ! j = m_branches sk ! j"
      by simp_all
    show ?thesis
      unfolding r P_def prod.case
    proof (intro conjI allI impI)
      show "same_shared s s'" using sh fr(1) by (rule same_shared_trans)
      show "length (Vk[k := V1]) = ?n" "length (Gk[k := G1]) = ?n" using old by simp_all
    next
      fix j assume "j < Suc k"
      then show "gains_frame (?bs ! j) (m_branches s' ! j)"
        using fr(2,3) old(1) bk by (cases "j = k") (auto simp: less_Suc_eq)
    next
      fix j assume "Suc k \<le> j" "j < ?n"
      then show "m_branches s' ! j = ?bs ! j" using fr(3) old(2) by simp
    next
      fix j assume j: "j < Suc k"
      show "Vk[k := V1] ! j = fst (boundary_pair N T mu s j)"
        using j old k by (cases "j = k") (auto simp: bp less_Suc_eq)
      show "Gk[k := G1] ! j = snd (boundary_pair N T mu s j)"
        using j old k by (cases "j = k") (auto simp: bp less_Suc_eq)
    qed
  qed
  have "P 0 (s, V1s, G1s)" unfolding P_def using lens by simp
  from fold_upt [of ?n P "backup_branch N T mu", OF step this]
  have fin: "P ?n (s1, V1s', G1s')" unfolding f by simp
  have "V1s' = map (\<lambda>b. fst (boundary_pair N T mu s b)) [0..<?n]"
    using fin unfolding P_def by (intro nth_equalityI) simp_all
  moreover have "G1s' = map (\<lambda>b. snd (boundary_pair N T mu s b)) [0..<?n]"
    using fin unfolding P_def by (intro nth_equalityI) simp_all
  ultimately show ?thesis using fin unfolding P_def by simp
qed

section \<open>The copy of the shared gains and its checks\<close>

lemma for_loop_error:
  "for_loop is body s = Inl e \<Longrightarrow> \<exists>i s'. i \<in> set is \<and> body i s' = Inl e"
proof (induction "is" arbitrary: s)
  case Nil
  then show ?case by simp
next
  case (Cons a "is")
  show ?case
  proof (cases "body a s")
    case (Inl e')
    then show ?thesis using Cons.prems by auto
  next
    case (Inr s1)
    then have "for_loop is body s1 = Inl e" using Cons.prems by simp
    from Cons.IH [OF this] show ?thesis by auto
  qed
qed

lemma copy_first_cases:
  "copy_first N k s =
     (if first_agrees N (m_xhat0 s) (m_uhat0 s) (m_branches s ! k)
      then Inr (update_branch s k (put_gains (m_K0 s) (m_k0 s)))
      else Inl IS_TRUE_failed)" if "k < length (m_branches s)"
  using that
  by (auto simp: copy_first_def first_agrees_def put_gains_def update_branch_def Let_def check_defs)

lemma copy_loop_Inr:
  fixes s :: "('x, 'u) iLQRHindsightSolver"
  assumes "for_loop [0..<length (m_branches s)] (copy_first N) s = Inr s'"
  shows "s' = s\<lparr>m_branches := map (put_gains (m_K0 s) (m_k0 s)) (m_branches s)\<rparr> \<and>
         list_all (first_agrees N (m_xhat0 s) (m_uhat0 s)) (m_branches s)"
proof -
  let ?bs = "m_branches s"
  let ?n = "length ?bs"
  let ?f = "put_gains (m_K0 s) (m_k0 s)"
  define P where "P k sk \<longleftrightarrow>
      length (m_branches sk) = ?n \<and>
      (\<forall>j<k. m_branches sk ! j = ?f (?bs ! j) \<and> first_agrees N (m_xhat0 s) (m_uhat0 s) (?bs ! j)) \<and>
      (\<forall>j. k \<le> j \<longrightarrow> j < ?n \<longrightarrow> m_branches sk ! j = ?bs ! j) \<and>
      iLQRHindsightSolver.more sk = iLQRHindsightSolver.more s \<and>
      m_K0 sk = m_K0 s \<and> m_k0 sk = m_k0 s \<and> m_xhat0 sk = m_xhat0 s \<and> m_uhat0 sk = m_uhat0 s"
    for k and sk :: "('x, 'u) iLQRHindsightSolver"
  have step: "P (Suc k) sk'" if k: "k < ?n" and p: "P k sk" and b: "copy_first N k sk = Inr sk'"
    for k sk sk'
  proof -
    have len: "k < length (m_branches sk)" and bk: "m_branches sk ! k = ?bs ! k"
      and sh: "m_K0 sk = m_K0 s" "m_k0 sk = m_k0 s" "m_xhat0 sk = m_xhat0 s" "m_uhat0 sk = m_uhat0 s"
      using p k unfolding P_def by simp_all
    from b have ag: "first_agrees N (m_xhat0 s) (m_uhat0 s) (?bs ! k)"
      and sk': "sk' = update_branch sk k ?f"
      unfolding copy_first_cases [OF len] sh bk by (auto split: if_splits)
    have eq: "m_branches sk' ! j = (if j = k then ?f (?bs ! k) else m_branches sk ! j)" for j
      using len bk by (simp add: sk' update_branch_simps)
    show ?thesis
      unfolding P_def eq using p ag
      by (auto simp: P_def sk' update_branch_def less_Suc_eq)
  qed
  have "P 0 s" unfolding P_def by simp
  from for_loop_upt [of ?n P "copy_first N", OF step this assms] have fin: "P ?n s'" .
  have "m_branches s' = map ?f ?bs"
    using fin unfolding P_def by (intro nth_equalityI) simp_all
  then have "s' = s\<lparr>m_branches := map ?f ?bs\<rparr>"
    using fin unfolding P_def by (intro iLQRHindsightSolver.equality) simp_all
  moreover have "list_all (first_agrees N (m_xhat0 s) (m_uhat0 s)) ?bs"
    using fin unfolding P_def by (simp add: list_all_length)
  ultimately show ?thesis by simp
qed

lemma copy_loop_Inl:
  assumes "for_loop [0..<length (m_branches s)] (copy_first N) s = Inl e"
  shows "e = IS_TRUE_failed"
proof -
  from for_loop_error [OF assms] obtain i s' where "copy_first N i s' = Inl e" by blast
  then show ?thesis
    by (auto simp: copy_first_def Let_def check_defs split: if_splits)
qed

lemma copy_loop_total:
  fixes s :: "('x, 'u) iLQRHindsightSolver"
  assumes "list_all (first_agrees N (m_xhat0 s) (m_uhat0 s)) (m_branches s)"
  shows "\<exists>s'. for_loop [0..<length (m_branches s)] (copy_first N) s = Inr s'"
proof -
  let ?bs = "m_branches s"
  let ?n = "length ?bs"
  define P where "P k sk \<longleftrightarrow>
      length (m_branches sk) = ?n \<and>
      (\<forall>j. k \<le> j \<longrightarrow> j < ?n \<longrightarrow> m_branches sk ! j = ?bs ! j) \<and>
      m_xhat0 sk = m_xhat0 s \<and> m_uhat0 sk = m_uhat0 s"
    for k and sk :: "('x, 'u) iLQRHindsightSolver"
  have step: "\<exists>sk'. copy_first N k sk = Inr sk' \<and> P (Suc k) sk'" if k: "k < ?n" and p: "P k sk"
    for k sk
  proof -
    have len: "k < length (m_branches sk)" and bk: "m_branches sk ! k = ?bs ! k"
      and sh: "m_xhat0 sk = m_xhat0 s" "m_uhat0 sk = m_uhat0 s"
      using p k unfolding P_def by simp_all
    have ag: "first_agrees N (m_xhat0 s) (m_uhat0 s) (?bs ! k)"
      using assms k by (simp add: list_all_length)
    have "copy_first N k sk = Inr (update_branch sk k (put_gains (m_K0 sk) (m_k0 sk)))"
      unfolding copy_first_cases [OF len] sh bk using ag by simp
    moreover have "P (Suc k) (update_branch sk k (put_gains (m_K0 sk) (m_k0 sk)))"
      using p unfolding P_def by (simp add: update_branch_simps)
    ultimately show ?thesis by blast
  qed
  have "P 0 s" unfolding P_def by simp
  from for_loop_total [of ?n P "copy_first N", OF step this] show ?thesis by blast
qed

section \<open>The backward pass of the hindsight solver\<close>

lemma hs_backward_pass_Inr:
  fixes s :: "('x::finite, 'u::finite) iLQRHindsightSolver"
  assumes "hs_backward_pass N T mu s = Inr s'"
  shows "\<exists>s1 K0 k0. same_shared s s1 \<and>
           (\<forall>j<length (m_branches s). gains_frame (m_branches s ! j) (m_branches s1 ! j)) \<and>
           s' = s1\<lparr>m_branches := map (put_gains K0 k0) (m_branches s1), m_K0 := K0, m_k0 := k0\<rparr> \<and>
           list_all (first_agrees N (m_xhat0 s) (m_uhat0 s)) (m_branches s1)"
proof -
  let ?n = "length (m_branches s)"
  obtain s1 V1s G1s where
    f: "fold (backup_branch N T mu) [0..<?n] (s, replicate ?n mZero, replicate ?n mZero) = (s1, V1s, G1s)"
    by (metis prod_cases3)
  from backup_loop [OF f] have sh: "same_shared s s1"
    and gf: "\<forall>j<?n. gains_frame (m_branches s ! j) (m_branches s1 ! j)"
    by simp_all
  obtain K0 k0 where
    g: "merge_gains N (fold (merge_branch N mu s1 V1s G1s) [0..<?n] merge_zero) = (K0, k0)"
    by (metis surj_pair)
  have n1: "length (m_branches (s1\<lparr>m_K0 := K0, m_k0 := k0\<rparr>)) = ?n"
    using sh by (simp add: same_shared_def)
  have "for_loop [0..<length (m_branches (s1\<lparr>m_K0 := K0, m_k0 := k0\<rparr>))] (copy_first N)
      (s1\<lparr>m_K0 := K0, m_k0 := k0\<rparr>) = Inr s'"
    using assms unfolding hs_backward_pass_def Let_def f prod.case g n1 .
  from copy_loop_Inr [OF this] sh have
    "s' = s1\<lparr>m_branches := map (put_gains K0 k0) (m_branches s1), m_K0 := K0, m_k0 := k0\<rparr>"
    "list_all (first_agrees N (m_xhat0 s) (m_uhat0 s)) (m_branches s1)"
    by (simp_all add: same_shared_def)
  with sh gf show ?thesis by blast
qed

lemma first_agrees_frame:
  "gains_frame br br' \<Longrightarrow> first_agrees N x0 u0 br' = first_agrees N x0 u0 br"
  by (simp add: gains_frame_def first_agrees_def)

lemma hs_backward_pass_checks:
  fixes s :: "('x::finite, 'u::finite) iLQRHindsightSolver"
  shows "(\<exists>s'. hs_backward_pass N T mu s = Inr s') =
           list_all (first_agrees N (m_xhat0 s) (m_uhat0 s)) (m_branches s)"
    and "hs_backward_pass N T mu s = Inl e \<Longrightarrow> e = IS_TRUE_failed"
proof -
  let ?n = "length (m_branches s)"
  obtain s1 V1s G1s where
    f: "fold (backup_branch N T mu) [0..<?n] (s, replicate ?n mZero, replicate ?n mZero) = (s1, V1s, G1s)"
    by (metis prod_cases3)
  from backup_loop [OF f] have sh: "same_shared s s1"
    and gf: "\<forall>j<?n. gains_frame (m_branches s ! j) (m_branches s1 ! j)"
    by simp_all
  obtain K0 k0 where
    g: "merge_gains N (fold (merge_branch N mu s1 V1s G1s) [0..<?n] merge_zero) = (K0, k0)"
    by (metis surj_pair)
  let ?s2 = "s1\<lparr>m_K0 := K0, m_k0 := k0\<rparr>"
  have n1: "length (m_branches ?s2) = ?n"
    using sh by (simp add: same_shared_def)
  have bp: "hs_backward_pass N T mu s = for_loop [0..<length (m_branches ?s2)] (copy_first N) ?s2"
    unfolding hs_backward_pass_def Let_def f prod.case g n1 ..
  have ag: "list_all (first_agrees N (m_xhat0 ?s2) (m_uhat0 ?s2)) (m_branches ?s2) =
      list_all (first_agrees N (m_xhat0 s) (m_uhat0 s)) (m_branches s)"
  proof -
    have "first_agrees N (m_xhat0 s) (m_uhat0 s) (m_branches s1 ! j) =
        first_agrees N (m_xhat0 s) (m_uhat0 s) (m_branches s ! j)" if "j < ?n" for j
      using gf that by (intro first_agrees_frame) blast
    then show ?thesis using sh by (simp add: list_all_length same_shared_def)
  qed
  show "(\<exists>s'. hs_backward_pass N T mu s = Inr s') =
           list_all (first_agrees N (m_xhat0 s) (m_uhat0 s)) (m_branches s)"
    unfolding bp ag [symmetric] using copy_loop_Inr copy_loop_total by blast
  show "e = IS_TRUE_failed" if "hs_backward_pass N T mu s = Inl e"
    using that unfolding bp by (rule copy_loop_Inl)
qed

section \<open>The rounds keep the first slots shared\<close>

lemma branch_control_shared:
  "Ks br ! 0 = K0 \<Longrightarrow> ks br ! 0 = k0 \<Longrightarrow> xhat br ! 0 = x0 \<Longrightarrow> uhat br ! 0 = u0 \<Longrightarrow>
   branch_control br x 0 a = madd (madd (mmul K0 (msub x x0)) (mscale a k0)) u0"
  by (simp add: branch_control_def Let_def)

lemma commit_keeps_shared:
  fixes s :: "('x::finite, 'u) iLQRHindsightSolver"
  assumes sz: "hs_sized T s" and sh: "first_slot_shared s" and T: "0 < T"
  shows "hs_sized T (committed T x a s) \<and> first_slot_shared (committed T x a s)"
proof -
  let ?bs = "m_branches s"
  let ?u = "madd (madd (mmul (m_K0 s) (msub x (m_xhat0 s))) (mscale a (m_k0 s))) (m_uhat0 s)"
  have ne: "?bs \<noteq> []" using sz by (simp add: hs_sized_def)
  have u: "uhat (commit_rollout T x a b) ! 0 = ?u" if "b \<in> set ?bs" for b
    using sh that T by (simp add: commit_rollout_simps first_slot_shared_def branch_control_shared)
  have x0: "m_xhat0 (committed T x a s) = x" by (simp add: committed_def commit_rollout_simps)
  have u0: "m_uhat0 (committed T x a s) = ?u" using ne u [of "?bs ! 0"] by (simp add: committed_def)
  have "hs_sized T (committed T x a s)"
    using sz by (auto simp: committed_def hs_sized_def list_all_iff commit_rollout_sized)
  moreover have "first_slot_shared (committed T x a s)"
    unfolding first_slot_shared_def x0 u0
    using sh u by (auto simp: committed_def commit_rollout_simps first_slot_shared_def)
  ultimately show ?thesis by simp
qed

lemma hs_round:
  fixes s :: "('x::finite, 'u::finite) iLQRHindsightSolver"
  assumes sz: "hs_sized T s"
    and ls: "line_search (probe (expected_cost s x)) old ccr a = Some (Inr (u, nc, ratio, alpha'))"
  shows "hs_solve_loop N T' x mu ccr a (Suc n) s old =
     (if dbl_less ratio (Fin ccr) then Some (Inr (committed T x (1 / beta * alpha') s))
      else case hs_backward_pass N T' mu (committed T x (1 / beta * alpha') s) of
             Inl e \<Rightarrow> Some (Inl e)
           | Inr s3 \<Rightarrow> hs_solve_loop N T' x mu ccr a n s3 nc)"
proof -
  let ?bs = "m_branches s"
  let ?al = "1 / beta * alpha'"
  have ne: "?bs \<noteq> []" using sz by (simp add: hs_sized_def)
  have cl: "for_loop [0..<length ?bs] (commit_branch x ?al)
      (s, replicate (length ?bs) mZero, replicate (length ?bs) mZero) =
     Inr (s\<lparr>m_branches := map (commit_rollout T x ?al) ?bs\<rparr>,
          map (\<lambda>b. xhat (commit_rollout T x ?al b) ! 0) ?bs,
          map (\<lambda>b. uhat (commit_rollout T x ?al b) ! 0) ?bs)"
    by (rule commit_loop [OF sz]) simp_all
  have c: "s\<lparr>m_branches := map (commit_rollout T x ?al) ?bs\<rparr>
      \<lparr>m_xhat0 := map (\<lambda>b. xhat (commit_rollout T x ?al b) ! 0) ?bs ! 0,
       m_uhat0 := map (\<lambda>b. uhat (commit_rollout T x ?al b) ! 0) ?bs ! 0\<rparr> = committed T x ?al s"
    using ne by (simp add: committed_def)
  show ?thesis
    unfolding hs_solve_loop.simps ls option.case sum.case prod.case Let_def cl c ..
qed

lemma put_gains_simps:
  "dynamics (put_gains K0 k0 br) = dynamics br" "cost (put_gains K0 k0 br) = cost br"
  "final_cost (put_gains K0 k0 br) = final_cost br"
  "probability (put_gains K0 k0 br) = probability br"
  "xhat (put_gains K0 k0 br) = xhat br" "uhat (put_gains K0 k0 br) = uhat br"
  "length (Ks (put_gains K0 k0 br)) = length (Ks br)"
  "length (ks (put_gains K0 k0 br)) = length (ks br)"
  "0 < length (Ks br) \<Longrightarrow> Ks (put_gains K0 k0 br) ! 0 = K0"
  "0 < length (ks br) \<Longrightarrow> ks (put_gains K0 k0 br) ! 0 = k0"
  by (simp_all add: put_gains_def)



section \<open>The start of the hindsight solver\<close>

lemma fold_update_branch:
  fixes s :: "('x, 'u) iLQRHindsightSolver"
  shows "fold (\<lambda>k s. update_branch s k f) [0..<length (m_branches s)] s =
     s\<lparr>m_branches := map f (m_branches s)\<rparr>"
proof -
  let ?bs = "m_branches s"
  let ?n = "length ?bs"
  define P where "P k sk \<longleftrightarrow>
      length (m_branches sk) = ?n \<and>
      (\<forall>j<k. m_branches sk ! j = f (?bs ! j)) \<and>
      (\<forall>j. k \<le> j \<longrightarrow> j < ?n \<longrightarrow> m_branches sk ! j = ?bs ! j) \<and>
      iLQRHindsightSolver.more sk = iLQRHindsightSolver.more s \<and>
      m_K0 sk = m_K0 s \<and> m_k0 sk = m_k0 s \<and> m_xhat0 sk = m_xhat0 s \<and> m_uhat0 sk = m_uhat0 s"
    for k and sk :: "('x, 'u) iLQRHindsightSolver"
  have step: "P (Suc k) (update_branch sk k f)" if k: "k < ?n" and p: "P k sk" for k sk
  proof -
    have len: "k < length (m_branches sk)" and bk: "m_branches sk ! k = ?bs ! k"
      using p k unfolding P_def by simp_all
    have eq: "m_branches (update_branch sk k f) ! j = (if j = k then f (?bs ! k) else m_branches sk ! j)"
      for j using len bk by (simp add: update_branch_simps)
    show ?thesis
      unfolding P_def eq using p by (auto simp: P_def update_branch_def less_Suc_eq)
  qed
  have "P 0 s" unfolding P_def by simp
  from fold_upt [of ?n P "\<lambda>k s. update_branch s k f", OF step this]
  have fin: "P ?n (fold (\<lambda>k s. update_branch s k f) [0..<?n] s)" .
  then have "m_branches (fold (\<lambda>k s. update_branch s k f) [0..<?n] s) = map f ?bs"
    unfolding P_def by (intro nth_equalityI) simp_all
  then show ?thesis using fin unfolding P_def by (intro iLQRHindsightSolver.equality) simp_all
qed

lemma cold_start_eq:
  "cold_start s T u = s\<lparr>m_branches := map (cold_branch T u) (m_branches s),
       m_K0 := mZero, m_k0 := mZero, m_xhat0 := mZero, m_uhat0 := u\<rparr>"
proof -
  let ?s0 = "s\<lparr>m_xhat0 := mZero, m_uhat0 := u, m_K0 := mZero, m_k0 := mZero\<rparr>"
  have "cold_start s T u = fold (\<lambda>k s. update_branch s k (cold_branch T u)) [0..<length (m_branches ?s0)] ?s0"
    by (simp add: cold_start_def cold_branch_def [abs_def])
  also have "\<dots> = ?s0\<lparr>m_branches := map (cold_branch T u) (m_branches ?s0)\<rparr>"
    by (rule fold_update_branch)
  finally show ?thesis by simp
qed

lemma cold_start_shared:
  "m_branches s \<noteq> [] \<Longrightarrow> 0 < T \<Longrightarrow>
   hs_sized T (cold_start s T u) \<and> first_slot_shared (cold_start s T u)"
  by (auto simp: cold_start_eq hs_sized_def first_slot_shared_def cold_branch_def branch_sized_def
      list_all_iff)



lemma expected_cost_sized:
  fixes s :: "('x::finite, 'u) iLQRHindsightSolver"
  assumes sz: "hs_sized T s"
  shows "expected_cost s x a = Inr ((), expected_rollout_cost (m_branches s) T x a)"
proof -
  let ?bs = "m_branches s"
  let ?body = "\<lambda>branch_num new_cost.
                case hs_forward_pass s branch_num x a of
                  Inl e \<Rightarrow> Inl e
                | Inr (rollout, branch_new_cost) \<Rightarrow>
                    Inr (new_cost + probability (m_branches s ! branch_num) * branch_new_cost)"
  define P where "P k c \<longleftrightarrow> c = expected_rollout_cost (take k ?bs) T x a" for k and c :: real
  have step: "\<exists>c'. ?body k c = Inr c' \<and> P (Suc k) c'" if "k < length ?bs" and "P k c" for k c
    using that
    by (simp add: hs_forward_pass_sized [OF sz] P_def expected_rollout_cost_def
        take_Suc_conv_app_nth split: prod.splits)
  have "P 0 0" by (simp add: P_def expected_rollout_cost_def)
  from for_loop_total [of "length ?bs" P ?body, OF step this]
  have "for_loop [0..<length ?bs] ?body 0 = Inr (expected_rollout_cost ?bs T x a)"
    by (auto simp: P_def)
  then show ?thesis by (simp add: expected_cost_def)
qed

lemma hs_solve_loop_one_round:
  fixes s :: "('x::finite, 'u::finite) iLQRHindsightSolver"
  assumes sz: "hs_sized T s" and sh: "first_slot_shared s" and T: "0 < T"
    and refl: "\<And>v. is_equal_x N v v" "\<And>v. is_equal_u N v v"
  shows "\<exists>s'. hs_solve_loop N T' x mu ccr a (Suc 0) s PInf = Some (Inr s')"
proof -
  let ?c = "expected_rollout_cost (m_branches s) T x a"
  have ls: "line_search (probe (expected_cost s x)) PInf ccr a = Some (Inr ((), Fin ?c, PInf, a * beta))"
    by (rule line_search_first [OF probe_Inr [OF expected_cost_sized [OF sz]]])
  let ?s2 = "committed T x (1 / beta * (a * beta)) s"
  from commit_keeps_shared [OF sz sh T] have "first_slot_shared ?s2" by blast
  then have "list_all (first_agrees N (m_xhat0 ?s2) (m_uhat0 ?s2)) (m_branches ?s2)"
    by (simp add: first_slot_shared_def list_all_iff first_agrees_def refl)
  then obtain s3 where "hs_backward_pass N T' mu ?s2 = Inr s3"
    using hs_backward_pass_checks(1) [of N T' mu ?s2] by blast
  then show ?thesis
    unfolding hs_round [OF sz ls] by simp
qed

lemma hs_solve_one_round:
  fixes s :: "('x::finite, 'u::finite) iLQRHindsightSolver"
  assumes "1 < T" "0 \<le> mu" "0 < ccr" "0 < a" "0 \<le> t_off"
    and "\<bar>total_branch_probability (m_branches s) - 1\<bar> \<le> 1 / 1000"
    and refl: "\<And>v. is_equal_x N v v" "\<And>v. is_equal_u N v v"
  shows "\<exists>s'. hs_solve N s T x u mu 1 ccr a False t_off = Some (Inr s')"
proof -
  have ne: "m_branches s \<noteq> []"
    using assms(6) by (auto simp: total_branch_probability_def)
  have T': "0 < nat T" using assms(1) by simp
  have "hs_solve N s T x u mu 1 ccr a False t_off =
      hs_solve_loop N (nat T) x mu ccr a (Suc 0) (cold_start s (nat T) u) PInf"
    using assms(1-6) by (simp add: hs_solve_def hs_initialize_def check_defs del: hs_solve_loop.simps)
  then show ?thesis
    using hs_solve_loop_one_round [OF _ _ T' refl, where s = "cold_start s (nat T) u"]
      cold_start_shared [OF ne T'] by simp
qed

section \<open>The merge at the first time step\<close>

lemma madd_mZero_left [simp]: "madd mZero X = X"
  by (simp add: madd_def mZero_def)

lemma merge_branch_additive:
  "weighted_inv_term (merge_branch N mu s V1s G1s b w) =
     madd (weighted_inv_term w) (weighted_inv_term (merge_term N mu s V1s G1s b))"
  "weighted_Kt_term (merge_branch N mu s V1s G1s b w) =
     madd (weighted_Kt_term w) (weighted_Kt_term (merge_term N mu s V1s G1s b))"
  "weighted_kt_term (merge_branch N mu s V1s G1s b w) =
     madd (weighted_kt_term w) (weighted_kt_term (merge_term N mu s V1s G1s b))"
  "wR (merge_branch N mu s V1s G1s b w) = madd (wR w) (wR (merge_term N mu s V1s G1s b))"
  "wP (merge_branch N mu s V1s G1s b w) = madd (wP w) (wP (merge_term N mu s V1s G1s b))"
  "wg_u (merge_branch N mu s V1s G1s b w) = madd (wg_u w) (wg_u (merge_term N mu s V1s G1s b))"
  by (simp_all add: merge_term_def merge_branch_def merge_zero_def Let_def split: prod.splits)

lemma merge_loop:
  fixes s :: "('x::finite, 'u::finite) iLQRHindsightSolver" and N mu V1s G1s n
  defines "w \<equiv> fold (merge_branch N mu s V1s G1s) [0..<n] merge_zero"
  shows "weighted_inv_term w = msum (map (\<lambda>b. weighted_inv_term (merge_term N mu s V1s G1s b)) [0..<n])"
    "weighted_Kt_term w = msum (map (\<lambda>b. weighted_Kt_term (merge_term N mu s V1s G1s b)) [0..<n])"
    "weighted_kt_term w = msum (map (\<lambda>b. weighted_kt_term (merge_term N mu s V1s G1s b)) [0..<n])"
    "wR w = msum (map (\<lambda>b. wR (merge_term N mu s V1s G1s b)) [0..<n])"
    "wP w = msum (map (\<lambda>b. wP (merge_term N mu s V1s G1s b)) [0..<n])"
    "wg_u w = msum (map (\<lambda>b. wg_u (merge_term N mu s V1s G1s b)) [0..<n])"
proof -
  define P where "P k w \<longleftrightarrow>
      weighted_inv_term w = msum (map (\<lambda>b. weighted_inv_term (merge_term N mu s V1s G1s b)) [0..<k]) \<and>
      weighted_Kt_term w = msum (map (\<lambda>b. weighted_Kt_term (merge_term N mu s V1s G1s b)) [0..<k]) \<and>
      weighted_kt_term w = msum (map (\<lambda>b. weighted_kt_term (merge_term N mu s V1s G1s b)) [0..<k]) \<and>
      wR w = msum (map (\<lambda>b. wR (merge_term N mu s V1s G1s b)) [0..<k]) \<and>
      wP w = msum (map (\<lambda>b. wP (merge_term N mu s V1s G1s b)) [0..<k]) \<and>
      wg_u w = msum (map (\<lambda>b. wg_u (merge_term N mu s V1s G1s b)) [0..<k])"
    for k and w :: "('x, 'u) merge_terms"
  have step: "P (Suc k) (merge_branch N mu s V1s G1s k w)" if "k < n" and "P k w" for k w
    using that(2) unfolding P_def by (simp add: merge_branch_additive msum_snoc)
  have "P 0 merge_zero" unfolding P_def by (simp add: msum_Nil merge_zero_def)
  from fold_upt [of n P "merge_branch N mu s V1s G1s", OF step this] have "P n w"
    unfolding w_def .
  then show
    "weighted_inv_term w = msum (map (\<lambda>b. weighted_inv_term (merge_term N mu s V1s G1s b)) [0..<n])"
    "weighted_Kt_term w = msum (map (\<lambda>b. weighted_Kt_term (merge_term N mu s V1s G1s b)) [0..<n])"
    "weighted_kt_term w = msum (map (\<lambda>b. weighted_kt_term (merge_term N mu s V1s G1s b)) [0..<n])"
    "wR w = msum (map (\<lambda>b. wR (merge_term N mu s V1s G1s b)) [0..<n])"
    "wP w = msum (map (\<lambda>b. wP (merge_term N mu s V1s G1s b)) [0..<n])"
    "wg_u w = msum (map (\<lambda>b. wg_u (merge_term N mu s V1s G1s b)) [0..<n])"
    unfolding P_def by simp_all
qed

lemma msum_madd: "madd (msum (map f l)) (msum (map g l)) = msum (map (\<lambda>b. madd (f b) (g b)) l)"
  by (simp add: msum_def madd_def fun_eq_iff comp_def sum_list_addf)

lemma mtranspose_msum: "mtranspose (msum (map f l)) = msum (map (\<lambda>b. mtranspose (f b)) l)"
  by (simp add: msum_def mtranspose_def comp_def)

lemma madd_commute: "madd X Y = madd Y X"
  by (simp add: madd_def add.commute)

lemma mscale_madd: "madd (mscale c X) (mscale c Y) = mscale c (madd X Y)"
  by (simp add: madd_def mscale_def distrib_left)

lemma mtranspose_mscale: "mtranspose (mscale c X) = mscale c (mtranspose X)"
  by (simp add: mtranspose_def mscale_def)

lemma hs_backward_loop_steps:
  "hs_backward_loop N mu b T acc =
     fold (\<lambda>t (V, G, s). hs_bellman_backup N s b t mu V G) (rev [1..<T]) acc"
proof (induction T arbitrary: acc)
  case 0
  then show ?case by simp
next
  case (Suc T)
  show ?case
  proof (cases T)
    case 0
    then show ?thesis by simp
  next
    case (Suc t)
    obtain V G s where acc: "acc = (V, G, s)" by (metis prod_cases3)
    have "hs_backward_loop N mu b (Suc T) acc =
        hs_backward_loop N mu b T (hs_bellman_backup N s b T mu V G)"
      unfolding Suc acc by simp
    also have "\<dots> = fold (\<lambda>t (V, G, s). hs_bellman_backup N s b t mu V G) (rev [1..<T])
        (hs_bellman_backup N s b T mu V G)"
      by (rule Suc.IH)
    also have "\<dots> = fold (\<lambda>t (V, G, s). hs_bellman_backup N s b t mu V G) (rev [1..<Suc T]) acc"
      unfolding Suc acc by simp
    finally show ?thesis .
  qed
qed

lemma hs_backward_pass_gains:
  fixes s :: "('x::finite, 'u::finite) iLQRHindsightSolver"
  assumes "hs_backward_pass N T mu s = Inr s'"
  shows "\<exists>s1 V1s G1s.
      fold (backup_branch N T mu) [0..<length (m_branches s)]
        (s, replicate (length (m_branches s)) mZero, replicate (length (m_branches s)) mZero)
        = (s1, V1s, G1s) \<and>
      (m_K0 s', m_k0 s') = merge_gains N
        (fold (merge_branch N mu s1 V1s G1s) [0..<length (m_branches s)] merge_zero)"
proof -
  let ?n = "length (m_branches s)"
  obtain s1 V1s G1s where
    f: "fold (backup_branch N T mu) [0..<?n] (s, replicate ?n mZero, replicate ?n mZero) = (s1, V1s, G1s)"
    by (metis prod_cases3)
  from backup_loop [OF f] have sh: "same_shared s s1" by simp
  obtain K0 k0 where
    g: "merge_gains N (fold (merge_branch N mu s1 V1s G1s) [0..<?n] merge_zero) = (K0, k0)"
    by (metis surj_pair)
  have n1: "length (m_branches (s1\<lparr>m_K0 := K0, m_k0 := k0\<rparr>)) = ?n"
    using sh by (simp add: same_shared_def)
  have "for_loop [0..<length (m_branches (s1\<lparr>m_K0 := K0, m_k0 := k0\<rparr>))] (copy_first N)
      (s1\<lparr>m_K0 := K0, m_k0 := k0\<rparr>) = Inr s'"
    using assms unfolding hs_backward_pass_def Let_def f prod.case g n1 .
  from copy_loop_Inr [OF this] have "m_K0 s' = K0" "m_k0 s' = k0" by simp_all
  then show ?thesis using f g by simp
qed

text \<open>
  Claim C2.  The sweep of a branch runs the backup for \<open>t = T - 1\<close> down to \<open>t = 1\<close> and
  for no other step, and ends in the boundary pair of the branch.  When the backward pass of a
  round succeeds, the shared gains it leaves are the probability-weighted merge of the branches
  at the shared linearisation point: \<open>K0 = - Hbar\<^sup>-\<^sup>1 Mbar\<close> and \<open>k0 = - Hbar\<^sup>-\<^sup>1 mbar\<close>
  with \<open>Hbar\<close>, \<open>Mbar\<close> and \<open>mbar\<close> formed from the boundary pairs as \<open>merged_first_gains\<close>
  states.
\<close>

theorem first_gains_are_the_weighted_merge:
  fixes s :: "('x::finite, 'u::finite) iLQRHindsightSolver"
  assumes "hs_backward_pass N T mu s = Inr s'"
  shows "(m_K0 s', m_k0 s') =
           merged_first_gains N mu s (\<lambda>b. fst (boundary_pair N T mu s b))
             (\<lambda>b. snd (boundary_pair N T mu s b)) \<and>
         hs_backward_loop N mu b T acc =
           fold (\<lambda>t (V, G, s). hs_bellman_backup N s b t mu V G) (rev [1..<T]) acc"
proof
  let ?n = "length (m_branches s)"
  let ?V1 = "\<lambda>b. fst (boundary_pair N T mu s b)"
  let ?g1 = "\<lambda>b. snd (boundary_pair N T mu s b)"
  from hs_backward_pass_gains [OF assms] obtain s1 V1s G1s where
    f: "fold (backup_branch N T mu) [0..<?n] (s, replicate ?n mZero, replicate ?n mZero) = (s1, V1s, G1s)"
    and g: "(m_K0 s', m_k0 s') = merge_gains N (fold (merge_branch N mu s1 V1s G1s) [0..<?n] merge_zero)"
    by blast
  from backup_loop [OF f] have sh: "same_shared s s1"
    and gf: "\<forall>j<?n. gains_frame (m_branches s ! j) (m_branches s1 ! j)"
    and V1s: "V1s = map ?V1 [0..<?n]" and G1s: "G1s = map ?g1 [0..<?n]"
    by simp_all
  let ?lin = "\<lambda>b. linearize_dynamics N (dynamics (m_branches s ! b)) (m_xhat0 s) (m_uhat0 s)"
  let ?quad = "\<lambda>b. quadratize_cost N (cost (m_branches s ! b)) 0 (m_xhat0 s) (m_uhat0 s)"
  let ?p = "\<lambda>b. probability (m_branches s ! b)"
  let ?mt = "merge_term N mu s1 V1s G1s"
  have fr: "dynamics (m_branches s1 ! b) = dynamics (m_branches s ! b)"
    "cost (m_branches s1 ! b) = cost (m_branches s ! b)"
    "probability (m_branches s1 ! b) = probability (m_branches s ! b)"
    "m_xhat0 s1 = m_xhat0 s" "m_uhat0 s1 = m_uhat0 s"
    "V1s ! b = ?V1 b" "G1s ! b = ?g1 b" if "b < ?n" for b
    using gf sh that by (simp_all add: gains_frame_def same_shared_def V1s G1s)
  have H: "madd (wR (?mt b)) (weighted_inv_term (?mt b)) =
      (case ?lin b of (A, B) \<Rightarrow> case ?quad b of (Q, R, P, g_x, g_u) \<Rightarrow>
         mscale (?p b) (madd R (mmul (mmul (mtranspose B) (madd (?V1 b) (mscale mu mIdentity))) B)))"
    if "b < ?n" for b
    by (simp add: merge_term_def merge_branch_def merge_zero_def Let_def fr [OF that] mscale_madd
        split: prod.splits)
  have M: "madd (mtranspose (wP (?mt b))) (weighted_Kt_term (?mt b)) =
      (case ?lin b of (A, B) \<Rightarrow> case ?quad b of (Q, R, P, g_x, g_u) \<Rightarrow>
         mscale (?p b) (madd (mtranspose P)
           (mmul (mmul (mtranspose B) (madd (?V1 b) (mscale mu mIdentity))) A)))"
    if "b < ?n" for b
    by (simp add: merge_term_def merge_branch_def merge_zero_def Let_def fr [OF that] mscale_madd
        mtranspose_mscale split: prod.splits)
  have m1: "weighted_kt_term (?mt b) =
      (case ?lin b of (A, B) \<Rightarrow> mscale (?p b) (mmul (mtranspose B) (mtranspose (?g1 b))))"
    if "b < ?n" for b
    by (simp add: merge_term_def merge_branch_def merge_zero_def Let_def fr [OF that]
        split: prod.splits)
  have m2: "wg_u (?mt b) = (case ?quad b of (Q, R, P, g_x, g_u) \<Rightarrow> mscale (?p b) g_u)"
    if "b < ?n" for b
    by (simp add: merge_term_def merge_branch_def merge_zero_def Let_def fr [OF that]
        split: prod.splits)
  let ?w = "fold (merge_branch N mu s1 V1s G1s) [0..<?n] merge_zero"
  note ml = merge_loop [of N mu s1 V1s G1s ?n]
  have Hs: "madd (wR ?w) (weighted_inv_term ?w) =
      msum (map (\<lambda>b. case ?lin b of (A, B) \<Rightarrow> case ?quad b of (Q, R, P, g_x, g_u) \<Rightarrow>
         mscale (?p b) (madd R (mmul (mmul (mtranspose B) (madd (?V1 b) (mscale mu mIdentity))) B)))
        [0..<?n])"
    unfolding ml msum_madd by (rule arg_cong [where f = msum], rule map_cong) (simp_all add: H)
  have Ms: "madd (mtranspose (wP ?w)) (weighted_Kt_term ?w) =
      msum (map (\<lambda>b. case ?lin b of (A, B) \<Rightarrow> case ?quad b of (Q, R, P, g_x, g_u) \<Rightarrow>
         mscale (?p b) (madd (mtranspose P)
           (mmul (mmul (mtranspose B) (madd (?V1 b) (mscale mu mIdentity))) A))) [0..<?n])"
    unfolding ml mtranspose_msum msum_madd
    by (rule arg_cong [where f = msum], rule map_cong) (simp_all add: M)
  have m1s: "weighted_kt_term ?w =
      msum (map (\<lambda>b. case ?lin b of (A, B) \<Rightarrow>
        mscale (?p b) (mmul (mtranspose B) (mtranspose (?g1 b)))) [0..<?n])"
    unfolding ml by (rule arg_cong [where f = msum], rule map_cong) (simp_all add: m1)
  have m2s: "wg_u ?w =
      msum (map (\<lambda>b. case ?quad b of (Q, R, P, g_x, g_u) \<Rightarrow> mscale (?p b) g_u) [0..<?n])"
    unfolding ml by (rule arg_cong [where f = msum], rule map_cong) (simp_all add: m2)
  have "merge_gains N ?w =
      (mneg (mmul (minverse N (madd (wR ?w) (weighted_inv_term ?w)))
               (madd (mtranspose (wP ?w)) (weighted_Kt_term ?w))),
       mneg (mmul (minverse N (madd (wR ?w) (weighted_inv_term ?w)))
               (madd (weighted_kt_term ?w) (wg_u ?w))))"
    unfolding merge_gains_def Let_def mscale_minus_one mmul_mneg_left
    by (simp add: madd_commute [of "wg_u ?w"])
  also have "\<dots> = merged_first_gains N mu s ?V1 ?g1"
    unfolding Hs Ms m1s m2s merged_first_gains_def Let_def ..
  finally show "(m_K0 s', m_k0 s') = merged_first_gains N mu s ?V1 ?g1"
    unfolding g .
  show "hs_backward_loop N mu b T acc =
           fold (\<lambda>t (V, G, s). hs_bellman_backup N s b t mu V G) (rev [1..<T]) acc"
    by (rule hs_backward_loop_steps)
qed

lemma merge_example_boundary:
  "boundary_pair merge_numerics 2 0 merge_example 0 = (scalar (3 / 2), mZero)"
  "boundary_pair merge_numerics 2 0 merge_example 1 = (scalar (5 / 2), mZero)"
  by (simp_all add: boundary_pair_def merge_example_def merge_numerics_def scalar_hindsight_def
      scalar_branch_def hs_bellman_backup_def numeral_2_eq_2 Let_def scalar_defs matrix_defs
      fun_eq_iff)

theorem first_gains_are_the_weighted_merge_witness:
  "\<exists>s'. hs_backward_pass merge_numerics 2 0 merge_example = Inr s' \<and>
        m_K0 s' = scalar (- 9 / 13) \<and> m_k0 s' = mZero"
proof -
  have "list_all (first_agrees merge_numerics (m_xhat0 merge_example) (m_uhat0 merge_example))
      (m_branches merge_example)"
    by (simp add: first_agrees_def merge_example_def merge_numerics_def scalar_hindsight_def
        scalar_branch_def)
  then obtain s' where r: "hs_backward_pass merge_numerics 2 0 merge_example = Inr s'"
    using hs_backward_pass_checks(1) [of merge_numerics 2 0 merge_example] by blast
  have "merged_first_gains merge_numerics 0 merge_example
      (\<lambda>b. fst (boundary_pair merge_numerics 2 0 merge_example b))
      (\<lambda>b. snd (boundary_pair merge_numerics 2 0 merge_example b)) = (scalar (- 9 / 13), mZero)"
  proof -
    have len: "length (m_branches merge_example) = 2"
      by (simp add: merge_example_def scalar_hindsight_def)
    have upt: "[0..<2] = [0, 1 :: nat]" by (simp add: upt_rec)
    show ?thesis
      unfolding merged_first_gains_def Let_def len upt list.map merge_example_boundary
        fst_conv snd_conv
      by (simp add: merge_example_def scalar_hindsight_def merge_numerics_def scalar_branch_def
          scalar_defs matrix_defs msum_def fun_eq_iff)
  qed
  with first_gains_are_the_weighted_merge [OF r] r show ?thesis by auto
qed

section \<open>A single branch of probability one\<close>

lemma single_of_simps [simp]:
  "m_dynamics (single_of br) = dynamics br" "m_final_cost (single_of br) = final_cost br"
  "m_cost (single_of br) = cost br" "m_Ks (single_of br) = Ks br" "m_ks (single_of br) = ks br"
  "m_uhat (single_of br) = uhat br" "m_xhat (single_of br) = xhat br"
  by (simp_all add: single_of_def)

lemma sized_single_of: "sized T (single_of br) = branch_sized T br"
  by (simp add: sized_def branch_sized_def)

lemma forward_step_single: "forward_step (single_of br) a = hs_forward_step br a"
  by (simp add: forward_step_def hs_forward_step_def compute_control_stepsize_def
      branch_control_def fun_eq_iff Let_def)

lemma forward_pass_single:
  "branch_sized T br \<Longrightarrow> forward_pass (single_of br) x a = Inr (branch_rollout br T x a)"
  by (simp add: forward_pass_def timesteps_sized sized_single_of forward_step_single
      branch_rollout_def split: prod.splits)

lemma expected_cost_single:
  assumes "m_branches s = [br]" and "branch_sized T br" and "probability br = 1"
  shows "expected_cost s x a = Inr ((), snd (branch_rollout br T x a))"
proof -
  have "hs_sized T s" using assms by (simp add: hs_sized_def)
  from expected_cost_sized [OF this] show ?thesis
    using assms by (simp add: expected_rollout_cost_def)
qed

lemma stops_cost_only:
  assumes "\<And>a. fp a = Inr (r a, c a)" and "\<And>a. fp' a = Inr (r' a, c a)"
  shows "stops fp' old ccr a = stops fp old ccr a"
  by (simp add: stops_def assms)

lemma line_search_cost_only:
  assumes fp: "\<And>a. fp a = Inr (r a, c a)" and fp': "\<And>a. fp' a = Inr (r' a, c a)"
  shows "line_search fp' old ccr alpha =
     map_option (map_sum id (\<lambda>(rollout, rest). (r' (snd (snd rest) / beta), rest)))
       (line_search fp old ccr alpha)"
proof -
  have b: "a * beta / beta = a" for a by (simp add: beta_def)
  have o: "outcome fp' old a = map_sum id (\<lambda>(rollout, rest). (r' (snd (snd rest) / beta), rest))
      (outcome fp old a)" for a
    by (simp add: outcome_def fp fp' b)
  show ?thesis
    unfolding line_search_char stops_cost_only [of fp r c fp' r', OF fp fp'] o by simp
qed

lemma line_search_rollout:
  assumes fp: "\<And>a. fp a = Inr (r a, c a)"
    and "line_search fp old ccr alpha = Some (Inr (rollout, nc, ratio, alpha'))"
  shows "rollout = r (1 / beta * alpha')"
proof -
  have b: "a * beta / beta = a" for a by (simp add: beta_def)
  from assms(2) obtain a where "outcome fp old a = Inr (rollout, nc, ratio, alpha')"
    unfolding line_search_char by (auto split: if_splits)
  then show ?thesis by (auto simp: outcome_def fp b)
qed

lemma mscale_one [simp]: "mscale 1 X = X"
  by (simp add: mscale_def)

lemma backup_single:
  assumes "m_branches hs = [br]"
  shows "hs_bellman_backup N hs 0 t mu V G =
     (case bellman_backup N (single_of br) t mu V G of (Vt, Gt, Kt, kt) \<Rightarrow>
        (Vt, Gt, hs\<lparr>m_branches := [br\<lparr>Ks := (Ks br)[t := Kt], ks := (ks br)[t := kt]\<rparr>]\<rparr>))"
  unfolding hs_bellman_backup_def bellman_backup_def
  by (simp add: assms Let_def split: prod.splits)

lemma sweep_single:
  fixes hs :: "('x::finite, 'u::finite) iLQRHindsightSolver"
  assumes "m_branches hs = [br]"
  shows "\<exists>V' G' br'. hs_backward_loop N mu 0 (Suc n) (V, G, hs) = (V', G', hs\<lparr>m_branches := [br']\<rparr>) \<and>
           backward_loop N mu (Suc n) (V, G, single_of br) =
             backward_loop N mu (Suc 0) (V', G', single_of br') \<and>
           gains_frame br br'"
  using assms
proof (induction n arbitrary: V G hs br)
  case 0
  have "hs = hs\<lparr>m_branches := [br]\<rparr>" using 0 by simp
  then have "hs_backward_loop N mu 0 (Suc 0) (V, G, hs) = (V, G, hs\<lparr>m_branches := [br]\<rparr>)"
    by simp
  then show ?case using gains_frame_refl by blast
next
  case (Suc n)
  obtain Vt Gt Kt kt where bb: "bellman_backup N (single_of br) (Suc n) mu V G = (Vt, Gt, Kt, kt)"
    by (metis prod_cases4)
  let ?br1 = "br\<lparr>Ks := (Ks br)[Suc n := Kt], ks := (ks br)[Suc n := kt]\<rparr>"
  let ?hs1 = "hs\<lparr>m_branches := [?br1]\<rparr>"
  have hb: "hs_bellman_backup N hs 0 (Suc n) mu V G = (Vt, Gt, ?hs1)"
    by (simp add: backup_single [OF Suc.prems] bb)
  have "m_branches ?hs1 = [?br1]" by simp
  from Suc.IH [OF this, of Vt Gt] obtain V' G' br' where
    a: "hs_backward_loop N mu 0 (Suc n) (Vt, Gt, ?hs1) = (V', G', ?hs1\<lparr>m_branches := [br']\<rparr>)"
    and b: "backward_loop N mu (Suc n) (Vt, Gt, single_of ?br1) =
             backward_loop N mu (Suc 0) (V', G', single_of br')"
    and c: "gains_frame ?br1 br'"
    by blast
  have s1: "(single_of br)\<lparr>m_Ks := (m_Ks (single_of br))[Suc n := Kt],
       m_ks := (m_ks (single_of br))[Suc n := kt]\<rparr> = single_of ?br1"
    by (simp add: single_of_def)
  have 1: "hs_backward_loop N mu 0 (Suc (Suc n)) (V, G, hs) = (V', G', hs\<lparr>m_branches := [br']\<rparr>)"
    using a by (simp add: hb)
  have 2: "backward_loop N mu (Suc (Suc n)) (V, G, single_of br) =
      backward_loop N mu (Suc 0) (V', G', single_of br')"
    unfolding backward_loop.simps(2) [of N mu "Suc n"] prod.case bb s1 b ..
  have 3: "gains_frame br ?br1" by (simp add: gains_frame_def)
  from 1 2 gains_frame_trans [OF 3 c] show ?case by blast
qed

lemma merge_single:
  assumes "m_branches hs = [br]" and "probability br = 1"
    and "m_xhat0 hs = xhat br ! 0" and "m_uhat0 hs = uhat br ! 0"
  shows "merge_gains N (merge_branch N mu hs [V] [G] 0 merge_zero) =
     (case bellman_backup N (single_of br) 0 mu V G of (Vt, Gt, Kt, kt) \<Rightarrow> (Kt, kt))"
  unfolding merge_gains_def merge_branch_def bellman_backup_def merge_zero_def
  by (simp add: assms Let_def split: prod.splits)

lemma backward_pass_single:
  fixes hs :: "('x::finite, 'u::finite) iLQRHindsightSolver"
  assumes bs: "m_branches hs = [br]" and sz: "branch_sized T br" and T: "0 < T"
    and p: "probability br = 1"
    and x0: "m_xhat0 hs = xhat br ! 0" and u0: "m_uhat0 hs = uhat br ! 0"
    and rx: "\<And>x. is_equal_x N x x" and ru: "\<And>u. is_equal_u N u u"
  shows "\<exists>hs' br'. hs_backward_pass N T mu hs = Inr hs' \<and> m_branches hs' = [br'] \<and>
           single_of br' = backward_pass N T mu (single_of br) \<and>
           branch_sized T br' \<and> probability br' = 1"
proof -
  obtain n where Tn: "T = Suc n" using T by (cases T) auto
  obtain QT gT where q: "quadratize_final_cost N (final_cost br) (last (xhat br)) = (QT, gT)"
    by (metis surj_pair)
  have lst: "last (xhat br) = xhat br ! T"
  proof -
    have "length (xhat br) = Suc T" using sz by (simp add: branch_sized_def)
    then show ?thesis by (cases "xhat br" rule: rev_cases) (simp_all add: nth_append)
  qed
  from sweep_single [OF bs, of N mu n QT "mtranspose gT"] obtain V' G' br' where
    a: "hs_backward_loop N mu 0 T (QT, mtranspose gT, hs) = (V', G', hs\<lparr>m_branches := [br']\<rparr>)"
    and b: "backward_loop N mu T (QT, mtranspose gT, single_of br) =
             backward_loop N mu (Suc 0) (V', G', single_of br')"
    and c: "gains_frame br br'"
    unfolding Tn by blast
  let ?hs1 = "hs\<lparr>m_branches := [br']\<rparr>"
  obtain Vt Gt Kt kt where bb: "bellman_backup N (single_of br') 0 mu V' G' = (Vt, Gt, Kt, kt)"
    by (metis prod_cases4)
  have f: "fold (backup_branch N T mu) [0..<length (m_branches hs)]
      (hs, replicate (length (m_branches hs)) mZero, replicate (length (m_branches hs)) mZero) =
      (?hs1, [V'], [G'])"
    by (simp add: bs backup_branch_def q a)
  have fr: "probability br' = 1" "xhat br' = xhat br" "uhat br' = uhat br"
    using c p by (simp_all add: gains_frame_def)
  have m: "merge_gains N (fold (merge_branch N mu ?hs1 [V'] [G']) [0..<length (m_branches hs)] merge_zero)
      = (Kt, kt)"
    using merge_single [of ?hs1 br' N mu V' G'] fr x0 u0 by (simp add: bs bb)
  let ?hs2 = "?hs1\<lparr>m_K0 := Kt, m_k0 := kt\<rparr>"
  have ag: "first_agrees N (m_xhat0 ?hs2) (m_uhat0 ?hs2) (m_branches ?hs2 ! 0)"
    by (simp add: first_agrees_def x0 u0 fr rx ru)
  have cp: "for_loop [0..<length (m_branches hs)] (copy_first N) ?hs2 =
      Inr (update_branch ?hs2 0 (put_gains Kt kt))"
    using ag by (simp add: bs copy_first_cases)
  have res: "hs_backward_pass N T mu hs = Inr (update_branch ?hs2 0 (put_gains Kt kt))"
    unfolding hs_backward_pass_def Let_def f prod.case m cp ..
  have br: "m_branches (update_branch ?hs2 0 (put_gains Kt kt)) = [put_gains Kt kt br']"
    by (simp add: update_branch_def)
  have l1: "backward_loop N mu (Suc 0) (V', G', single_of br') =
      (Vt, Gt, single_of (put_gains Kt kt br'))"
    unfolding backward_loop.simps prod.case bb by (simp add: put_gains_def single_of_def)
  have q': "quadratize_final_cost N (m_final_cost (single_of br)) (m_xhat (single_of br) ! T) = (QT, gT)"
    using q by (simp add: lst)
  have "backward_pass N T mu (single_of br) = single_of (put_gains Kt kt br')"
    unfolding backward_pass_def q' prod.case b l1 ..
  moreover have "branch_sized T (put_gains Kt kt br')"
    using sz c by (simp add: branch_sized_def gains_frame_def put_gains_def)
  moreover have "probability (put_gains Kt kt br') = 1"
    using fr by (simp add: put_gains_def)
  ultimately show ?thesis using res br by metis
qed

lemma solve_loop_single:
  fixes hs :: "('x::finite, 'u::finite) iLQRHindsightSolver"
  assumes bs: "m_branches hs = [br]" and sz: "branch_sized T br" and T: "0 < T"
    and p: "probability br = 1"
    and rx: "\<And>x. is_equal_x N x x" and ru: "\<And>u. is_equal_u N u u"
  shows "map_option (map_sum id as_single) (hs_solve_loop N T x mu ccr a n hs old) =
           solve_loop N T x mu ccr a n (single_of br) old"
  using bs sz p
proof (induction n arbitrary: hs br old)
  case 0
  then show ?case by (simp add: as_single_def)
next
  case (Suc n)
  note bs = Suc.prems(1) and sz = Suc.prems(2) and p = Suc.prems(3)
  have hsz: "hs_sized T hs" using bs sz by (simp add: hs_sized_def)
  let ?r = "\<lambda>a. fst (branch_rollout br T x a)"
  let ?c = "\<lambda>a. Fin (snd (branch_rollout br T x a))"
  have fp: "probe (forward_pass (single_of br) x) a = Inr (?r a, ?c a)" for a
    by (simp add: probe_def forward_pass_single [OF sz] split: prod.splits)
  have fp': "probe (expected_cost hs x) a = Inr ((), ?c a)" for a
    by (simp add: probe_def expected_cost_single [OF bs sz p])
  have ls': "line_search (probe (expected_cost hs x)) old ccr a =
      map_option (map_sum id (\<lambda>(rollout, rest). ((), rest)))
        (line_search (probe (forward_pass (single_of br) x)) old ccr a)"
    by (rule line_search_cost_only [of "probe (forward_pass (single_of br) x)" ?r ?c
          "probe (expected_cost hs x)" "\<lambda>_. ()", OF fp fp'])
  show ?case
  proof (cases "line_search (probe (forward_pass (single_of br) x)) old ccr a")
    case None
    then show ?thesis using ls' by simp
  next
    case (Some q)
    show ?thesis
    proof (cases q)
      case (Inl e)
      then show ?thesis using ls' Some by simp
    next
      case (Inr w)
      obtain xs us nc ratio alpha' where w: "w = ((xs, us), nc, ratio, alpha')"
        by (metis prod_cases4 surj_pair)
      have ls: "line_search (probe (forward_pass (single_of br) x)) old ccr a =
          Some (Inr ((xs, us), nc, ratio, alpha'))"
        using Some Inr w by simp
      have lsh: "line_search (probe (expected_cost hs x)) old ccr a = Some (Inr ((), nc, ratio, alpha'))"
        using ls' ls by simp
      define al where "al = 1 / beta * alpha'"
      from line_search_rollout [of "probe (forward_pass (single_of br) x)" ?r ?c, OF fp ls]
      have ro: "(xs, us) = fst (branch_rollout br T x al)" unfolding al_def .
      let ?br2 = "commit_rollout T x al br"
      let ?hs2 = "committed T x al hs"
      note round = hs_round [OF hsz lsh, of N T mu n, folded al_def]
      have br2: "?br2 = br\<lparr>xhat := xs, uhat := us\<rparr>"
        unfolding commit_rollout_def ro [symmetric] by simp
      have s1: "(single_of br)\<lparr>m_xhat := xs, m_uhat := us\<rparr> = single_of ?br2"
        unfolding br2 by (simp add: single_of_def)
      have hs2: "m_branches ?hs2 = [?br2]" "m_xhat0 ?hs2 = xhat ?br2 ! 0" "m_uhat0 ?hs2 = uhat ?br2 ! 0"
        by (simp_all add: committed_def bs)
      have sz2: "branch_sized T ?br2" by (rule commit_rollout_sized [OF sz])
      have p2: "probability ?br2 = 1" using p by (simp add: commit_rollout_def)
      show ?thesis
      proof (cases "dbl_less ratio (Fin ccr)")
        case True
        have h1: "hs_solve_loop N T x mu ccr a (Suc n) hs old = Some (Inr ?hs2)"
          unfolding round using True by simp
        have h2: "solve_loop N T x mu ccr a (Suc n) (single_of br) old =
            Some (Inr (single_of ?br2))"
          using True by (simp add: ls s1)
        show ?thesis unfolding h1 h2 by (simp add: as_single_def hs2)
      next
        case False
        from backward_pass_single [OF hs2(1) sz2 T p2 hs2(2,3) rx ru, of mu]
        obtain hs3 br3 where bp: "hs_backward_pass N T mu ?hs2 = Inr hs3"
          and b3: "m_branches hs3 = [br3]"
          and s3: "single_of br3 = backward_pass N T mu (single_of ?br2)"
          and sz3: "branch_sized T br3" and p3: "probability br3 = 1"
          by blast
        have h1: "hs_solve_loop N T x mu ccr a (Suc n) hs old =
            hs_solve_loop N T x mu ccr a n hs3 nc"
          unfolding round using False by (simp add: bp)
        have h2: "solve_loop N T x mu ccr a (Suc n) (single_of br) old =
            solve_loop N T x mu ccr a n (single_of br3) nc"
          using False by (simp add: ls s1 s3)
        show ?thesis unfolding h1 h2 by (rule Suc.IH [OF b3 sz3 p3])
      qed
    qed
  qed
qed

lemma cold_start_single:
  assumes "m_branches hs = [br]"
  shows "m_branches (cold_start hs T u) = [cold_branch T u br]"
    and "initialize (single_of br) T u False t_off = Inr (single_of (cold_branch T u br))"
    and "branch_sized T (cold_branch T u br)"
    and "probability (cold_branch T u br) = probability br"
  using assms
  by (simp_all add: cold_start_eq initialize_def single_of_def cold_branch_def branch_sized_def)

text \<open>
  Claim C6, as amended.  A hindsight solver with one branch of probability 1, started cold
  with a horizon of at least 2 and an offset that is not negative, does what the
  single-chain solver does on the problem of that branch with the same arguments: it ends
  with the same nominal trajectory, controls and feedback gains at every time step, rejects
  the same arguments with the same error, and does not return when the other does not.
  \<^verbatim>\<open>math::is_equal\<close> is taken to hold of equal vectors.
\<close>

theorem single_branch_hindsight_is_single_chain:
  fixes hs :: "('x::finite, 'u::finite) iLQRHindsightSolver"
  assumes "2 \<le> T" and "0 \<le> t_offset"
    and "m_branches hs = [br]" and "probability br = 1"
    and "\<And>x. is_equal_x N x x" and "\<And>u. is_equal_u N u u"
  shows "map_option (map_sum id as_single)
           (hs_solve N hs T x_init u_nominal mu max_iters cost_convg_ratio start_alpha False t_offset) =
         solve N (single_of br) T x_init u_nominal mu max_iters cost_convg_ratio start_alpha False
           t_offset"
proof (cases "0 \<le> mu \<and> 0 < max_iters \<and> 0 < cost_convg_ratio \<and> 0 < start_alpha")
  case False
  then show ?thesis
    using assms(1,2) by (auto simp: hs_solve_def solve_def check_defs)
next
  case True
  have T: "0 < nat T" using assms(1) by simp
  note cs = cold_start_single [OF assms(3), of "nat T" u_nominal]
  have tp: "total_branch_probability (m_branches hs) = 1"
    by (simp add: total_branch_probability_def assms(3,4))
  have h: "hs_solve N hs T x_init u_nominal mu max_iters cost_convg_ratio start_alpha False t_offset =
      hs_solve_loop N (nat T) x_init mu cost_convg_ratio start_alpha (nat max_iters)
        (cold_start hs (nat T) u_nominal) PInf"
    using True assms(1,2)
    by (simp add: hs_solve_def check_defs tp hs_initialize_def del: hs_solve_loop.simps)
  have s: "solve N (single_of br) T x_init u_nominal mu max_iters cost_convg_ratio start_alpha False
      t_offset =
      solve_loop N (nat T) x_init mu cost_convg_ratio start_alpha (nat max_iters)
        (single_of (cold_branch (nat T) u_nominal br)) PInf"
    using True assms(1)
    by (simp add: solve_def check_defs cs(2) del: solve_loop.simps)
  have p: "probability (cold_branch (nat T) u_nominal br) = 1" using cs(4) assms(4) by simp
  show ?thesis
    unfolding h s
    by (rule solve_loop_single [OF cs(1) cs(3) T p assms(5,6)])
qed

theorem single_branch_hindsight_is_single_chain_witness:
  "\<exists>s'. hs_solve (scalar_numerics 1 1 1) (scalar_hindsight [scalar_branch 1 1 1 1 [] [] [] []])
          2 (scalar 1) mZero 0 1 (1 / 10) 1 False 0 = Some (Inr s') \<and>
        solve (scalar_numerics 1 1 1) (scalar_solver 1 1 1 [] [] [] [])
          2 (scalar 1) mZero 0 1 (1 / 10) 1 False 0 = Some (Inr (as_single s'))"
proof -
  let ?N = "scalar_numerics 1 1 1"
  let ?br = "scalar_branch 1 1 1 1 [] [] [] []"
  let ?hs = "scalar_hindsight [?br]"
  have b: "m_branches ?hs = [?br]" "probability ?br = 1"
    by (simp_all add: scalar_hindsight_def scalar_branch_def)
  have r: "is_equal_x ?N x x" "is_equal_u ?N u u" for x u
    by (simp_all add: scalar_numerics_def lq_numerics_def)
  have s: "single_of ?br = scalar_solver 1 1 1 [] [] [] []"
    by (simp add: single_of_def scalar_branch_def scalar_solver_def)
  have "\<bar>total_branch_probability (m_branches ?hs) - 1\<bar> \<le> 1 / 1000"
    by (simp add: total_branch_probability_def b)
  from hs_solve_one_round [of 2 0 "1 / 10" 1 0 ?hs ?N "scalar 1" mZero, OF _ _ _ _ _ this r]
  obtain s' where h: "hs_solve ?N ?hs 2 (scalar 1) mZero 0 1 (1 / 10) 1 False 0 = Some (Inr s')"
    by auto
  from single_branch_hindsight_is_single_chain [of 2 0 ?hs ?br ?N "scalar 1" mZero 0 1 "1 / 10" 1,
      OF _ _ b r]
  have "solve ?N (single_of ?br) 2 (scalar 1) mZero 0 1 (1 / 10) 1 False 0 = Some (Inr (as_single s'))"
    unfolding h by simp
  with h show ?thesis unfolding s by blast
qed

section \<open>The line search of a later round\<close>

lemma halvings_tend_to_zero: "(\<lambda>n. alpha * beta ^ n) \<longlonglongrightarrow> 0"
proof -
  have "(\<lambda>n. beta ^ n) \<longlonglongrightarrow> 0"
    by (rule LIMSEQ_realpow_zero) (simp_all add: beta_def)
  from tendsto_mult_left [OF this, of alpha] show ?thesis by simp
qed

lemma ratio_test_passes:
  assumes fp: "\<And>a. fp a = Inr (r a, Fin (c a))"
    and lim: "(\<lambda>n. c (alpha * beta ^ n)) \<longlonglongrightarrow> c0"
    and nz: "c0 \<noteq> 0" and ccr: "0 < ccr"
  shows "\<exists>n. stops fp (Fin c0) ccr (alpha * beta ^ n)"
proof -
  define e where "e = min (\<bar>c0\<bar> / 2) (ccr * \<bar>c0\<bar> / 2)"
  have e: "0 < e" using nz ccr by (simp add: e_def)
  from LIMSEQ_D [OF lim e] obtain n where n: "norm (c (alpha * beta ^ n) - c0) < e" by blast
  define c1 where "c1 = c (alpha * beta ^ n)"
  have d: "\<bar>c1 - c0\<bar> < \<bar>c0\<bar> / 2" "\<bar>c1 - c0\<bar> < ccr * \<bar>c0\<bar> / 2"
    using n by (simp_all add: e_def c1_def)
  have big: "\<bar>c0\<bar> / 2 < \<bar>c1\<bar>" using d(1) by linarith
  then have c1: "c1 \<noteq> 0" "0 < \<bar>c1\<bar>" using nz by auto
  have "\<bar>c0 - c1\<bar> < ccr * \<bar>c1\<bar>"
  proof -
    have "\<bar>c0 - c1\<bar> < ccr * (\<bar>c0\<bar> / 2)" using d(2) by (simp add: abs_minus_commute)
    also have "\<dots> \<le> ccr * \<bar>c1\<bar>" using big ccr by (intro mult_left_mono) simp_all
    finally show ?thesis .
  qed
  then have "\<bar>(c0 - c1) / c1\<bar> < ccr"
    using c1 by (simp add: abs_divide pos_divide_less_eq)
  then have "stops fp (Fin c0) ccr (alpha * beta ^ n)"
    using c1 by (simp add: stops_def fp c1_def [symmetric] accepted_def cost_diff_ratio_of_def)
  then show ?thesis by blast
qed

lemma line_search_finite:
  assumes fp: "\<And>a. fp a = Inr (r a, Fin (c a))"
    and st: "\<exists>n. stops fp (Fin c0) ccr (alpha * beta ^ n)"
  shows "\<exists>n ratio. line_search fp (Fin c0) ccr alpha =
            Some (Inr (r (alpha * beta ^ n), Fin (c (alpha * beta ^ n)), ratio, alpha * beta ^ Suc n)) \<and>
            (c (alpha * beta ^ n) < c0 \<or> dbl_less ratio (Fin ccr))"
proof -
  define k where "k = (LEAST n. stops fp (Fin c0) ccr (alpha * beta ^ n))"
  have k: "stops fp (Fin c0) ccr (alpha * beta ^ k)"
    unfolding k_def using st by (rule LeastI_ex)
  have "line_search fp (Fin c0) ccr alpha = Some (outcome fp (Fin c0) (alpha * beta ^ k))"
    unfolding line_search_char k_def using st by simp
  moreover have "outcome fp (Fin c0) (alpha * beta ^ k) =
      Inr (r (alpha * beta ^ k), Fin (c (alpha * beta ^ k)),
           cost_diff_ratio_of (Fin c0) (Fin (c (alpha * beta ^ k))), alpha * beta ^ Suc k)"
    by (simp add: outcome_def fp mult.assoc)
  moreover have "c (alpha * beta ^ k) < c0 \<or>
      dbl_less (cost_diff_ratio_of (Fin c0) (Fin (c (alpha * beta ^ k)))) (Fin ccr)"
    using k by (simp add: stops_def fp accepted_def)
  ultimately show ?thesis by metis
qed

lemma forward_step_nominal:
  assumes "m_dynamics s' = m_dynamics s" and "m_cost s' = m_cost s"
    and "m_xhat s' ! t = xs0 ! t"
    and "m_uhat s' ! t = compute_control_stepsize s (xs0 ! t) t a"
  shows "forward_step s' 0 t (xs0, us0, c0) = forward_step s a t (xs0, us0, c0)"
proof -
  have "compute_control_stepsize s' (xs0 ! t) t 0 = m_uhat s' ! t"
    by (simp add: compute_control_stepsize_def assms(3) Let_def matrix_defs fun_eq_iff)
  then show ?thesis
    by (simp add: forward_step_def assms Let_def)
qed

lemma fold_forward_step_nominal:
  assumes fr: "m_dynamics s' = m_dynamics s" "m_cost s' = m_cost s"
    "m_xhat s' = xs" "m_uhat s' = us"
  shows "fold (forward_step s a) [k..<T] (xs0, us0, c0) = (xs, us, c) \<Longrightarrow>
     length xs0 = Suc k \<Longrightarrow> length us0 = k \<Longrightarrow>
     fold (forward_step s' 0) [k..<T] (xs0, us0, c0) = (xs, us, c)"
proof (induction "T - k" arbitrary: k xs0 us0 c0)
  case 0
  then show ?case by simp
next
  case (Suc d)
  then have lt: "k < T" by simp
  then have u: "[k..<T] = k # [Suc k..<T]" by (rule upt_conv_Cons)
  define v where "v = compute_control_stepsize s (xs0 ! k) k a"
  obtain x' c' where
    step: "forward_step s a k (xs0, us0, c0) = (xs0 @ [x'], us0 @ [v], c')"
    by (simp add: forward_step_def Let_def v_def)
  have rest: "fold (forward_step s a) [Suc k..<T] (xs0 @ [x'], us0 @ [v], c') = (xs, us, c)"
    using Suc.prems(1) unfolding u by (simp add: step)
  from fold_forward_step_shape [OF rest] have
    tk: "take (Suc (Suc k)) xs = xs0 @ [x']" "take (Suc k) us = us0 @ [v]"
    using Suc.prems(2,3) by simp_all
  have "xs ! k = take (Suc (Suc k)) xs ! k" by simp
  then have xk: "xs ! k = xs0 ! k" unfolding tk using Suc.prems(2) by (simp add: nth_append)
  have "us ! k = take (Suc k) us ! k" by simp
  then have uk: "us ! k = v" unfolding tk using Suc.prems(3) by (simp add: nth_append)
  have same: "forward_step s' 0 k (xs0, us0, c0) = forward_step s a k (xs0, us0, c0)"
    by (rule forward_step_nominal) (simp_all add: fr xk uk v_def)
  have "d = T - Suc k" using Suc.hyps(2) by simp
  from Suc.hyps(1) [OF this rest] Suc.prems(2,3)
  have "fold (forward_step s' 0) [Suc k..<T] (xs0 @ [x'], us0 @ [v], c') = (xs, us, c)" by simp
  then show ?case unfolding u by (simp add: same step)
qed

lemma forward_pass_nominal:
  assumes sz: "sized T s" and fp: "forward_pass s x a = Inr ((xs, us), c)"
    and sz': "sized T s'"
    and fr: "m_dynamics s' = m_dynamics s" "m_cost s' = m_cost s" "m_final_cost s' = m_final_cost s"
      "m_xhat s' = xs" "m_uhat s' = us"
  shows "forward_pass s' x 0 = Inr ((xs, us), c)"
proof -
  obtain ys vs g where f: "fold (forward_step s a) [0..<T] ([x], [], 0) = (ys, vs, g)"
    by (metis prod_cases3)
  from fp have e: "ys = xs" "vs = us" "c = g + m_final_cost s (xs ! T)"
    by (auto simp: forward_pass_def timesteps_sized [OF sz] f)
  from fold_forward_step_nominal [OF fr(1,2,4,5), of a 0 T "[x]" "[]" 0 g] f e
  have "fold (forward_step s' 0) [0..<T] ([x], [], 0) = (xs, us, g)" by simp
  then show ?thesis
    by (simp add: forward_pass_def timesteps_sized [OF sz'] e fr)
qed

lemma next_round_nominal:
  fixes s :: "('x::finite, 'u::finite) iLQRSolver"
  assumes sz: "sized T s" and fp: "forward_pass s x a = Inr ((xs, us), c)"
  shows "sized T (backward_pass N T mu (s\<lparr>m_xhat := xs, m_uhat := us\<rparr>))"
    and "forward_pass (backward_pass N T mu (s\<lparr>m_xhat := xs, m_uhat := us\<rparr>)) x 0 = Inr ((xs, us), c)"
proof -
  let ?s1 = "s\<lparr>m_xhat := xs, m_uhat := us\<rparr>"
  from forward_pass_sized [OF sz, of x a] fp have len: "length xs = T + 1" "length us = T" by auto
  then have s1: "sized T ?s1" using sz by (simp add: sized_def)
  then show sz': "sized T (backward_pass N T mu ?s1)" by (simp add: backward_pass_sized)
  show "forward_pass (backward_pass N T mu ?s1) x 0 = Inr ((xs, us), c)"
    by (rule forward_pass_nominal [OF sz fp sz']) (simp_all add: backward_pass_frame)
qed

lemma pass_cost_eq: "sized T s \<Longrightarrow> \<exists>r. forward_pass s x a = Inr (r, pass_cost s x a)"
  using forward_pass_sized [of T s x a] by (auto simp: pass_cost_def)

lemma branch_rollout_nominal:
  assumes sz: "branch_sized T b" and sz': "branch_sized T b'"
    and fr: "dynamics b' = dynamics b" "cost b' = cost b" "final_cost b' = final_cost b"
      "xhat b' = fst (fst (branch_rollout b T x a))" "uhat b' = snd (fst (branch_rollout b T x a))"
  shows "branch_rollout b' T x 0 = branch_rollout b T x a"
proof -
  obtain xs us c where r: "branch_rollout b T x a = ((xs, us), c)" by (metis surj_pair)
  have "forward_pass (single_of b) x a = Inr ((xs, us), c)"
    using forward_pass_single [OF sz, of x a] r by simp
  from forward_pass_nominal [OF _ this, of T "single_of b'"] sz sz' fr r
  have "forward_pass (single_of b') x 0 = Inr ((xs, us), c)"
    by (simp add: sized_single_of)
  then show ?thesis using forward_pass_single [OF sz', of x 0] r by simp
qed

lemma foldl_add_map: "foldl (\<lambda>c b. c + f b) z cs = foldl (+) z (map f cs)"
  by (induction cs arbitrary: z) simp_all

lemma expected_rollout_cost_cong:
  assumes "length bs' = length bs"
    and "\<And>j. j < length bs \<Longrightarrow> probability (bs' ! j) = probability (bs ! j) \<and>
           snd (branch_rollout (bs' ! j) T x a') = snd (branch_rollout (bs ! j) T x a)"
  shows "expected_rollout_cost bs' T x a' = expected_rollout_cost bs T x a"
proof -
  have m: "map (\<lambda>b. probability b * snd (branch_rollout b T x a')) bs' =
      map (\<lambda>b. probability b * snd (branch_rollout b T x a)) bs"
    using assms by (intro nth_equalityI) simp_all
  have "expected_rollout_cost bs' T x a' =
      foldl (+) 0 (map (\<lambda>b. probability b * snd (branch_rollout b T x a')) bs')"
    unfolding expected_rollout_cost_def by (rule foldl_add_map)
  also have "\<dots> = foldl (+) 0 (map (\<lambda>b. probability b * snd (branch_rollout b T x a)) bs)"
    unfolding m ..
  also have "\<dots> = expected_rollout_cost bs T x a"
    unfolding expected_rollout_cost_def by (rule foldl_add_map [symmetric])
  finally show ?thesis .
qed

lemma hs_next_round_nominal:
  fixes s :: "('x::finite, 'u::finite) iLQRHindsightSolver"
  assumes sz: "hs_sized T s"
    and bp: "hs_backward_pass N T' mu (committed T x a s) = Inr s3"
  shows "hs_sized T s3"
    and "expected_cost s3 x 0 = Inr ((), expected_rollout_cost (m_branches s) T x a)"
proof -
  let ?c = "committed T x a s"
  let ?n = "length (m_branches s)"
  from hs_backward_pass_Inr [OF bp] obtain s1 K0 k0 where
    ss: "same_shared ?c s1"
    and gf: "\<forall>j<length (m_branches ?c). gains_frame (m_branches ?c ! j) (m_branches s1 ! j)"
    and s3: "s3 = s1\<lparr>m_branches := map (put_gains K0 k0) (m_branches s1), m_K0 := K0, m_k0 := k0\<rparr>"
    by blast
  have nc: "length (m_branches ?c) = ?n" by (simp add: committed_def)
  have n1: "length (m_branches s1) = ?n" using ss nc by (simp add: same_shared_def)
  have n3: "length (m_branches s3) = ?n" by (simp add: s3 n1)
  have ne: "?n \<noteq> 0" using sz by (simp add: hs_sized_def)
  have b: "branch_sized T (m_branches s3 ! j) \<and>
      probability (m_branches s3 ! j) = probability (m_branches s ! j) \<and>
      branch_rollout (m_branches s3 ! j) T x 0 = branch_rollout (m_branches s ! j) T x a"
    if j: "j < ?n" for j
  proof -
    let ?b = "m_branches s ! j"
    have bsz: "branch_sized T ?b" using sz j by (simp add: hs_sized_def list_all_length)
    have cj: "m_branches ?c ! j = commit_rollout T x a ?b" using j by (simp add: committed_def)
    have "gains_frame (m_branches ?c ! j) (m_branches s1 ! j)"
      using gf j nc by metis
    then have g: "gains_frame (commit_rollout T x a ?b) (m_branches s1 ! j)"
      unfolding cj .
    have b3: "m_branches s3 ! j = put_gains K0 k0 (m_branches s1 ! j)"
      using j n1 by (simp add: s3)
    have csz: "branch_sized T (commit_rollout T x a ?b)" by (rule commit_rollout_sized [OF bsz])
    have sz3: "branch_sized T (m_branches s3 ! j)"
      using csz g by (simp add: b3 branch_sized_def gains_frame_def put_gains_simps)
    have fr: "dynamics (m_branches s3 ! j) = dynamics ?b" "cost (m_branches s3 ! j) = cost ?b"
      "final_cost (m_branches s3 ! j) = final_cost ?b"
      "probability (m_branches s3 ! j) = probability ?b"
      "xhat (m_branches s3 ! j) = fst (fst (branch_rollout ?b T x a))"
      "uhat (m_branches s3 ! j) = snd (fst (branch_rollout ?b T x a))"
      using g by (simp_all add: b3 put_gains_simps gains_frame_def commit_rollout_def)
    from branch_rollout_nominal [OF bsz sz3 fr(1,2,3,5,6)] sz3 fr(4) show ?thesis by simp
  qed
  have "m_branches s3 \<noteq> []" using ne n3 by auto
  then show sz3: "hs_sized T s3"
    using b n3 by (simp add: hs_sized_def list_all_length)
  have "expected_rollout_cost (m_branches s3) T x 0 = expected_rollout_cost (m_branches s) T x a"
    by (rule expected_rollout_cost_cong [OF n3]) (simp add: b)
  then show "expected_cost s3 x 0 = Inr ((), expected_rollout_cost (m_branches s) T x a)"
    using expected_cost_sized [OF sz3, of x 0] by simp
qed

lemma hs_pass_cost_eq: "hs_sized T s \<Longrightarrow> expected_cost s x a = Inr ((), hs_pass_cost s x a)"
  using expected_cost_sized [of T s x a] by (simp add: hs_pass_cost_def)

lemma cost_not_finite_never_accepted:
  assumes "\<And>a. \<exists>r. fp a = Inr (r, PInf) \<or> fp a = Inr (r, NaN)"
  shows "line_search fp old ccr alpha = None"
proof (rule line_search_never)
  fix a
  from assms [of a] obtain r where "fp a = Inr (r, PInf) \<or> fp a = Inr (r, NaN)" by blast
  then show "\<not> stops fp old ccr a"
    by (cases old) (auto simp: stops_def accepted_def cost_diff_ratio_of_def)
qed

lemma line_search_same_cost:
  assumes "fp alpha = Inr (r, Fin c)" and "c \<noteq> 0" and "0 < ccr"
  shows "line_search fp (Fin c) ccr alpha = Some (Inr (r, Fin c, Fin 0, alpha * beta))"
  using line_search_stops [of fp "Fin c" ccr alpha] assms
  by (simp add: stops_def outcome_def accepted_def cost_diff_ratio_of_def)

lemma continuous_cost_tends:
  assumes "isCont c 0"
  shows "(\<lambda>n. c (alpha * beta ^ n)) \<longlonglongrightarrow> c 0"
  by (rule isCont_tendsto_compose [OF assms halvings_tend_to_zero])

text \<open>
  Claim C8, as amended.  Take a round of either solver whose search accepted a forward pass
  of finite cost \<open>c\<close> at some step size, and let the round go on to its backward pass.  Against the
  infinite old cost of the first round a pass is accepted at once.  In the next round the
  forward pass at step size 0 is the accepted rollout again, at the same cost; so when
  \<open>c\<close> is not 0, a search that has come to the step size 0 returns there, its cost ratio
  being 0.  And when moreover the cost of the forward pass is continuous in the step size at
  0, the search of the next round returns after finitely many halvings of \<^verbatim>\<open>start_alpha\<close>,
  with a cost below \<open>c\<close> or a cost ratio below \<^verbatim>\<open>cost_convg_ratio\<close>, and that round of
  \<^verbatim>\<open>solve\<close> returns.  No floor on the step size is involved.
\<close>

theorem line_search_returns_unless_cost_zero:
  fixes s :: "('x::finite, 'u::finite) iLQRSolver"
    and hs :: "('x::finite, 'u::finite) iLQRHindsightSolver"
  assumes "0 < cost_convg_ratio"
    and "sized T s"
    and "forward_pass s x_init alpha0 = Inr ((xhat_new, uhat_new), c)"
    and "c \<noteq> 0"
    and "s' = backward_pass N T mu (s\<lparr>m_xhat := xhat_new, m_uhat := uhat_new\<rparr>)"
    and "isCont (pass_cost s' x_init) 0"
    and "hs_sized T hs"
    and "expected_cost hs x_init alpha0 = Inr ((), hc)"
    and "hc \<noteq> 0"
    and "hs_backward_pass N T mu (committed T x_init alpha0 hs) = Inr hs'"
    and "isCont (hs_pass_cost hs' x_init) 0"
  shows "line_search (probe (forward_pass s x_init)) PInf cost_convg_ratio alpha0 =
           Some (Inr ((xhat_new, uhat_new), Fin c, PInf, alpha0 * beta)) \<and>
         forward_pass s' x_init 0 = Inr ((xhat_new, uhat_new), c) \<and>
         line_search (probe (forward_pass s' x_init)) (Fin c) cost_convg_ratio 0 =
           Some (Inr ((xhat_new, uhat_new), Fin c, Fin 0, 0)) \<and>
         (\<exists>n rollout c1 ratio.
            line_search (probe (forward_pass s' x_init)) (Fin c) cost_convg_ratio start_alpha =
              Some (Inr (rollout, Fin c1, ratio, start_alpha * beta ^ Suc n)) \<and>
            (c1 < c \<or> dbl_less ratio (Fin cost_convg_ratio))) \<and>
         (\<exists>r. solve_loop N T x_init mu cost_convg_ratio start_alpha (Suc 0) s' (Fin c) = Some r) \<and>
         line_search (probe (expected_cost hs x_init)) PInf cost_convg_ratio alpha0 =
           Some (Inr ((), Fin hc, PInf, alpha0 * beta)) \<and>
         expected_cost hs' x_init 0 = Inr ((), hc) \<and>
         line_search (probe (expected_cost hs' x_init)) (Fin hc) cost_convg_ratio 0 =
           Some (Inr ((), Fin hc, Fin 0, 0)) \<and>
         (\<exists>n c1 ratio.
            line_search (probe (expected_cost hs' x_init)) (Fin hc) cost_convg_ratio start_alpha =
              Some (Inr ((), Fin c1, ratio, start_alpha * beta ^ Suc n)) \<and>
            (c1 < hc \<or> dbl_less ratio (Fin cost_convg_ratio))) \<and>
         (\<exists>r. hs_solve_loop N T x_init mu cost_convg_ratio start_alpha (Suc 0) hs' (Fin hc) = Some r)"
proof -
  note ccr = assms(1) and sz = assms(2) and acc = assms(3) and nz = assms(4) and s' = assms(5)
    and cont = assms(6) and hsz = assms(7) and hacc = assms(8) and hnz = assms(9)
    and bp = assms(10) and hcont = assms(11)
  have 1: "line_search (probe (forward_pass s x_init)) PInf cost_convg_ratio alpha0 =
           Some (Inr ((xhat_new, uhat_new), Fin c, PInf, alpha0 * beta))"
    by (rule line_search_first [of "probe (forward_pass s x_init)" alpha0,
          OF probe_Inr [of "forward_pass s x_init" alpha0, OF acc]])
  from next_round_nominal [OF sz acc, of N mu] have sz': "sized T s'"
    and 2: "forward_pass s' x_init 0 = Inr ((xhat_new, uhat_new), c)"
    unfolding s' by simp_all
  have z: "line_search (probe (forward_pass s' x_init)) (Fin c) cost_convg_ratio 0 =
           Some (Inr ((xhat_new, uhat_new), Fin c, Fin 0, 0))"
    using line_search_same_cost [of "probe (forward_pass s' x_init)" 0,
        OF probe_Inr [of "forward_pass s' x_init" 0, OF 2] nz ccr]
    by simp
  have c0: "pass_cost s' x_init 0 = c" using 2 by (simp add: pass_cost_def)
  obtain r where fp: "\<And>a. probe (forward_pass s' x_init) a = Inr (r a, Fin (pass_cost s' x_init a))"
  proof -
    have "\<exists>r. probe (forward_pass s' x_init) a = Inr (r, Fin (pass_cost s' x_init a))" for a
      using pass_cost_eq [OF sz', of x_init a] by (auto simp: probe_def)
    then show ?thesis using that by metis
  qed
  have lim: "(\<lambda>n. pass_cost s' x_init (start_alpha * beta ^ n)) \<longlonglongrightarrow> c"
    using continuous_cost_tends [OF cont, of start_alpha] c0 by simp
  from line_search_finite [OF fp ratio_test_passes [OF fp lim nz ccr]]
  obtain n ratio where
    ls: "line_search (probe (forward_pass s' x_init)) (Fin c) cost_convg_ratio start_alpha =
       Some (Inr (r (start_alpha * beta ^ n), Fin (pass_cost s' x_init (start_alpha * beta ^ n)),
                  ratio, start_alpha * beta ^ Suc n))"
    and ok: "pass_cost s' x_init (start_alpha * beta ^ n) < c \<or> dbl_less ratio (Fin cost_convg_ratio)"
    by blast
  from ls ok have 3: "\<exists>n rollout c1 ratio.
            line_search (probe (forward_pass s' x_init)) (Fin c) cost_convg_ratio start_alpha =
              Some (Inr (rollout, Fin c1, ratio, start_alpha * beta ^ Suc n)) \<and>
            (c1 < c \<or> dbl_less ratio (Fin cost_convg_ratio))"
    by blast
  have 4: "\<exists>r. solve_loop N T x_init mu cost_convg_ratio start_alpha (Suc 0) s' (Fin c) = Some r"
    by (cases "r (start_alpha * beta ^ n)") (simp add: ls Let_def)
  have 5: "line_search (probe (expected_cost hs x_init)) PInf cost_convg_ratio alpha0 =
           Some (Inr ((), Fin hc, PInf, alpha0 * beta))"
    by (rule line_search_first [of "probe (expected_cost hs x_init)" alpha0,
          OF probe_Inr [of "expected_cost hs x_init" alpha0, OF hacc]])
  have hc: "hc = expected_rollout_cost (m_branches hs) T x_init alpha0"
    using hacc expected_cost_sized [OF hsz, of x_init alpha0] by simp
  from hs_next_round_nominal [OF hsz bp] have hsz': "hs_sized T hs'"
    and 6: "expected_cost hs' x_init 0 = Inr ((), hc)"
    unfolding hc by simp_all
  have hz: "line_search (probe (expected_cost hs' x_init)) (Fin hc) cost_convg_ratio 0 =
           Some (Inr ((), Fin hc, Fin 0, 0))"
    using line_search_same_cost [of "probe (expected_cost hs' x_init)" 0,
        OF probe_Inr [of "expected_cost hs' x_init" 0, OF 6] hnz ccr]
    by simp
  have h0: "hs_pass_cost hs' x_init 0 = hc" using 6 by (simp add: hs_pass_cost_def)
  have hfp: "probe (expected_cost hs' x_init) a = Inr ((), Fin (hs_pass_cost hs' x_init a))" for a
    by (rule probe_Inr [of "expected_cost hs' x_init" a, OF hs_pass_cost_eq [OF hsz']])
  have hlim: "(\<lambda>n. hs_pass_cost hs' x_init (start_alpha * beta ^ n)) \<longlonglongrightarrow> hc"
    using continuous_cost_tends [OF hcont, of start_alpha] h0 by simp
  from line_search_finite [of "probe (expected_cost hs' x_init)" "\<lambda>_. ()", OF hfp
      ratio_test_passes [of "probe (expected_cost hs' x_init)" "\<lambda>_. ()", OF hfp hlim hnz ccr]]
  obtain m hratio where
    hls: "line_search (probe (expected_cost hs' x_init)) (Fin hc) cost_convg_ratio start_alpha =
       Some (Inr ((), Fin (hs_pass_cost hs' x_init (start_alpha * beta ^ m)),
                  hratio, start_alpha * beta ^ Suc m))"
    and hok: "hs_pass_cost hs' x_init (start_alpha * beta ^ m) < hc \<or>
       dbl_less hratio (Fin cost_convg_ratio)"
    by blast
  from hls hok have 7: "\<exists>n c1 ratio.
            line_search (probe (expected_cost hs' x_init)) (Fin hc) cost_convg_ratio start_alpha =
              Some (Inr ((), Fin c1, ratio, start_alpha * beta ^ Suc n)) \<and>
            (c1 < hc \<or> dbl_less ratio (Fin cost_convg_ratio))"
    by blast
  have 8: "\<exists>r. hs_solve_loop N T x_init mu cost_convg_ratio start_alpha (Suc 0) hs' (Fin hc) = Some r"
    unfolding hs_round [OF hsz' hls] by (simp split: sum.splits)
  from 1 2 z 3 4 5 6 hz 7 8 show ?thesis by blast
qed

lemma regulator_pass_cost:
  "pass_cost (backward_pass (scalar_numerics 1 1 1) (Suc 0) 0
      (scalar_solver 1 1 1 [mZero] [mZero] [mZero] [scalar 1, scalar 1])) (scalar 1) =
   (\<lambda>a. 1 - a / 2 + a * a / 4)"
  by (simp add: pass_cost_def forward_pass_def timesteps_def check_defs forward_step_def
      compute_control_stepsize_def backward_pass_def bellman_backup_def
      scalar_defs matrix_defs Let_def fun_eq_iff field_simps)

theorem line_search_returns_unless_cost_zero_witness:
  "\<exists>n rollout c1 ratio hs' m d1 hratio.
     line_search (probe (forward_pass (backward_pass (scalar_numerics 1 1 1) (Suc 0) 0
         (scalar_solver 1 1 1 [mZero] [mZero] [mZero] [scalar 1, scalar 1])) (scalar 1)))
       (Fin 1) (1 / 10) 1 = Some (Inr (rollout, Fin c1, ratio, 1 * beta ^ Suc n)) \<and>
     (c1 < 1 \<or> dbl_less ratio (Fin (1 / 10))) \<and>
     hs_backward_pass (scalar_numerics 1 1 1) (Suc 0) 0
       (committed (Suc 0) (scalar 1) 1
          (scalar_hindsight [scalar_branch 1 1 1 1 [mZero] [mZero] [mZero] [mZero, mZero]])) = Inr hs' \<and>
     line_search (probe (expected_cost hs' (scalar 1))) (Fin 1) (1 / 10) 1 =
       Some (Inr ((), Fin d1, hratio, 1 * beta ^ Suc m)) \<and>
     (d1 < 1 \<or> dbl_less hratio (Fin (1 / 10)))"
proof -
  let ?N = "scalar_numerics 1 1 1"
  let ?s = "scalar_solver 1 1 1 [mZero] [mZero] [mZero] [mZero, mZero]"
  let ?s1 = "scalar_solver 1 1 1 [mZero] [mZero] [mZero] [scalar 1, scalar 1]"
  let ?br = "scalar_branch 1 1 1 1 [mZero] [mZero] [mZero] [mZero, mZero]"
  let ?hs = "scalar_hindsight [?br]"
  let ?x = "scalar 1"
  have sz: "sized (Suc 0) ?s" by (simp add: sized_def scalar_solver_def)
  have acc: "forward_pass ?s ?x 1 = Inr (([scalar 1, scalar 1], [mZero]), 1)"
    using scalar_forward_pass [of 1 1 1 1] by simp
  have s1: "?s\<lparr>m_xhat := [scalar 1, scalar 1], m_uhat := [mZero]\<rparr> = ?s1"
    by (simp add: scalar_solver_def)
  have s': "backward_pass ?N (Suc 0) 0 ?s1 =
      backward_pass ?N (Suc 0) 0 (?s\<lparr>m_xhat := [scalar 1, scalar 1], m_uhat := [mZero]\<rparr>)"
    unfolding s1 ..
  have cont: "isCont (pass_cost (backward_pass ?N (Suc 0) 0 ?s1) ?x) 0"
    unfolding regulator_pass_cost by (intro continuous_intros) simp_all
  have so: "single_of ?br = ?s" by (simp add: single_of_def scalar_branch_def scalar_solver_def)
  have bsz: "branch_sized (Suc 0) ?br" by (simp add: branch_sized_def scalar_branch_def)
  have b: "m_branches ?hs = [?br]" "probability ?br = 1"
    by (simp_all add: scalar_hindsight_def scalar_branch_def)
  have hsz: "hs_sized (Suc 0) ?hs" using bsz by (simp add: hs_sized_def b)
  have ro: "branch_rollout ?br (Suc 0) ?x 1 = (([scalar 1, scalar 1], [mZero]), 1)"
    using forward_pass_single [OF bsz, of ?x 1] acc unfolding so by simp
  have hacc: "expected_cost ?hs ?x 1 = Inr ((), 1)"
    using expected_cost_single [OF b(1) bsz b(2), of ?x 1] ro by simp
  let ?br2 = "commit_rollout (Suc 0) ?x 1 ?br"
  let ?hs2 = "committed (Suc 0) ?x 1 ?hs"
  have hs2: "m_branches ?hs2 = [?br2]" "m_xhat0 ?hs2 = xhat ?br2 ! 0" "m_uhat0 ?hs2 = uhat ?br2 ! 0"
    by (simp_all add: committed_def b)
  have "?br2 = ?br\<lparr>xhat := [scalar 1, scalar 1], uhat := [mZero]\<rparr>"
    unfolding commit_rollout_def ro by simp
  then have so2: "single_of ?br2 = ?s1"
    by (simp add: single_of_def scalar_branch_def scalar_solver_def)
  have r: "is_equal_x ?N v v" "is_equal_u ?N w w" for v w
    by (simp_all add: scalar_numerics_def lq_numerics_def)
  from backward_pass_single [OF hs2(1) commit_rollout_sized [OF bsz] _ _ hs2(2,3) r, of 0]
  obtain hs' br' where bp: "hs_backward_pass ?N (Suc 0) 0 ?hs2 = Inr hs'"
    and b': "m_branches hs' = [br']"
    and so': "single_of br' = backward_pass ?N (Suc 0) 0 (single_of ?br2)"
    and sz': "branch_sized (Suc 0) br'" and p': "probability br' = 1"
    using b(2) by (auto simp: commit_rollout_def)
  have "hs_pass_cost hs' ?x a = pass_cost (backward_pass ?N (Suc 0) 0 ?s1) ?x a" for a
    using expected_cost_single [OF b' sz' p', of ?x a] forward_pass_single [OF sz', of ?x a]
    by (simp add: hs_pass_cost_def pass_cost_def so' so2 split: prod.splits)
  then have "hs_pass_cost hs' ?x = pass_cost (backward_pass ?N (Suc 0) 0 ?s1) ?x" by (rule ext)
  then have hcont: "isCont (hs_pass_cost hs' ?x) 0"
    using cont by simp
  have ccr: "(0 :: real) < 1 / 10" and nz: "(1 :: real) \<noteq> 0" by simp_all
  note t = line_search_returns_unless_cost_zero [of "1 / 10" "Suc 0" ?s ?x 1 "[scalar 1, scalar 1]"
      "[mZero]" 1 "backward_pass ?N (Suc 0) 0 ?s1" ?N 0 ?hs 1 hs' 1,
      OF ccr sz acc nz s' cont hsz hacc nz bp hcont]
  from t have a: "\<exists>n rollout c1 ratio.
     line_search (probe (forward_pass (backward_pass ?N (Suc 0) 0 ?s1) ?x))
       (Fin 1) (1 / 10) 1 = Some (Inr (rollout, Fin c1, ratio, 1 * beta ^ Suc n)) \<and>
     (c1 < 1 \<or> dbl_less ratio (Fin (1 / 10)))"
    by blast
  from t have h: "\<exists>m d1 hratio.
     line_search (probe (expected_cost hs' ?x)) (Fin 1) (1 / 10) 1 =
       Some (Inr ((), Fin d1, hratio, 1 * beta ^ Suc m)) \<and>
     (d1 < 1 \<or> dbl_less hratio (Fin (1 / 10)))"
    by blast
  from a h bp show ?thesis by blast
qed

lemma scalar_forward_pass_two:
  "forward_pass (scalar_solver q r qT [mZero, mZero] [mZero, mZero] [mZero, mZero]
      [mZero, mZero, mZero]) (scalar x) 1 =
     Inr (([scalar x, scalar x, scalar x], [mZero, mZero]),
          q * (x * x) / 2 + q * (x * x) / 2 + qT * (x * x) / 2)"
  by (simp add: forward_pass_def timesteps_def check_defs forward_step_def compute_control_stepsize_def
      scalar_defs matrix_defs Let_def fun_eq_iff upt_rec numeral_2_eq_2)

lemma scalar_solve_horizon_one:
  "solve (scalar_numerics q r qT) (scalar_solver q r qT [] [] [] []) 1 (scalar x) mZero 0 1
     (1 / 10) 1 False t_off =
   Some (Inr (backward_pass (scalar_numerics q r qT) 1 0
     (scalar_solver q r qT [mZero] [mZero] [mZero] [scalar x, scalar x])))"
proof -
  have i: "initialize (scalar_solver q r qT [] [] [] []) (Suc 0) mZero False t_off =
      Inr (scalar_solver q r qT [mZero] [mZero] [mZero] [mZero, mZero])"
    by (simp add: initialize_def scalar_solver_def)
  have c: "scalar_solver q r qT [mZero] [mZero] [mZero] [mZero, mZero]
      \<lparr>m_xhat := [scalar x, scalar x], m_uhat := [mZero]\<rparr>
     = scalar_solver q r qT [mZero] [mZero] [mZero] [scalar x, scalar x]"
    by (simp add: scalar_solver_def)
  have "solve (scalar_numerics q r qT) (scalar_solver q r qT [] [] [] []) 1 (scalar x) mZero 0 1
      (1 / 10) 1 False t_off =
      solve_loop (scalar_numerics q r qT) (Suc 0) (scalar x) 0 (1 / 10) 1 (Suc 0)
        (scalar_solver q r qT [mZero] [mZero] [mZero] [mZero, mZero]) PInf"
    by (simp add: solve_def check_defs i del: solve_loop.simps)
  also have "\<dots> = Some (Inr (backward_pass (scalar_numerics q r qT) (Suc 0) 0
        (scalar_solver q r qT [mZero] [mZero] [mZero] [mZero, mZero]
           \<lparr>m_xhat := [scalar x, scalar x], m_uhat := [mZero]\<rparr>)))"
    by (rule solve_loop_one [OF scalar_forward_pass])
  finally show ?thesis by (simp add: c)
qed

lemma scalar_solve_horizon_two:
  "solve (scalar_numerics q r qT) (scalar_solver q r qT [] [] [] []) 2 (scalar x) mZero 0 1
     (1 / 10) 1 False t_off =
   Some (Inr (backward_pass (scalar_numerics q r qT) 2 0
     (scalar_solver q r qT [mZero, mZero] [mZero, mZero] [mZero, mZero]
        [scalar x, scalar x, scalar x])))"
proof -
  have i: "initialize (scalar_solver q r qT [] [] [] []) 2 mZero False t_off =
      Inr (scalar_solver q r qT [mZero, mZero] [mZero, mZero] [mZero, mZero] [mZero, mZero, mZero])"
    by (simp add: initialize_def scalar_solver_def numeral_2_eq_2 numeral_3_eq_3)
  have c: "scalar_solver q r qT [mZero, mZero] [mZero, mZero] [mZero, mZero] [mZero, mZero, mZero]
      \<lparr>m_xhat := [scalar x, scalar x, scalar x], m_uhat := [mZero, mZero]\<rparr>
     = scalar_solver q r qT [mZero, mZero] [mZero, mZero] [mZero, mZero]
        [scalar x, scalar x, scalar x]"
    by (simp add: scalar_solver_def)
  have "solve (scalar_numerics q r qT) (scalar_solver q r qT [] [] [] []) 2 (scalar x) mZero 0 1
      (1 / 10) 1 False t_off =
      solve_loop (scalar_numerics q r qT) 2 (scalar x) 0 (1 / 10) 1 (Suc 0)
        (scalar_solver q r qT [mZero, mZero] [mZero, mZero] [mZero, mZero] [mZero, mZero, mZero])
        PInf"
    by (simp add: solve_def check_defs i del: solve_loop.simps)
  also have "\<dots> = Some (Inr (backward_pass (scalar_numerics q r qT) 2 0
        (scalar_solver q r qT [mZero, mZero] [mZero, mZero] [mZero, mZero] [mZero, mZero, mZero]
           \<lparr>m_xhat := [scalar x, scalar x, scalar x], m_uhat := [mZero, mZero]\<rparr>)))"
    by (rule solve_loop_one [OF scalar_forward_pass_two])
  finally show ?thesis by (simp add: c)
qed

text \<open>
  Claim C6, the counterexample.  The regulator \<open>x' = x + u\<close> with cost
  \<open>(x\<^sup>2 + u\<^sup>2) / 2\<close> and final cost \<open>x\<^sup>2 / 2\<close>, from \<open>x = 1\<close>, one round, cold start, once
  as the only branch of a hindsight solver and once in the single-chain solver.  With
  horizon 1 the hindsight \<^verbatim>\<open>solve\<close> throws at \<^verbatim>\<open>IS_GREATER(T, 1)\<close> and the single-chain
  \<^verbatim>\<open>solve\<close> returns its solution; with horizon 2 and \<open>t_offset = -1\<close> the hindsight
  \<^verbatim>\<open>solve\<close> throws at \<^verbatim>\<open>IS_GREATER_EQUAL(t_offset, 0)\<close> and the single-chain one, which
  does not read the offset on a cold start, returns again.
\<close>

theorem hindsight_rejects_what_single_chain_solves:
  "hs_solve (scalar_numerics 1 1 1) (scalar_hindsight [scalar_branch 1 1 1 1 [] [] [] []])
     1 (scalar 1) mZero 0 1 (1 / 10) 1 False 0 = Some (Inl IS_GREATER_failed) \<and>
   solve (scalar_numerics 1 1 1) (single_of (scalar_branch 1 1 1 1 [] [] [] []))
     1 (scalar 1) mZero 0 1 (1 / 10) 1 False 0 =
     Some (Inr (backward_pass (scalar_numerics 1 1 1) 1 0
       (scalar_solver 1 1 1 [mZero] [mZero] [mZero] [scalar 1, scalar 1]))) \<and>
   hs_solve (scalar_numerics 1 1 1) (scalar_hindsight [scalar_branch 1 1 1 1 [] [] [] []])
     2 (scalar 1) mZero 0 1 (1 / 10) 1 False (- 1) = Some (Inl IS_GREATER_EQUAL_failed) \<and>
   solve (scalar_numerics 1 1 1) (single_of (scalar_branch 1 1 1 1 [] [] [] []))
     2 (scalar 1) mZero 0 1 (1 / 10) 1 False (- 1) =
     Some (Inr (backward_pass (scalar_numerics 1 1 1) 2 0
       (scalar_solver 1 1 1 [mZero, mZero] [mZero, mZero] [mZero, mZero]
          [scalar 1, scalar 1, scalar 1])))"
proof -
  have so: "single_of (scalar_branch 1 1 1 1 [] [] [] []) = scalar_solver 1 1 1 [] [] [] []"
    by (simp add: single_of_def scalar_branch_def scalar_solver_def)
  have 1: "hs_solve (scalar_numerics 1 1 1) (scalar_hindsight [scalar_branch 1 1 1 1 [] [] [] []])
     1 (scalar 1) mZero 0 1 (1 / 10) 1 False 0 = Some (Inl IS_GREATER_failed)"
    by (simp add: hs_solve_def check_defs)
  have 2: "hs_solve (scalar_numerics 1 1 1) (scalar_hindsight [scalar_branch 1 1 1 1 [] [] [] []])
     2 (scalar 1) mZero 0 1 (1 / 10) 1 False (- 1) = Some (Inl IS_GREATER_EQUAL_failed)"
    by (simp add: hs_solve_def check_defs)
  show ?thesis
    unfolding so using 1 2 scalar_solve_horizon_one [of 1 1 1 1 0]
      scalar_solve_horizon_two [of 1 1 1 1 "- 1"]
    by simp
qed

section \<open>The first slots and the check of the rollouts\<close>



section \<open>The backup of the LQR tree\<close>

lemma mmul_mZero_left [simp]: "mmul mZero X = mZero"
  by (simp add: mmul_def mZero_def)

lemma mmul_mZero_right [simp]: "mmul X mZero = mZero"
  by (simp add: mmul_def mZero_def)

lemma mtranspose_mZero [simp]: "mtranspose mZero = mZero"
  by (simp add: mtranspose_def mZero_def)

lemma mscale_mZero [simp]: "mscale c mZero = mZero"
  by (simp add: mscale_def mZero_def)

lemma madd_mZero_right [simp]: "madd X mZero = X"
  by (simp add: madd_def mZero_def)

lemma backup_node_data [simp]: "same_data n (backup_node invf n V)"
  by (simp add: same_data_def backup_node_def compute_control_policy_def Let_def)

lemmas dmatrix_defs = dmul_def dadd_def dscale_def dtranspose_def

lemma backup_node_leaf: "leaf_result invf (backup_node invf n (Some mZero))"
  by (simp add: leaf_result_def backup_node_def compute_control_policy_def compute_value_matrix_def
      Let_def dmatrix_defs split: option.splits)

lemma backup_node_internal: "internal_result invf (backup_node invf n V) V"
  by (simp add: internal_result_def backup_node_def compute_control_policy_def
      compute_value_matrix_def Let_def mscale_minus_one dmatrix_defs split: option.splits)

lemma same_data_refl [simp]: "same_data n n"
  by (simp add: same_data_def)

lemma same_data_trans: "same_data a b \<Longrightarrow> same_data b c \<Longrightarrow> same_data a c"
  by (simp add: same_data_def)

lemma same_problem_refl [simp]: "same_problem t t"
  by (simp add: same_problem_def)

lemma same_problem_trans: "same_problem a b \<Longrightarrow> same_problem b c \<Longrightarrow> same_problem a c"
  by (auto simp: same_problem_def intro: same_data_trans)

lemma same_problem_update:
  assumes "same_problem t t'" and "same_data (item (t' ! p)) n"
  shows "same_problem t (t'[p := (t' ! p)\<lparr>item := n\<rparr>])"
  unfolding same_problem_def
proof (intro conjI allI impI)
  show "length (t'[p := (t' ! p)\<lparr>item := n\<rparr>]) = length t"
    using assms(1) by (simp add: same_problem_def)
next
  fix i assume i: "i < length t"
  then have i': "i < length t'" using assms(1) by (simp add: same_problem_def)
  have old: "parent (t' ! i) = parent (t ! i)" "children (t' ! i) = children (t ! i)"
    "depth (t' ! i) = depth (t ! i)" "same_data (item (t ! i)) (item (t' ! i))"
    using assms(1) i by (simp_all add: same_problem_def)
  show "parent (t'[p := (t' ! p)\<lparr>item := n\<rparr>] ! i) = parent (t ! i)"
    using old i' by (cases "i = p") simp_all
  show "children (t'[p := (t' ! p)\<lparr>item := n\<rparr>] ! i) = children (t ! i)"
    using old i' by (cases "i = p") simp_all
  show "depth (t'[p := (t' ! p)\<lparr>item := n\<rparr>] ! i) = depth (t ! i)"
    using old i' by (cases "i = p") simp_all
  show "same_data (item (t ! i)) (item (t'[p := (t' ! p)\<lparr>item := n\<rparr>] ! i))"
    using old i' assms(2) by (cases "i = p") (auto intro: same_data_trans)
qed

lemma aggregate_cong:
  assumes "children (t' ! i) = children (t ! i)"
    and "\<And>c. c \<in> set (children (t ! i)) \<Longrightarrow> item (t' ! c) = item (t ! c)"
  shows "aggregate t' i = aggregate t i"
proof -
  have "list_all (\<lambda>child. m_V (item (t' ! child)) \<noteq> None) (children (t ! i)) =
      list_all (\<lambda>child. m_V (item (t ! child)) \<noteq> None) (children (t ! i))"
    using assms(2) by (simp add: list_all_iff)
  moreover have "map (\<lambda>child. mscale (m_probability (item (t' ! child))) (the (m_V (item (t' ! child)))))
        (children (t ! i)) =
      map (\<lambda>child. mscale (m_probability (item (t ! child))) (the (m_V (item (t ! child)))))
        (children (t ! i))"
    using assms(2) by (intro map_cong) simp_all
  ultimately show ?thesis unfolding aggregate_def assms(1) by (simp only:)
qed

lemma solved_cong:
  assumes "children (t' ! i) = children (t ! i)" and "item (t' ! i) = item (t ! i)"
    and "\<And>c. c \<in> set (children (t ! i)) \<Longrightarrow> item (t' ! c) = item (t ! c)"
  shows "solved invf t' i = solved invf t i"
proof -
  have "aggregate t' i = aggregate t i"
    by (rule aggregate_cong [OF assms(1,3)])
  then show ?thesis by (simp add: solved_def assms(1,2))
qed

lemma for_loop_map: "for_loop (map f xs) body s = for_loop xs (\<lambda>x. body (f x)) s"
  by (induction xs arbitrary: s) (simp_all split: sum.splits)

lemma for_loop_cong:
  "(\<And>x s. x \<in> set xs \<Longrightarrow> body x s = body' x s) \<Longrightarrow> for_loop xs body s = for_loop xs body' s"
  by (induction xs arbitrary: s) (simp_all split: sum.splits)

lemma for_loop_nth: "for_loop xs body s = for_loop [0..<length xs] (\<lambda>k. body (xs ! k)) s"
proof -
  have "for_loop (map (\<lambda>k. xs ! k) [0..<length xs]) body s =
      for_loop [0..<length xs] (\<lambda>k. body (xs ! k)) s"
    by (rule for_loop_map)
  then show ?thesis by (simp add: map_nth)
qed

lemma for_loop_list_total:
  assumes "\<And>k s. k < length xs \<Longrightarrow> P k s \<Longrightarrow> \<exists>s'. body (xs ! k) s = Inr s' \<and> P (Suc k) s'"
    and "P 0 s"
  shows "\<exists>s'. for_loop xs body s = Inr s' \<and> P (length xs) s'"
  unfolding for_loop_nth [of xs body s]
  by (rule for_loop_total [of "length xs" P "\<lambda>k. body (xs ! k)", OF assms])

lemma leaf_nodes_iff: "i \<in> set (leaf_nodes t) \<longleftrightarrow> i < length t \<and> children (t ! i) = []"
  by (auto simp: leaf_nodes_def)

lemma distinct_leaf_nodes: "distinct (leaf_nodes t)"
  by (simp add: leaf_nodes_def)

lemma wf_treeD:
  assumes "wf_tree t"
  shows "t \<noteq> []" "parent (t ! 0) = None" "depth (t ! 0) = 0"
    and "\<And>i. i < length t \<Longrightarrow> 0 < i \<Longrightarrow>
          (case parent (t ! i) of
             None \<Rightarrow> False
           | Some p \<Rightarrow> p < i \<and> depth (t ! i) = depth (t ! p) + 1 \<and> i \<in> set (children (t ! p)))"
    and "\<And>p. p < length t \<Longrightarrow> distinct (children (t ! p))"
    and "\<And>p c. p < length t \<Longrightarrow> c \<in> set (children (t ! p)) \<Longrightarrow> c < length t \<and> parent (t ! c) = Some p"
  using assms unfolding wf_tree_def by blast+

lemma wf_child:
  assumes "wf_tree t" and "p < length t" and "c \<in> set (children (t ! p))"
  shows "c < length t" "parent (t ! c) = Some p" "p < c" "depth (t ! c) = depth (t ! p) + 1"
proof -
  from wf_treeD(6) [OF assms] show c: "c < length t" and pc: "parent (t ! c) = Some p"
    by simp_all
  have "c \<noteq> 0" using wf_treeD(2) [OF assms(1)] pc by (cases "c = 0") simp_all
  then have "0 < c" by simp
  from wf_treeD(4) [OF assms(1) c this]
  show "p < c" "depth (t ! c) = depth (t ! p) + 1" by (simp_all add: pc)
qed

lemma wf_parent:
  assumes "wf_tree t" and "i < length t" and "0 < i"
  obtains p where "parent (t ! i) = Some p" "p < i" "depth (t ! i) = depth (t ! p) + 1"
    "i \<in> set (children (t ! p))"
  using wf_treeD(4) [OF assms] that by (cases "parent (t ! i)") auto

lemma wf_root:
  assumes "wf_tree t" and "i < length t"
  shows "depth (t ! i) = 0 \<longleftrightarrow> i = 0"
proof
  assume "depth (t ! i) = 0"
  show "i = 0"
  proof (rule ccontr)
    assume "i \<noteq> 0"
    then have "0 < i" by simp
    from wf_parent [OF assms this] obtain p where "depth (t ! i) = depth (t ! p) + 1" by blast
    then show False using \<open>depth (t ! i) = 0\<close> by simp
  qed
next
  assume "i = 0"
  then show "depth (t ! i) = 0" using wf_treeD(3) [OF assms(1)] by simp
qed

lemma deeper_leaf:
  assumes wf: "wf_tree t"
  shows "i < length t \<Longrightarrow>
     \<exists>l\<in>set (leaf_nodes t). depth (t ! i) \<le> depth (t ! l) \<and>
        (children (t ! i) \<noteq> [] \<longrightarrow> depth (t ! i) < depth (t ! l))"
proof (induction "length t - i" arbitrary: i rule: less_induct)
  case less
  show ?case
  proof (cases "children (t ! i) = []")
    case True
    then have "i \<in> set (leaf_nodes t)" using less.prems by (simp add: leaf_nodes_iff)
    then show ?thesis using True by blast
  next
    case False
    then obtain c where c: "c \<in> set (children (t ! i))" by (cases "children (t ! i)") auto
    note w = wf_child [OF wf less.prems c]
    have "length t - c < length t - i" using w(1,3) by simp
    from less.hyps [OF this w(1)] obtain l where "l \<in> set (leaf_nodes t)"
      "depth (t ! c) \<le> depth (t ! l)" by blast
    then show ?thesis using w(4) by (intro bexI [of _ l]) simp_all
  qed
qed

lemma level_facts:
  assumes wf: "wf_tree t" and lv: "leaves_level t"
  obtains d where "\<And>i. i < length t \<Longrightarrow> depth (t ! i) \<le> d"
    and "\<And>i. i < length t \<Longrightarrow> (children (t ! i) = []) = (depth (t ! i) = d)"
proof -
  have "0 < length t" using wf_treeD(1) [OF wf] by simp
  from deeper_leaf [OF wf this] obtain l0 where l0: "l0 \<in> set (leaf_nodes t)" by blast
  define d where "d = depth (t ! l0)"
  have leaf: "depth (t ! l) = d" if "l \<in> set (leaf_nodes t)" for l
    using lv that l0 unfolding leaves_level_def d_def by blast
  have 1: "depth (t ! i) \<le> d" if "i < length t" for i
    using deeper_leaf [OF wf that] leaf by auto
  have 2: "(children (t ! i) = []) = (depth (t ! i) = d)" if "i < length t" for i
  proof
    assume "children (t ! i) = []"
    then show "depth (t ! i) = d" using that leaf by (simp add: leaf_nodes_iff)
  next
    assume e: "depth (t ! i) = d"
    show "children (t ! i) = []"
    proof (rule ccontr)
      assume "children (t ! i) \<noteq> []"
      then show False using deeper_leaf [OF wf that] leaf e by auto
    qed
  qed
  from 1 2 show ?thesis using that by blast
qed

lemma leaves_phase:
  fixes t :: "('x::finite, 'u::finite) Tree"
  assumes lv: "leaves_level t"
  shows "\<exists>t1. control_and_value_for_leaves invf t = Inr t1 \<and> same_problem t t1 \<and>
           (\<forall>i<length t. children (t ! i) = [] \<longrightarrow> leaf_result invf (item (t1 ! i)))"
proof -
  define ls where "ls = leaf_nodes t"
  define FD where "FD = (if length ls > 0 then int (depth (t ! hd ls)) else - 1)"
  define body where "body = (\<lambda>leaf (t :: ('x, 'u) Tree).
      case IS_EQUAL (int (depth (t ! leaf))) FD of
        Inl e \<Rightarrow> Inl e
      | Inr _ \<Rightarrow> Inr (t[leaf := (t ! leaf)\<lparr>item := backup_node invf (item (t ! leaf)) (Some mZero)\<rparr>]))"
  define P where "P k s \<longleftrightarrow> same_problem t s \<and> (\<forall>m<k. leaf_result invf (item (s ! (ls ! m))))"
    for k and s :: "('x, 'u) Tree"
  have dl: "distinct ls" unfolding ls_def by (rule distinct_leaf_nodes)
  have step: "\<exists>s'. body (ls ! k) s = Inr s' \<and> P (Suc k) s'"
    if k: "k < length ls" and p: "P k s" for k s
  proof -
    define l where "l = ls ! k"
    have lk: "l \<in> set ls" using k by (simp add: l_def)
    then have l: "l < length t" by (simp add: ls_def leaf_nodes_iff)
    have sp: "same_problem t s" using p by (simp add: P_def)
    then have ls: "l < length s" and dep: "depth (s ! l) = depth (t ! l)"
      using l by (simp_all add: same_problem_def)
    have "hd ls \<in> set ls" using k by (cases ls) simp_all
    then have "depth (t ! hd ls) = depth (t ! l)"
      using lv lk unfolding leaves_level_def ls_def by blast
    moreover have "ls \<noteq> []" using k by (cases ls) simp_all
    ultimately have fd: "FD = int (depth (t ! l))"
      by (simp add: FD_def)
    define s' where "s' = s[l := (s ! l)\<lparr>item := backup_node invf (item (s ! l)) (Some mZero)\<rparr>]"
    have b: "body l s = Inr s'"
      unfolding body_def fd dep s'_def by (simp add: IS_EQUAL_def)
    have sp': "same_problem t s'"
      unfolding s'_def by (rule same_problem_update [OF sp]) simp
    have res: "leaf_result invf (item (s' ! (ls ! m)))" if "m < Suc k" for m
    proof (cases "m = k")
      case True
      then show ?thesis using ls by (simp add: s'_def l_def [symmetric] backup_node_leaf)
    next
      case False
      then have m: "m < k" using that by simp
      then have "ls ! m \<noteq> l"
        using k dl by (simp add: l_def nth_eq_iff_index_eq)
      moreover have "leaf_result invf (item (s ! (ls ! m)))" using p m by (simp add: P_def)
      ultimately show ?thesis by (simp add: s'_def)
    qed
    show ?thesis using b sp' res unfolding P_def l_def by blast
  qed
  have "P 0 t" by (simp add: P_def)
  from for_loop_list_total [of ls P body, OF step this] obtain t1 where
    r: "for_loop ls body t = Inr t1" and fin: "P (length ls) t1"
    by blast
  have "leaf_result invf (item (t1 ! i))" if "i < length t" "children (t ! i) = []" for i
  proof -
    have "i \<in> set ls" using that by (simp add: ls_def leaf_nodes_iff)
    then obtain m where "m < length ls" "ls ! m = i" by (auto simp: in_set_conv_nth)
    then show ?thesis using fin unfolding P_def by auto
  qed
  moreover have "control_and_value_for_leaves invf t = Inr t1"
    unfolding control_and_value_for_leaves_def Let_def
    using r unfolding body_def FD_def ls_def .
  ultimately show ?thesis using fin unfolding P_def by blast
qed

lemma buckets_case:
  "(case buckets t cs key of None \<Rightarrow> [] | Some b \<Rightarrow> b) = filter (\<lambda>child. parent (t ! child) = key) cs"
  by (simp add: buckets_def Let_def)

lemma file_loop:
  assumes "\<And>c. c \<in> set cs \<Longrightarrow> int (depth (t ! c)) = FD"
  shows "for_loop cs (file_child t FD) Map.empty = Inr (buckets t cs)"
proof -
  define P where "P k m \<longleftrightarrow> m = buckets t (take k cs)" for k and m :: "nat option \<Rightarrow> nat list option"
  have step: "\<exists>m'. file_child t FD (cs ! k) m = Inr m' \<and> P (Suc k) m'"
    if k: "k < length cs" and p: "P k m" for k m
  proof -
    have m: "m = buckets t (take k cs)" using p by (simp add: P_def)
    have d: "int (depth (t ! (cs ! k))) = FD" using assms k by simp
    have "file_child t FD (cs ! k) m =
        Inr (m(parent (t ! (cs ! k)) \<mapsto>
          (case m (parent (t ! (cs ! k))) of None \<Rightarrow> [] | Some b \<Rightarrow> b) @ [cs ! k]))"
      by (simp add: file_child_def d IS_EQUAL_def Let_def)
    moreover have "m(parent (t ! (cs ! k)) \<mapsto>
          (case m (parent (t ! (cs ! k))) of None \<Rightarrow> [] | Some b \<Rightarrow> b) @ [cs ! k]) =
        buckets t (take (Suc k) cs)"
      unfolding m buckets_case
      by (rule ext) (simp add: buckets_def take_Suc_conv_app_nth [OF k] Let_def)
    ultimately show ?thesis by (simp add: P_def)
  qed
  have "P 0 Map.empty" by (simp add: P_def buckets_def fun_eq_iff)
  from for_loop_list_total [of cs P "file_child t FD", OF step this]
  show ?thesis by (auto simp: P_def)
qed

lemma fold_dadd_None: "fold (\<lambda>child V. dadd V (g child)) cs None = None"
  by (induction cs) (simp_all add: dadd_def)

lemma fold_dadd:
  "fold (\<lambda>child V. dadd V (dscale (p child) (v child))) cs (Some V0) =
     (if list_all (\<lambda>child. v child \<noteq> None) cs
      then Some (madd V0 (msum (map (\<lambda>child. mscale (p child) (the (v child))) cs)))
      else None)"
proof (induction cs arbitrary: V0)
  case Nil
  then show ?case by (simp add: madd_def msum_def)
next
  case (Cons c cs)
  show ?case
  proof (cases "v c")
    case None
    then have "dadd (Some V0) (dscale (p c) (v c)) = None" by (simp add: dadd_def dscale_def)
    then have "fold (\<lambda>child V. dadd V (dscale (p child) (v child))) (c # cs) (Some V0) = None"
      unfolding fold_simps(2) by (simp only: fold_dadd_None)
    then show ?thesis using None by simp
  next
    case (Some M)
    have a: "dadd (Some V0) (dscale (p c) (v c)) = Some (madd V0 (mscale (p c) M))"
      using Some by (simp add: dadd_def dscale_def)
    have "madd (madd V0 (mscale (p c) M)) (msum (map (\<lambda>child. mscale (p child) (the (v child))) cs)) =
        madd V0 (msum (mscale (p c) M # map (\<lambda>child. mscale (p child) (the (v child))) cs))"
      by (simp add: madd_def msum_def fun_eq_iff)
    then show ?thesis using Some unfolding fold_simps(2) a Cons.IH by simp
  qed
qed

lemma msum_distinct:
  assumes "distinct xs" "distinct ys" "set xs = set ys"
  shows "msum (map g xs) = msum (map g ys)"
proof -
  have "(\<Sum>M\<leftarrow>map g xs. M i j) = (\<Sum>M\<leftarrow>map g ys. M i j)" for i j
  proof -
    have "(\<Sum>M\<leftarrow>map g zs. M i j) = (\<Sum>z\<leftarrow>zs. g z i j)" for zs
      by (simp add: comp_def)
    then show ?thesis
      using assms by (simp add: sum_list_distinct_conv_sum_set)
  qed
  then show ?thesis by (simp add: msum_def)
qed

lemma parents_loop:
  fixes t :: "('x::finite, 'u::finite) Tree"
  assumes wf: "wf_tree t"
    and sp: "same_problem t t'"
    and dk: "distinct keys"
    and keys: "\<And>key. key \<in> set keys \<Longrightarrow> \<exists>p. key = Some p \<and> p < length t \<and> depth (t ! p) = j"
    and dcs: "distinct cs"
    and cs: "set cs = {i. i < length t \<and> depth (t ! i) = Suc j}"
  shows "\<exists>t'' ps. for_loop keys (backup_parent invf (buckets t' cs)) (t', []) = Inr (t'', ps) \<and>
           same_problem t t'' \<and> ps = map the keys \<and>
           (\<forall>i<length t. Some i \<notin> set keys \<longrightarrow> item (t'' ! i) = item (t' ! i)) \<and>
           (\<forall>i. Some i \<in> set keys \<longrightarrow> internal_result invf (item (t'' ! i)) (aggregate t'' i))"
proof -
  define P where "P k acc \<longleftrightarrow> (case acc of (s, ps) \<Rightarrow>
      same_problem t s \<and> ps = map the (take k keys) \<and>
      (\<forall>i<length t. Some i \<notin> set (take k keys) \<longrightarrow> item (s ! i) = item (t' ! i)) \<and>
      (\<forall>i. Some i \<in> set (take k keys) \<longrightarrow> internal_result invf (item (s ! i)) (aggregate s i)))"
    for k and acc :: "('x, 'u) Tree \<times> nat list"
  have step: "\<exists>acc'. backup_parent invf (buckets t' cs) (keys ! k) acc = Inr acc' \<and> P (Suc k) acc'"
    if k: "k < length keys" and p: "P k acc" for k acc
  proof -
    obtain s ps where acc: "acc = (s, ps)" by (cases acc)
    have sps: "same_problem t s" and ps: "ps = map the (take k keys)"
      and unch: "\<And>i. i < length t \<Longrightarrow> Some i \<notin> set (take k keys) \<Longrightarrow> item (s ! i) = item (t' ! i)"
      and proc: "\<And>i. Some i \<in> set (take k keys) \<Longrightarrow> internal_result invf (item (s ! i)) (aggregate s i)"
      using p unfolding P_def acc by simp_all
    from keys [of "keys ! k"] k obtain q where
      key: "keys ! k = Some q" and q: "q < length t" and dq: "depth (t ! q) = j"
      by auto
    have tk: "take (Suc k) keys = take k keys @ [Some q]"
      using take_Suc_conv_app_nth [OF k] key by simp
    have "distinct (take (Suc k) keys)" using dk by (rule distinct_take)
    then have fresh: "Some q \<notin> set (take k keys)" unfolding tk by simp
    have notkey: "Some c \<notin> set keys" if "c < length t" "depth (t ! c) \<noteq> j" for c
      using keys [of "Some c"] that by auto
    have ch: "children (s ! i) = children (t ! i)" "length s = length t" if "i < length t" for i
      using sps that by (simp_all add: same_problem_def)
    have ch': "parent (t' ! i) = parent (t ! i)" if "i < length t" for i
      using sp that by (simp add: same_problem_def)
    define b where "b = filter (\<lambda>child. parent (t' ! child) = Some q) cs"
    have db: "distinct b" using dcs by (simp add: b_def)
    have sb: "set b = set (children (t ! q))"
    proof (intro set_eqI iffI)
      fix c assume "c \<in> set b"
      then have c: "c < length t" "depth (t ! c) = Suc j" "parent (t ! c) = Some q"
        using cs ch' by (auto simp: b_def)
      then have "0 < c" using wf_root [OF wf c(1)] by simp
      from wf_parent [OF wf c(1) this] c(3) show "c \<in> set (children (t ! q))" by auto
    next
      fix c assume c: "c \<in> set (children (t ! q))"
      note w = wf_child [OF wf q c]
      then show "c \<in> set b" using cs dq ch' by (simp add: b_def)
    qed
    have kids: "item (s ! c) = item (t' ! c)" "c \<noteq> q" "c < length t"
      if "i < length t" "depth (t ! i) = j" "c \<in> set (children (t ! i))" for i c
    proof -
      note w = wf_child [OF wf that(1,3)]
      show c: "c < length t" using w by simp
      have d: "depth (t ! c) \<noteq> j" using w that(2) by simp
      then show "c \<noteq> q" using dq by auto
      have "Some c \<notin> set (take k keys)" using notkey [OF c d] by (auto dest: in_set_takeD)
      then show "item (s ! c) = item (t' ! c)" using unch [OF c] by simp
    qed
    define g where "g = (\<lambda>child. mscale (m_probability (item (s ! child))) (the (m_V (item (s ! child)))))"
    define Vtilde where "Vtilde = fold (\<lambda>child V. dadd V (dscale (m_probability (item (s ! child)))
                                                   (m_V (item (s ! child))))) b (Some mZero)"
    have V: "Vtilde = aggregate s q"
    proof -
      have fin: "list_all (\<lambda>child. m_V (item (s ! child)) \<noteq> None) b =
          list_all (\<lambda>child. m_V (item (s ! child)) \<noteq> None) (children (t ! q))"
        using sb by (simp add: list_all_iff)
      have "msum (map g b) = msum (map g (children (t ! q)))"
        by (rule msum_distinct [OF db wf_treeD(5) [OF wf q] sb])
      then show ?thesis
        unfolding Vtilde_def fold_dadd fin aggregate_def ch(1) [OF q] g_def by simp
    qed
    define s' where "s' = s[q := (s ! q)\<lparr>item := backup_node invf (item (s ! q)) Vtilde\<rparr>]"
    have bp: "backup_parent invf (buckets t' cs) (keys ! k) acc = Inr (s', ps @ [q])"
      unfolding backup_parent_def acc prod.case buckets_case key Let_def option.case
        s'_def Vtilde_def b_def ..
    have qs: "q < length s" using ch(2) [OF q] q by simp
    have nth: "s' ! i = (if i = q then (s ! q)\<lparr>item := backup_node invf (item (s ! q)) Vtilde\<rparr> else s ! i)"
      if "i < length t" for i
      using that qs ch(2) [OF that] by (simp add: s'_def nth_list_update)
    have agg: "aggregate s' i = aggregate s i" if "i < length t" "depth (t ! i) = j" for i
    proof (rule aggregate_cong)
      show "children (s' ! i) = children (s ! i)" using nth [OF that(1)] by simp
      fix c assume "c \<in> set (children (s ! i))"
      then have c: "c \<in> set (children (t ! i))" using ch(1) [OF that(1)] by simp
      from kids(2,3) [OF that c] show "item (s' ! c) = item (s ! c)" using nth by simp
    qed
    have 1: "same_problem t s'"
      unfolding s'_def by (rule same_problem_update [OF sps]) simp
    have 2: "ps @ [q] = map the (take (Suc k) keys)" by (simp add: tk ps)
    have 3: "item (s' ! i) = item (t' ! i)" if "i < length t" "Some i \<notin> set (take (Suc k) keys)" for i
    proof -
      have "i \<noteq> q" "Some i \<notin> set (take k keys)" using that(2) by (auto simp: tk)
      then show ?thesis using nth [OF that(1)] unch [OF that(1)] by simp
    qed
    have 4: "internal_result invf (item (s' ! i)) (aggregate s' i)"
      if "Some i \<in> set (take (Suc k) keys)" for i
    proof -
      have "Some i \<in> set keys" using that by (auto dest: in_set_takeD)
      from keys [OF this] have i: "i < length t" "depth (t ! i) = j" by auto
      show ?thesis
      proof (cases "i = q")
        case True
        then show ?thesis
          unfolding agg [OF i] using nth [OF i(1)] by (simp add: V [symmetric] backup_node_internal)
      next
        case False
        then have "Some i \<in> set (take k keys)" using that by (simp add: tk)
        from proc [OF this] show ?thesis
          unfolding agg [OF i] using nth [OF i(1)] False by simp
      qed
    qed
    show ?thesis
      unfolding bp P_def using 1 2 3 4 by simp
  qed
  have "P 0 (t', [])" using sp by (simp add: P_def)
  from for_loop_list_total [of keys P "backup_parent invf (buckets t' cs)", OF step this]
  obtain acc where r: "for_loop keys (backup_parent invf (buckets t' cs)) (t', []) = Inr acc"
    and fin: "P (length keys) acc" by blast
  obtain t'' ps where acc: "acc = (t'', ps)" by (cases acc)
  show ?thesis
    using r fin unfolding P_def acc by simp
qed

lemma round:
  fixes t :: "('x::finite, 'u::finite) Tree"
  assumes wf: "wf_tree t"
    and dleaf: "\<And>i. i < length t \<Longrightarrow> (children (t ! i) = []) = (depth (t ! i) = d)"
    and jd: "j < d"
    and inv: "climbed invf t (Suc j) t' cs"
    and ho: "\<And>ks. distinct ks \<Longrightarrow> distinct (hash_order ks) \<and> set (hash_order ks) = set ks"
  shows "\<exists>t'' ps. backup_to_parents invf hash_order t' cs = Inr (t'', ps) \<and> climbed invf t j t'' ps"
proof -
  from inv have sp: "same_problem t t'" and dcs: "distinct cs"
    and cs: "set cs = {i. i < length t \<and> depth (t ! i) = Suc j}"
    and sv: "\<And>i. i < length t \<Longrightarrow> Suc j \<le> depth (t ! i) \<Longrightarrow> solved invf t' i"
    unfolding climbed_def by simp_all
  have same: "parent (t' ! i) = parent (t ! i)" "children (t' ! i) = children (t ! i)"
    "depth (t' ! i) = depth (t ! i)" if "i < length t" for i
    using sp that by (simp_all add: same_problem_def)
  define FD where "FD = (if length cs > 0 then int (depth (t' ! hd cs)) else - 1)"
  have fd: "int (depth (t' ! c)) = FD" if "c \<in> set cs" for c
  proof -
    have ne: "cs \<noteq> []" using that by auto
    then have "hd cs \<in> set cs" by simp
    then have "depth (t' ! hd cs) = Suc j" using cs same(3) by auto
    moreover have "depth (t' ! c) = Suc j" using that cs same(3) by auto
    ultimately show ?thesis using ne by (simp add: FD_def)
  qed
  have fl: "for_loop cs (file_child t' FD) Map.empty = Inr (buckets t' cs)"
    by (rule file_loop [OF fd])
  define keys where "keys = hash_order (remdups (map (\<lambda>child. parent (t' ! child)) cs))"
  have dk: "distinct keys" and sk: "set keys = (\<lambda>child. parent (t' ! child)) ` set cs"
    using ho [of "remdups (map (\<lambda>child. parent (t' ! child)) cs)"] by (simp_all add: keys_def)
  have par: "\<exists>p. parent (t' ! c) = Some p \<and> p < length t \<and> depth (t ! p) = j" if "c \<in> set cs" for c
  proof -
    have c: "c < length t" "depth (t ! c) = Suc j" using that cs by simp_all
    then have "0 < c" using wf_root [OF wf c(1)] by simp
    from wf_parent [OF wf c(1) this] obtain p where
      "parent (t ! c) = Some p" "p < c" "depth (t ! c) = depth (t ! p) + 1" by blast
    then show ?thesis using c same(1) [OF c(1)] by simp
  qed
  have keyD: "\<exists>p. key = Some p \<and> p < length t \<and> depth (t ! p) = j" if "key \<in> set keys" for key
    using that par unfolding sk by auto
  have keyI: "Some i \<in> set keys" if i: "i < length t" "depth (t ! i) = j" for i
  proof -
    have "children (t ! i) \<noteq> []" using dleaf [OF i(1)] i(2) jd by simp
    then obtain c where c: "c \<in> set (children (t ! i))" by (cases "children (t ! i)") auto
    note w = wf_child [OF wf i(1) c]
    have "c \<in> set cs" using w i(2) cs by simp
    moreover have "parent (t' ! c) = Some i" using w same(1) by simp
    ultimately show ?thesis unfolding sk by force
  qed
  from parents_loop [OF wf sp dk keyD dcs cs, of invf] obtain t'' ps where
    r: "for_loop keys (backup_parent invf (buckets t' cs)) (t', []) = Inr (t'', ps)"
    and sp'': "same_problem t t''" and ps: "ps = map the keys"
    and unch: "\<And>i. i < length t \<Longrightarrow> Some i \<notin> set keys \<Longrightarrow> item (t'' ! i) = item (t' ! i)"
    and res: "\<And>i. Some i \<in> set keys \<Longrightarrow> internal_result invf (item (t'' ! i)) (aggregate t'' i)"
    by blast
  have same'': "children (t'' ! i) = children (t ! i)" if "i < length t" for i
    using sp'' that by (simp add: same_problem_def)
  have b: "backup_to_parents invf hash_order t' cs = Inr (t'', ps)"
    unfolding backup_to_parents_def Let_def FD_def [symmetric] fl sum.case keys_def [symmetric] r ..
  have "inj_on the (set keys)"
  proof (rule inj_onI)
    fix x y assume "x \<in> set keys" "y \<in> set keys" "the x = the y"
    moreover from keyD [of x] keyD [of y] calculation(1,2)
    obtain p q where "x = Some p" "y = Some q" by blast
    ultimately show "x = y" by simp
  qed
  then have 1: "distinct ps" unfolding ps using dk by (simp add: distinct_map)
  have 2: "set ps = {i. i < length t \<and> depth (t ! i) = j}"
  proof (intro set_eqI iffI)
    fix i assume "i \<in> set ps"
    then obtain key where "key \<in> set keys" "i = the key" unfolding ps by auto
    then show "i \<in> {i. i < length t \<and> depth (t ! i) = j}" using keyD by fastforce
  next
    fix i assume "i \<in> {i. i < length t \<and> depth (t ! i) = j}"
    then have "Some i \<in> set keys" using keyI by simp
    then have "the (Some i) \<in> set ps" unfolding ps by (simp only: set_map image_eqI)
    then show "i \<in> set ps" by simp
  qed
  have 3: "solved invf t'' i" if i: "i < length t" "j \<le> depth (t ! i)" for i
  proof (cases "depth (t ! i) = j")
    case True
    have "children (t ! i) \<noteq> []" using dleaf [OF i(1)] True jd by simp
    then show ?thesis
      using res [OF keyI [OF i(1) True]] by (simp add: solved_def same'' [OF i(1)])
  next
    case False
    then have deep: "Suc j \<le> depth (t ! i)" using i(2) by simp
    have nk: "Some i \<notin> set keys" using keyD [of "Some i"] False by auto
    have "solved invf t'' i = solved invf t' i"
    proof (rule solved_cong)
      show "children (t'' ! i) = children (t' ! i)" using same'' same(2) i(1) by simp
      show "item (t'' ! i) = item (t' ! i)" by (rule unch [OF i(1) nk])
      fix c assume "c \<in> set (children (t' ! i))"
      then have c: "c \<in> set (children (t ! i))" using same(2) [OF i(1)] by simp
      note w = wf_child [OF wf i(1) c]
      have "Some c \<notin> set keys" using keyD [of "Some c"] w(4) deep by auto
      then show "item (t'' ! c) = item (t' ! c)" using unch [OF w(1)] by simp
    qed
    then show ?thesis using sv [OF i(1) deep] by simp
  qed
  have "climbed invf t j t'' ps"
    unfolding climbed_def using sp'' 1 2 3 by simp
  with b show ?thesis by blast
qed

lemma climb_returns:
  fixes t :: "('x::finite, 'u::finite) Tree"
  assumes wf: "wf_tree t"
    and dleaf: "\<And>i. i < length t \<Longrightarrow> (children (t ! i) = []) = (depth (t ! i) = d)"
    and ho: "\<And>ks. distinct ks \<Longrightarrow> distinct (hash_order ks) \<and> set (hash_order ks) = set ks"
  shows "j \<le> d \<Longrightarrow> climbed invf t j t' cs \<Longrightarrow>
     \<exists>t''. climb invf hash_order t' cs = Some (Inr t'') \<and> same_problem t t'' \<and>
       (\<forall>i<length t. solved invf t'' i)"
proof (induction j arbitrary: t' cs)
  case 0
  from 0(2) have sp: "same_problem t t'" and dcs: "distinct cs"
    and cs: "set cs = {i. i < length t \<and> depth (t ! i) = 0}"
    and sv: "\<forall>i<length t. solved invf t' i"
    unfolding climbed_def by simp_all
  have "0 < length t" using wf_treeD(1) [OF wf] by simp
  then have "set cs = {0}" unfolding cs using wf_root [OF wf] by auto
  have c0: "cs = [0]"
  proof (cases cs)
    case Nil
    then show ?thesis using \<open>set cs = {0}\<close> by simp
  next
    case (Cons a as)
    have "a = 0" using \<open>set cs = {0}\<close> Cons by auto
    moreover have "as = []"
    proof (cases as)
      case (Cons b bs)
      then have "b \<in> set cs" "b \<noteq> a" using \<open>cs = a # as\<close> dcs by auto
      then show ?thesis using \<open>set cs = {0}\<close> \<open>a = 0\<close> by simp
    qed simp
    ultimately show ?thesis using Cons by simp
  qed
  have "depth (t' ! 0) = 0"
    using sp \<open>0 < length t\<close> wf_treeD(3) [OF wf] by (simp add: same_problem_def)
  then have "climb invf hash_order t' cs = Some (Inr t')"
    by (subst climb.simps) (simp add: c0)
  then show ?case using sp sv by blast
next
  case (Suc j)
  from Suc.prems(2) have sp: "same_problem t t'"
    and cs: "set cs = {i. i < length t \<and> depth (t ! i) = Suc j}"
    unfolding climbed_def by simp_all
  have go: "\<not> (length cs = 1 \<and> depth (t' ! hd cs) = 0)"
  proof
    assume a: "length cs = 1 \<and> depth (t' ! hd cs) = 0"
    then have "hd cs \<in> set cs" by (cases cs) simp_all
    then have "hd cs < length t" "depth (t ! hd cs) = Suc j" using cs by simp_all
    then have "depth (t' ! hd cs) = Suc j" using sp by (simp add: same_problem_def)
    then show False using a by simp
  qed
  have "j < d" using Suc.prems(1) by simp
  from round [OF wf dleaf this Suc.prems(2) ho] obtain t'' ps where
    b: "backup_to_parents invf hash_order t' cs = Inr (t'', ps)" and c: "climbed invf t j t'' ps"
    by blast
  have "climb invf hash_order t' cs = climb invf hash_order t'' ps"
    by (subst climb.simps) (simp only: go if_False b sum.case prod.case)
  moreover have "j \<le> d" using Suc.prems(1) by simp
  ultimately show ?case using Suc.IH [OF _ c] by simp
qed

text \<open>
  Claim C7, as amended.  On a tree of the shape that \<^verbatim>\<open>add_root\<close> and \<^verbatim>\<open>add_nodes\<close> build,
  with all leaves at the same depth, \<^verbatim>\<open>bellman_tree_backup\<close> returns, whatever the inverse
  routine and the iteration order of the hash map are, and leaves the dynamics, costs and
  probabilities as they were.  Afterwards every leaf whose \<open>R\<close> has a finite inverse has
  \<open>K = 0\<close> and \<open>V = Q\<close>, and every internal node whose children have finite value matrices
  and whose \<open>R + B\<^sup>T W B\<close> has a finite inverse has \<open>K = -(R + B\<^sup>T W B)\<^sup>-\<^sup>1 (B\<^sup>T W A)\<close> and
  \<open>V = Q + K\<^sup>T R K + (A + B K)\<^sup>T W (A + B K)\<close>, where \<open>W\<close> is the sum over its children of
  the child's probability times the child's value matrix.  At every other node \<open>K\<close> and
  \<open>V\<close> are not finite.
\<close>

theorem tree_backup_results:
  fixes t :: "('x::finite, 'u::finite) Tree"
  assumes "wf_tree t" and "leaves_level t"
    and "\<And>ks. distinct ks \<Longrightarrow> distinct (hash_order ks) \<and> set (hash_order ks) = set ks"
  shows "\<exists>t'. bellman_tree_backup invf hash_order t = Some (Inr t') \<and> same_problem t t' \<and>
           (\<forall>i<length t'.
              if children (t' ! i) = [] then leaf_result invf (item (t' ! i))
              else internal_result invf (item (t' ! i)) (aggregate t' i))"
proof -
  from level_facts [OF assms(1,2)] obtain d where
    dle: "\<And>i. i < length t \<Longrightarrow> depth (t ! i) \<le> d"
    and dleaf: "\<And>i. i < length t \<Longrightarrow> (children (t ! i) = []) = (depth (t ! i) = d)"
    by blast
  from leaves_phase [OF assms(2), of invf] obtain t1 where
    l: "control_and_value_for_leaves invf t = Inr t1" and sp: "same_problem t t1"
    and lr: "\<And>i. i < length t \<Longrightarrow> children (t ! i) = [] \<Longrightarrow> leaf_result invf (item (t1 ! i))"
    by blast
  have same: "children (t1 ! i) = children (t ! i)" "length t1 = length t" if "i < length t" for i
    using sp that by (simp_all add: same_problem_def)
  have len: "length t1 = length t" using sp by (simp add: same_problem_def)
  have "set (leaf_nodes t1) = {i. i < length t \<and> depth (t ! i) = d}"
    using same(1) dleaf by (auto simp: leaf_nodes_iff len)
  moreover have "solved invf t1 i" if "i < length t" "d \<le> depth (t ! i)" for i
  proof -
    have "depth (t ! i) = d" using dle [OF that(1)] that(2) by simp
    then have "children (t ! i) = []" using dleaf [OF that(1)] by simp
    then show ?thesis using lr [OF that(1)] same(1) [OF that(1)] by (simp add: solved_def)
  qed
  ultimately have "climbed invf t d t1 (leaf_nodes t1)"
    unfolding climbed_def using sp distinct_leaf_nodes by blast
  from climb_returns [OF assms(1) dleaf assms(3) _ this] obtain t' where
    c: "climb invf hash_order t1 (leaf_nodes t1) = Some (Inr t')" and sp': "same_problem t t'"
    and sv: "\<And>i. i < length t \<Longrightarrow> solved invf t' i"
    by auto
  have "bellman_tree_backup invf hash_order t = Some (Inr t')"
    by (simp add: bellman_tree_backup_def l c)
  moreover have "length t' = length t" using sp' by (simp add: same_problem_def)
  ultimately show ?thesis using sp' sv by (auto simp: solved_def)
qed

lemma same_problemD:
  assumes "same_problem t t'" and "i < length t"
  shows "children (t' ! i) = children (t ! i)" "same_data (item (t ! i)) (item (t' ! i))"
  using assms by (simp_all add: same_problem_def)

lemma wf_add_root: "wf_tree (add_root n)"
  by (simp add: add_root_def Tree_def wf_tree_def)

lemma wf_add_child:
  assumes wf: "wf_tree t" and p: "p < length t"
  shows "wf_tree (fst (add_child t p n))"
proof -
  define new :: "('a, 'b) TreeNode" where
    "new = \<lparr>item = n, parent = Some p, children = [], depth = depth (t ! p) + 1\<rparr>"
  define t' where "t' = t[p := (t ! p)\<lparr>children := children (t ! p) @ [length t]\<rparr>] @ [new]"
  have t': "fst (add_child t p n) = t'" by (simp add: add_child_def t'_def new_def)
  have len: "length t' = Suc (length t)" by (simp add: t'_def)
  have old: "parent (t' ! i) = parent (t ! i)" "depth (t' ! i) = depth (t ! i)"
    "children (t' ! i) = (if i = p then children (t ! p) @ [length t] else children (t ! i))"
    if "i < length t" for i
    using that p by (auto simp: t'_def nth_append nth_list_update)
  have last: "parent (t' ! length t) = Some p" "depth (t' ! length t) = depth (t ! p) + 1"
    "children (t' ! length t) = []"
    by (simp_all add: t'_def nth_append new_def)
  have ne: "0 < length t" using p by (cases t) simp_all
  have 1: "t' \<noteq> []" by (simp add: t'_def)
  have 2: "parent (t' ! 0) = None" "depth (t' ! 0) = 0"
    using old [OF ne] wf_treeD(2,3) [OF wf] by simp_all
  have 3: "case parent (t' ! i) of None \<Rightarrow> False
       | Some q \<Rightarrow> q < i \<and> depth (t' ! i) = depth (t' ! q) + 1 \<and> i \<in> set (children (t' ! q))"
    if i: "i < length t'" "0 < i" for i
  proof (cases "i = length t")
    case True
    then show ?thesis using p by (simp add: last old)
  next
    case False
    then have i': "i < length t" using i(1) len by simp
    from wf_parent [OF wf i' i(2)] obtain q where
      q: "parent (t ! i) = Some q" "q < i" "depth (t ! i) = depth (t ! q) + 1"
        "i \<in> set (children (t ! q))" by blast
    have "q < length t" using q(2) i' by simp
    then show ?thesis using q i' by (auto simp: old)
  qed
  have 4: "distinct (children (t' ! q)) \<and>
      (\<forall>c\<in>set (children (t' ! q)). c < length t' \<and> parent (t' ! c) = Some q)"
    if q: "q < length t'" for q
  proof (cases "q = length t")
    case True
    then show ?thesis by (simp add: last)
  next
    case False
    then have q': "q < length t" using q len by simp
    have d: "distinct (children (t ! q))" by (rule wf_treeD(5) [OF wf q'])
    have c: "c < length t \<and> parent (t ! c) = Some q" if "c \<in> set (children (t ! q))" for c
      using wf_treeD(6) [OF wf q' that] .
    have nl: "length t \<notin> set (children (t ! q))" using c by auto
    have kids: "children (t' ! q) = (if q = p then children (t ! p) @ [length t] else children (t ! q))"
      by (rule old(3) [OF q'])
    have a: "distinct (children (t' ! q))" unfolding kids using d nl by auto
    have b: "c < length t' \<and> parent (t' ! c) = Some q" if m: "c \<in> set (children (t' ! q))" for c
    proof (cases "c = length t")
      case True
      then have "q = p" using m nl unfolding kids by (auto split: if_splits)
      then show ?thesis using True by (simp add: len last)
    next
      case False
      then have "c \<in> set (children (t ! q))" using m unfolding kids by (auto split: if_splits)
      from c [OF this] show ?thesis by (simp add: len old)
    qed
    from a b show ?thesis by blast
  qed
  show ?thesis unfolding t' wf_tree_def using 1 2 3 4 by blast
qed

lemma wf_add_nodes:
  assumes "wf_tree t" and "p < length t" and "add_nodes t plan_nodes p = Inr (t', cs)"
  shows "wf_tree t'"
proof -
  have "wf_tree (fst (fold (\<lambda>plan_node (t, cs).
            case add_child t p plan_node of (t', c) \<Rightarrow> (t', cs @ [c])) ns (t, cs0))) \<and>
        length t \<le> length (fst (fold (\<lambda>plan_node (t, cs).
            case add_child t p plan_node of (t', c) \<Rightarrow> (t', cs @ [c])) ns (t, cs0)))"
    if "wf_tree t" "p < length t" for ns cs0 and t :: "('a, 'b) Tree"
    using that
  proof (induction ns arbitrary: t cs0)
    case Nil
    then show ?case by simp
  next
    case (Cons n ns)
    obtain t1 c where a: "add_child t p n = (t1, c)" by (cases "add_child t p n")
    have w: "wf_tree t1" using wf_add_child [OF Cons.prems, of n] a by simp
    have l: "length t1 = Suc (length t)" using a by (auto simp: add_child_def)
    then have "p < length t1" using Cons.prems(2) by simp
    from Cons.IH [OF w this, of "cs0 @ [c]"] show ?case using l by (simp add: a)
  qed
  from this [OF assms(1,2), of plan_nodes "[]"] assms(3) show ?thesis
    by (auto simp: add_nodes_def Let_def split: sum.splits)
qed

lemma two_leaves_built:
  "add_nodes (add_root (scalar_plan_node 1 1)) [scalar_plan_node r (2 / 5), scalar_plan_node 1 (3 / 5)] 0 =
     Inr (two_leaves r, [1, 2])"
  by (simp add: add_nodes_def add_root_def Tree_def add_child_def two_leaves_def
      IS_ALMOST_EQUAL_def EPS_def scalar_plan_node_def)

lemma two_leaves_leaf_nodes: "leaf_nodes (two_leaves r) = [1, 2]"
  by (simp add: leaf_nodes_def two_leaves_def upt_rec)

lemma two_leaves_shape: "wf_tree (two_leaves r)" "leaves_level (two_leaves r)"
proof -
  show "wf_tree (two_leaves r)"
    using wf_add_nodes [OF wf_add_root _ two_leaves_built] by (simp add: add_root_def Tree_def)
  show "leaves_level (two_leaves r)"
    by (simp add: leaves_level_def two_leaves_leaf_nodes) (simp add: two_leaves_def)
qed

theorem tree_backup_results_witness:
  "\<exists>t'. bellman_tree_backup scalar_inverse (\<lambda>ks. ks) (two_leaves 1) = Some (Inr t') \<and>
        m_K (item (t' ! 1)) = Some mZero \<and> m_V (item (t' ! 1)) = Some (scalar 1) \<and>
        m_K (item (t' ! 2)) = Some mZero \<and> m_V (item (t' ! 2)) = Some (scalar 1) \<and>
        m_K (item (t' ! 0)) = Some (scalar (- 1 / 2)) \<and> m_V (item (t' ! 0)) = Some (scalar (3 / 2))"
proof -
  from tree_backup_results [where hash_order = "\<lambda>ks. ks" and invf = scalar_inverse
      and t = "two_leaves 1", OF two_leaves_shape] obtain t' where
    r: "bellman_tree_backup scalar_inverse (\<lambda>ks. ks) (two_leaves 1) = Some (Inr t')"
    and sp: "same_problem (two_leaves 1) t'"
    and res: "\<And>i. i < length t' \<Longrightarrow>
              if children (t' ! i) = [] then leaf_result scalar_inverse (item (t' ! i))
              else internal_result scalar_inverse (item (t' ! i)) (aggregate t' i)"
    by auto
  have len: "length t' = 3" using sp by (simp add: same_problem_def two_leaves_def)
  have ch: "children (t' ! 0) = [1, 2]" "children (t' ! 1) = []" "children (t' ! 2) = []"
    using same_problemD(1) [OF sp, of 0] same_problemD(1) [OF sp, of 1]
      same_problemD(1) [OF sp, of 2]
    by (simp_all add: two_leaves_def)
  have d0: "same_data (scalar_plan_node 1 1) (item (t' ! 0))"
    and d1: "same_data (scalar_plan_node 1 (2 / 5)) (item (t' ! 1))"
    and d2: "same_data (scalar_plan_node 1 (3 / 5)) (item (t' ! 2))"
    using same_problemD(2) [OF sp, of 0] same_problemD(2) [OF sp, of 1]
      same_problemD(2) [OF sp, of 2]
    by (simp_all add: two_leaves_def)
  have i1: "scalar_inverse (Some (scalar 1)) = Some (scalar 1)"
    by (simp add: scalar_inverse_def scalar_def)
  have l1: "leaf_result scalar_inverse (item (t' ! 1))" using res [of 1] unfolding len ch by simp
  have l2: "leaf_result scalar_inverse (item (t' ! 2))" using res [of 2] unfolding len ch by simp
  have v1: "m_K (item (t' ! 1)) = Some mZero" "m_V (item (t' ! 1)) = Some (scalar 1)"
    using l1 d1 by (simp_all add: leaf_result_def same_data_def scalar_plan_node_def i1)
  have v2: "m_K (item (t' ! 2)) = Some mZero" "m_V (item (t' ! 2)) = Some (scalar 1)"
    using l2 d2 by (simp_all add: leaf_result_def same_data_def scalar_plan_node_def i1)
  have p1: "m_probability (item (t' ! 1)) = 2 / 5" and p2: "m_probability (item (t' ! 2)) = 3 / 5"
    using d1 d2 by (simp_all add: same_data_def scalar_plan_node_def)
  have "aggregate t' 0 = Some (msum [mscale (2 / 5) (scalar 1), mscale (3 / 5) (scalar 1)])"
    by (simp add: aggregate_def ch v1 [unfolded One_nat_def] v2 p1 [unfolded One_nat_def] p2)
  moreover have "msum [mscale (2 / 5) (scalar 1), mscale (3 / 5) (scalar 1)] = scalar 1"
    by (simp add: msum_def mscale_def scalar_def fun_eq_iff)
  ultimately have a: "aggregate t' 0 = Some (scalar 1)" by simp
  have i2: "scalar_inverse (Some (madd (scalar 1) (mmul (mmul (mtranspose (scalar 1)) (scalar 1)) (scalar 1)))) =
      Some (scalar (1 / 2))"
    by (simp add: scalar_inverse_def scalar_def matrix_defs)
  have ir: "internal_result scalar_inverse (item (t' ! 0)) (Some (scalar 1))"
    using res [of 0] unfolding len ch a by simp
  have k0: "m_K (item (t' ! 0)) = Some (scalar (- 1 / 2))"
    using ir d0
    by (simp add: internal_result_def same_data_def scalar_plan_node_def Let_def i2)
      (simp add: scalar_def matrix_defs fun_eq_iff)
  have v0: "m_V (item (t' ! 0)) = Some (scalar (3 / 2))"
    using ir d0
    by (simp add: internal_result_def same_data_def scalar_plan_node_def Let_def i2)
      (simp add: scalar_def matrix_defs fun_eq_iff)
  from r v1 v2 k0 v0 show ?thesis by blast
qed

text \<open>
  Claim C7, the counterexample.  The tree with a root and two leaves, built by \<^verbatim>\<open>add_root\<close>
  and \<^verbatim>\<open>add_nodes\<close>, where the first leaf has \<open>R = 0\<close>: the inverse of its \<open>R\<close> is \<^verbatim>\<open>inf\<close>, the
  product \<^verbatim>\<open>inf * 0\<close> is \<^verbatim>\<open>NaN\<close>, and the leaf ends with a \<open>K\<close> and a \<open>V\<close> that are not finite
  instead of \<open>K = 0\<close> and \<open>V = Q\<close>; the root, which sums the value matrices of its children,
  ends likewise.  The second leaf, with \<open>R = 1\<close>, has \<open>K = 0\<close> and \<open>V = Q\<close>.
\<close>

theorem singular_leaf_gain_not_finite:
  "bellman_tree_backup scalar_inverse id (two_leaves 0) =
     Some (Inr
       [\<lparr>item = (scalar_plan_node 1 1)\<lparr>m_K := None, m_V := None\<rparr>,
         parent = None, children = [1, 2], depth = 0\<rparr>,
        \<lparr>item = (scalar_plan_node 0 (2 / 5))\<lparr>m_K := None, m_V := None\<rparr>,
         parent = Some 0, children = [], depth = 1\<rparr>,
        \<lparr>item = (scalar_plan_node 1 (3 / 5))\<lparr>m_K := Some mZero, m_V := Some (scalar 1)\<rparr>,
         parent = Some 0, children = [], depth = 1\<rparr>])"
proof -
  define t1 :: "(unit, unit) Tree" where "t1 =
       [\<lparr>item = scalar_plan_node 1 1, parent = None, children = [1, 2], depth = 0\<rparr>,
        \<lparr>item = (scalar_plan_node 0 (2 / 5))\<lparr>m_K := None, m_V := None\<rparr>,
         parent = Some 0, children = [], depth = 1\<rparr>,
        \<lparr>item = (scalar_plan_node 1 (3 / 5))\<lparr>m_K := Some mZero, m_V := Some (scalar 1)\<rparr>,
         parent = Some 0, children = [], depth = 1\<rparr>]"
  define t2 :: "(unit, unit) Tree" where "t2 =
       [\<lparr>item = (scalar_plan_node 1 1)\<lparr>m_K := None, m_V := None\<rparr>,
         parent = None, children = [1, 2], depth = 0\<rparr>,
        \<lparr>item = (scalar_plan_node 0 (2 / 5))\<lparr>m_K := None, m_V := None\<rparr>,
         parent = Some 0, children = [], depth = 1\<rparr>,
        \<lparr>item = (scalar_plan_node 1 (3 / 5))\<lparr>m_K := Some mZero, m_V := Some (scalar 1)\<rparr>,
         parent = Some 0, children = [], depth = 1\<rparr>]"
  have b0: "backup_node scalar_inverse (scalar_plan_node 0 (2 / 5)) (Some mZero) =
      (scalar_plan_node 0 (2 / 5))\<lparr>m_K := None, m_V := None\<rparr>"
    by (simp add: backup_node_def compute_control_policy_def compute_value_matrix_def Let_def
        dmatrix_defs scalar_inverse_def scalar_plan_node_def scalar_def)
  have b1: "backup_node scalar_inverse (scalar_plan_node 1 (3 / 5)) (Some mZero) =
      (scalar_plan_node 1 (3 / 5))\<lparr>m_K := Some mZero, m_V := Some (scalar 1)\<rparr>"
    by (simp add: backup_node_def compute_control_policy_def compute_value_matrix_def Let_def
        dmatrix_defs scalar_inverse_def scalar_plan_node_def scalar_def)
  have b2: "backup_node scalar_inverse (scalar_plan_node 1 1) None =
      (scalar_plan_node 1 1)\<lparr>m_K := None, m_V := None\<rparr>"
    by (simp add: backup_node_def compute_control_policy_def compute_value_matrix_def Let_def
        dmatrix_defs scalar_inverse_def scalar_plan_node_def)
  have l: "control_and_value_for_leaves scalar_inverse (two_leaves 0) = Inr t1"
    unfolding control_and_value_for_leaves_def two_leaves_leaf_nodes Let_def
    by (simp add: two_leaves_def IS_EQUAL_def b0 b1 t1_def)
  have l1: "leaf_nodes t1 = [1, 2]"
    by (simp add: leaf_nodes_def t1_def upt_rec)
  have f: "for_loop [1, 2] (file_child t1 1) Map.empty = Inr [Some 0 \<mapsto> [1, 2]]"
    by (simp add: file_child_def IS_EQUAL_def t1_def Let_def)
  have fd: "(if length [1, 2 :: nat] > 0 then int (depth (t1 ! hd [1, 2])) else - 1) = 1"
    by (simp add: t1_def)
  have keys: "id (remdups (map (\<lambda>child. parent (t1 ! child)) [1, 2])) = [Some 0]"
    by (simp add: t1_def)
  have bp: "backup_parent scalar_inverse [Some 0 \<mapsto> [1, 2]] (Some 0) (t1, []) = Inr (t2, [0])"
    by (simp add: backup_parent_def Let_def t1_def dadd_def dscale_def b2 t2_def)
  have p: "backup_to_parents scalar_inverse id t1 [1, 2] = Inr (t2, [0])"
    unfolding backup_to_parents_def Let_def fd unfolding f sum.case keys
    by (simp only: for_loop.simps bp sum.case)
  have g1: "\<not> (length [1, 2 :: nat] = 1 \<and> depth (t1 ! hd [1, 2]) = 0)" by simp
  have g2: "depth (t2 ! 0) = 0" by (simp add: t2_def)
  have "climb scalar_inverse id t2 [0] = Some (Inr t2)"
    by (subst climb.simps) (simp add: g2)
  then have "climb scalar_inverse id t1 [1, 2] = Some (Inr t2)"
    by (subst climb.simps) (simp only: g1 if_False p sum.case prod.case)
  then show ?thesis
    by (simp add: bellman_tree_backup_def l l1 t2_def)
qed

end
